theory Spec2Isabelle
  imports Main
begin

section \<open>Data model\<close>

text \<open>
  Senders, receivers and callback functions are JavaScript objects; only their identity
  matters to the registry, so an object is its identity.  A \<open>Signal\<close> object is likewise
  an identity.  \<open>Connection\<close> and \<open>ConnectionList\<close> objects live in two stores, addressed
  by the references the source keeps in its fields and variables.
\<close>

type_synonym obj = nat
type_synonym sigid = nat
type_synonym addr = nat
type_synonym lref = nat

text \<open>
  The values a \<open>thisArg\<close> can take: the falsy values of JavaScript and object references.
  (The interface requires a provided \<open>thisArg\<close> to be a non-primitive object, so truthy
  primitives are left out.)
\<close>

datatype jsval = Undefined | Null | JFalse | JZero | JNaN | JEmptyString | Obj obj

primrec truthy :: "jsval \<Rightarrow> bool" where
  "truthy Undefined = False"
| "truthy Null = False"
| "truthy JFalse = False"
| "truthy JZero = False"
| "truthy JNaN = False"
| "truthy JEmptyString = False"
| "truthy (Obj x) = True"

text \<open>\<open>thisArg || void 0\<close>\<close>

definition coerce :: "jsval \<Rightarrow> jsval" where
  "coerce v = (if truthy v then v else Undefined)"

record Connection =
  signal :: "sigid option"
  callback :: "obj option"
  thisArg :: jsval
  nextReceiver :: "addr option"
  nextSender :: "addr option"
  prevSender :: "addr option"

record ConnectionList =
  refs :: int
  first :: "addr option"
  last' :: "addr option"

text \<open>\<open>new Connection()\<close> and \<open>new ConnectionList()\<close>: the field initialisers of the classes.\<close>

definition new_Connection :: Connection where
  "new_Connection = \<lparr>signal = None, callback = None, thisArg = Null,
     nextReceiver = None, nextSender = None, prevSender = None\<rparr>"

definition new_ConnectionList :: ConnectionList where
  "new_ConnectionList = \<lparr>refs = 0, first = None, last' = None\<rparr>"

text \<open>
  The module state: the two object stores with their allocation counters, and the two
  weak maps \<open>senderMap\<close> and \<open>receiverMap\<close>.
\<close>

record state =
  conns :: "addr \<Rightarrow> Connection"
  lists :: "lref \<Rightarrow> ConnectionList"
  senderMap :: "obj \<rightharpoonup> lref"
  receiverMap :: "obj \<rightharpoonup> addr"
  nextConn :: addr
  nextList :: lref

definition init :: state where
  "init = \<lparr>conns = (\<lambda>_. new_Connection), lists = (\<lambda>_. new_ConnectionList),
     senderMap = Map.empty, receiverMap = Map.empty, nextConn = 0, nextList = 0\<rparr>"

text \<open>Field assignments \<open>conn.f = v\<close> and \<open>list.f = v\<close> on the stores.\<close>

definition upd_conn :: "addr \<Rightarrow> (Connection \<Rightarrow> Connection) \<Rightarrow> state \<Rightarrow> state" where
  "upd_conn c f st = st\<lparr>conns := (conns st)(c := f (conns st c))\<rparr>"

definition upd_list :: "lref \<Rightarrow> (ConnectionList \<Rightarrow> ConnectionList) \<Rightarrow> state \<Rightarrow> state" where
  "upd_list l f st = st\<lparr>lists := (lists st)(l := f (lists st l))\<rparr>"

text \<open>
  What a client observes of an emission: the callbacks invoked, each with its \<open>this\<close>,
  the sender, the args, and the invocations that happened inside it (a callback may emit).
  A callback returns or throws.
\<close>

datatype event = Call obj jsval obj nat "event list"

datatype outcome = Returned | Thrown

type_synonym result = "(outcome \<times> event list \<times> state) option"

text \<open>
  How a callback function runs is not part of the registry: \<open>callfn\<close> is the meaning of
  \<open>callback.call(thisArg, sender, args)\<close>, a parameter of \<open>emit\<close>.  \<open>None\<close> is a call that
  does not return.
\<close>

type_synonym callfn = "obj \<Rightarrow> jsval \<Rightarrow> obj \<Rightarrow> nat \<Rightarrow> state \<Rightarrow> result"

section \<open>The registry operations\<close>

subsection \<open>findConnection\<close>

partial_function (option) findConnection_loop ::
  "(addr \<Rightarrow> Connection) \<Rightarrow> sigid \<Rightarrow> obj \<Rightarrow> jsval \<Rightarrow> addr option \<Rightarrow> addr option option" where
  "findConnection_loop h sg cb t conn =
     (case conn of
        None \<Rightarrow> Some None
      | Some c \<Rightarrow>
          if signal (h c) = Some sg \<and> callback (h c) = Some cb \<and> thisArg (h c) = t
          then Some (Some c)
          else findConnection_loop h sg cb t (nextReceiver (h c)))"

declare findConnection_loop.simps [code]

definition findConnection :: "state \<Rightarrow> lref \<Rightarrow> sigid \<Rightarrow> obj \<Rightarrow> jsval \<Rightarrow> addr option option" where
  "findConnection st l sg cb t = findConnection_loop (conns st) sg cb t (first (lists st l))"

subsection \<open>connect\<close>

text \<open>\<open>thisArg || callback\<close>, for a connection being made.\<close>

definition receiver_of :: "jsval \<Rightarrow> obj \<Rightarrow> obj" where
  "receiver_of t cb = (case t of Obj x \<Rightarrow> x | _ \<Rightarrow> cb)"

text \<open>The block ``Add the connection to the receivers list'': append to the sender's list.\<close>

definition add_to_receivers_list :: "obj \<Rightarrow> lref option \<Rightarrow> addr \<Rightarrow> state \<Rightarrow> state" where
  "add_to_receivers_list sender list c st =
     (case list of
        None \<Rightarrow>
          let l = nextList st
          in st\<lparr>lists := (lists st)(l := new_ConnectionList\<lparr>first := Some c, last' := Some c\<rparr>),
                nextList := Suc l,
                senderMap := (senderMap st)(sender \<mapsto> l)\<rparr>
      | Some l \<Rightarrow>
          (case last' (lists st l) of
             None \<Rightarrow> upd_list l (\<lambda>r. r\<lparr>first := Some c, last' := Some c\<rparr>) st
           | Some tail \<Rightarrow>
               upd_list l (\<lambda>r. r\<lparr>last' := Some c\<rparr>)
                 (upd_conn tail (\<lambda>r. r\<lparr>nextReceiver := Some c\<rparr>) st)))"

text \<open>The block ``Add the connection to the senders list'': push on the receiver's chain.\<close>

definition add_to_senders_list :: "obj \<Rightarrow> addr \<Rightarrow> state \<Rightarrow> state" where
  "add_to_senders_list receiver c st =
     (let st1 = (case receiverMap st receiver of
                   None \<Rightarrow> st
                 | Some head \<Rightarrow>
                     upd_conn c (\<lambda>r. r\<lparr>nextSender := Some head\<rparr>)
                       (upd_conn head (\<lambda>r. r\<lparr>prevSender := Some c\<rparr>) st))
      in st1\<lparr>receiverMap := (receiverMap st1)(receiver \<mapsto> c)\<rparr>)"

text \<open>\<open>new Connection()\<close> followed by the assignments of signal, callback and thisArg.\<close>

definition create_connection :: "sigid \<Rightarrow> obj \<Rightarrow> jsval \<Rightarrow> state \<Rightarrow> state" where
  "create_connection sg cb t st =
     upd_conn (nextConn st) (\<lambda>r. r\<lparr>signal := Some sg, callback := Some cb, thisArg := t\<rparr>)
       (st\<lparr>conns := (conns st)(nextConn st := new_Connection), nextConn := Suc (nextConn st)\<rparr>)"

definition connect :: "obj \<Rightarrow> sigid \<Rightarrow> obj \<Rightarrow> jsval \<Rightarrow> state \<Rightarrow> (bool \<times> state) option" where
  "connect sender sg cb thisArg0 st =
     (let t = coerce thisArg0;
          list = senderMap st sender
      in case (case list of None \<Rightarrow> Some None | Some l \<Rightarrow> findConnection st l sg cb t) of
           None \<Rightarrow> None
         | Some (Some found) \<Rightarrow> Some (False, st)
         | Some None \<Rightarrow>
             Some (True,
               add_to_senders_list (receiver_of t cb) (nextConn st)
                 (add_to_receivers_list sender list (nextConn st)
                   (create_connection sg cb t st))))"

subsection \<open>removeFromSendersList\<close>

text \<open>\<open>conn.thisArg || conn.callback\<close>, which is \<open>null\<close> for a dead connection.\<close>

definition conn_receiver :: "Connection \<Rightarrow> obj option" where
  "conn_receiver r = (case thisArg r of Obj x \<Rightarrow> Some x | _ \<Rightarrow> callback r)"

definition removeFromSendersList :: "addr \<Rightarrow> state \<Rightarrow> state" where
  "removeFromSendersList c st =
     (case conn_receiver (conns st c) of
        None \<Rightarrow> st
      | Some receiver \<Rightarrow>
          let prev = prevSender (conns st c);
              nxt = nextSender (conns st c);
              st1 = (case prev of
                       None \<Rightarrow>
                         (case nxt of
                            None \<Rightarrow> st\<lparr>receiverMap := (receiverMap st)(receiver := None)\<rparr>
                          | Some n \<Rightarrow>
                              upd_conn n (\<lambda>r. r\<lparr>prevSender := None\<rparr>)
                                (st\<lparr>receiverMap := (receiverMap st)(receiver \<mapsto> n)\<rparr>))
                     | Some p \<Rightarrow>
                         (case nxt of
                            None \<Rightarrow> upd_conn p (\<lambda>r. r\<lparr>nextSender := None\<rparr>) st
                          | Some n \<Rightarrow>
                              upd_conn n (\<lambda>r. r\<lparr>prevSender := Some p\<rparr>)
                                (upd_conn p (\<lambda>r. r\<lparr>nextSender := Some n\<rparr>) st)))
          in upd_conn c (\<lambda>r. r\<lparr>prevSender := None, nextSender := None\<rparr>) st1)"

text \<open>\<open>conn.callback = null; conn.thisArg = null;\<close>\<close>

definition clear_conn :: "addr \<Rightarrow> state \<Rightarrow> state" where
  "clear_conn c st = upd_conn c (\<lambda>r. r\<lparr>callback := None, thisArg := Null\<rparr>) st"

subsection \<open>disconnect\<close>

definition disconnect :: "obj \<Rightarrow> sigid \<Rightarrow> obj \<Rightarrow> jsval \<Rightarrow> state \<Rightarrow> (bool \<times> state) option" where
  "disconnect sender sg cb thisArg0 st =
     (let t = coerce thisArg0
      in case senderMap st sender of
           None \<Rightarrow> Some (False, st)
         | Some l \<Rightarrow>
             (case findConnection st l sg cb t of
                None \<Rightarrow> None
              | Some None \<Rightarrow> Some (False, st)
              | Some (Some c) \<Rightarrow> Some (True, clear_conn c (removeFromSendersList c st))))"

subsection \<open>invokeList\<close>

text \<open>
  One iteration of the loop of \<open>invokeList\<close>, up to the test \<open>conn === last\<close>: a dead
  connection sets \<open>dirty\<close>, a live one of the emitted signal is invoked.
\<close>

definition invoke_conn ::
  "callfn \<Rightarrow> obj \<Rightarrow> sigid \<Rightarrow> nat \<Rightarrow> addr \<Rightarrow> bool \<Rightarrow> state \<Rightarrow> (outcome \<times> bool \<times> event list \<times> state) option" where
  "invoke_conn call sender sg a c dirty st =
     (case callback (conns st c) of
        None \<Rightarrow> Some (Returned, True, [], st)
      | Some cb \<Rightarrow>
          if signal (conns st c) = Some sg
          then (case call cb (thisArg (conns st c)) sender a st of
                  None \<Rightarrow> None
                | Some (out, sub, st') \<Rightarrow>
                    Some (out, dirty, [Call cb (thisArg (conns st c)) sender a sub], st'))
          else Some (Returned, dirty, [], st))"

partial_function (option) invokeList_loop ::
  "callfn \<Rightarrow> addr option \<Rightarrow> obj \<Rightarrow> sigid \<Rightarrow> nat \<Rightarrow> bool \<Rightarrow> event list \<Rightarrow> addr option \<Rightarrow> state
     \<Rightarrow> (outcome \<times> bool \<times> event list \<times> state) option" where
  "invokeList_loop call lst sender sg a dirty evs conn st =
     (case conn of
        None \<Rightarrow> Some (Returned, dirty, evs, st)
      | Some c \<Rightarrow>
          (case invoke_conn call sender sg a c dirty st of
             None \<Rightarrow> None
           | Some (out, dirty', ev, st') \<Rightarrow>
               (case out of
                  Thrown \<Rightarrow> Some (Thrown, dirty', evs @ ev, st')
                | Returned \<Rightarrow>
                    if conn = lst then Some (Returned, dirty', evs @ ev, st')
                    else invokeList_loop call lst sender sg a dirty' (evs @ ev)
                           (nextReceiver (conns st' c)) st')))"

declare invokeList_loop.simps [code]

definition invokeList ::
  "callfn \<Rightarrow> lref \<Rightarrow> obj \<Rightarrow> sigid \<Rightarrow> nat \<Rightarrow> state \<Rightarrow> (outcome \<times> bool \<times> event list \<times> state) option" where
  "invokeList call l sender sg a st =
     invokeList_loop call (last' (lists st l)) sender sg a False [] (first (lists st l)) st"

subsection \<open>cleanList\<close>

partial_function (option) cleanList_loop ::
  "lref \<Rightarrow> addr option \<Rightarrow> addr option \<Rightarrow> state \<Rightarrow> (addr option \<times> state) option" where
  "cleanList_loop l prev conn st =
     (case conn of
        None \<Rightarrow> Some (prev, st)
      | Some c \<Rightarrow>
          let nxt = nextReceiver (conns st c)
          in if callback (conns st c) = None
             then cleanList_loop l prev nxt (upd_conn c (\<lambda>r. r\<lparr>nextReceiver := None\<rparr>) st)
             else (case prev of
                     None \<Rightarrow>
                       cleanList_loop l (Some c) nxt (upd_list l (\<lambda>r. r\<lparr>first := Some c\<rparr>) st)
                   | Some p \<Rightarrow>
                       cleanList_loop l (Some c) nxt
                         (upd_conn p (\<lambda>r. r\<lparr>nextReceiver := Some c\<rparr>) st)))"

declare cleanList_loop.simps [code]

definition cleanList :: "lref \<Rightarrow> state \<Rightarrow> state option" where
  "cleanList l st =
     (case cleanList_loop l None (first (lists st l)) st of
        None \<Rightarrow> None
      | Some (prev, st1) \<Rightarrow>
          (case prev of
             None \<Rightarrow> Some (upd_list l (\<lambda>r. r\<lparr>first := None, last' := None\<rparr>) st1)
           | Some p \<Rightarrow>
               Some (upd_list l (\<lambda>r. r\<lparr>last' := Some p\<rparr>)
                      (upd_conn p (\<lambda>r. r\<lparr>nextReceiver := None\<rparr>) st1))))"

subsection \<open>emit\<close>

text \<open>
  \<open>try { dirty = invokeList(...) } finally { list.refs-- }\<close>: the counter is decremented
  on both exits; after a throw \<open>dirty\<close> is unassigned and the exception leaves \<open>emit\<close>.
\<close>

definition emit :: "callfn \<Rightarrow> obj \<Rightarrow> sigid \<Rightarrow> nat \<Rightarrow> state \<Rightarrow> result" where
  "emit call sender sg a st =
     (case senderMap st sender of
        None \<Rightarrow> Some (Returned, [], st)
      | Some l \<Rightarrow>
          (case invokeList call l sender sg a (upd_list l (\<lambda>r. r\<lparr>refs := refs r + 1\<rparr>) st) of
             None \<Rightarrow> None
           | Some (out, dirty, evs, st1) \<Rightarrow>
               let st2 = upd_list l (\<lambda>r. r\<lparr>refs := refs r - 1\<rparr>) st1
               in (case out of
                     Thrown \<Rightarrow> Some (Thrown, evs, st2)
                   | Returned \<Rightarrow>
                       if dirty \<and> refs (lists st2 l) = 0
                       then (case cleanList l st2 of
                               None \<Rightarrow> None
                             | Some st3 \<Rightarrow> Some (Returned, evs, st3))
                       else Some (Returned, evs, st2))))"

subsection \<open>disconnectSender, disconnectReceiver, clearSignalData\<close>

partial_function (option) disconnectSender_loop :: "addr option \<Rightarrow> state \<Rightarrow> state option" where
  "disconnectSender_loop conn st =
     (case conn of
        None \<Rightarrow> Some st
      | Some c \<Rightarrow>
          let st1 = clear_conn c (removeFromSendersList c st)
          in disconnectSender_loop (nextReceiver (conns st1 c)) st1)"

declare disconnectSender_loop.simps [code]

definition disconnectSender :: "obj \<Rightarrow> state \<Rightarrow> state option" where
  "disconnectSender sender st =
     (case senderMap st sender of
        None \<Rightarrow> Some st
      | Some l \<Rightarrow>
          (case disconnectSender_loop (first (lists st l)) st of
             None \<Rightarrow> None
           | Some st1 \<Rightarrow> Some (st1\<lparr>senderMap := (senderMap st1)(sender := None)\<rparr>)))"

partial_function (option) disconnectReceiver_loop :: "addr option \<Rightarrow> state \<Rightarrow> state option" where
  "disconnectReceiver_loop conn st =
     (case conn of
        None \<Rightarrow> Some st
      | Some c \<Rightarrow>
          let nxt = nextSender (conns st c)
          in disconnectReceiver_loop nxt
               (upd_conn c (\<lambda>r. r\<lparr>prevSender := None, nextSender := None\<rparr>) (clear_conn c st)))"

declare disconnectReceiver_loop.simps [code]

definition disconnectReceiver :: "obj \<Rightarrow> state \<Rightarrow> state option" where
  "disconnectReceiver receiver st =
     (case receiverMap st receiver of
        None \<Rightarrow> Some st
      | Some c \<Rightarrow>
          (case disconnectReceiver_loop (Some c) st of
             None \<Rightarrow> None
           | Some st1 \<Rightarrow> Some (st1\<lparr>receiverMap := (receiverMap st1)(receiver := None)\<rparr>)))"

definition clearSignalData :: "obj \<Rightarrow> state \<Rightarrow> state option" where
  "clearSignalData x st =
     (case disconnectSender x st of None \<Rightarrow> None | Some st1 \<Rightarrow> disconnectReceiver x st1)"

section \<open>Callbacks as clients of the registry\<close>

text \<open>
  A callback can reach the registry only through the exported operations.  A callback
  body is the sequence of operations it performs, which may depend on its \<open>this\<close>, the
  sender and the args; it can end by throwing.  The nesting of calls is bounded by the
  depth of the call stack, the first argument of \<open>run_callback\<close>.
\<close>

datatype action =
    Connect obj sigid obj jsval
  | Disconnect obj sigid obj jsval
  | Emit obj sigid nat
  | DisconnectSender obj
  | DisconnectReceiver obj
  | ClearSignalData obj
  | Throw

definition lift_bool :: "(bool \<times> state) option \<Rightarrow> result" where
  "lift_bool r = (case r of None \<Rightarrow> None | Some (b, st) \<Rightarrow> Some (Returned, [], st))"

definition lift_unit :: "state option \<Rightarrow> result" where
  "lift_unit r = (case r of None \<Rightarrow> None | Some st \<Rightarrow> Some (Returned, [], st))"

primrec exec :: "callfn \<Rightarrow> action \<Rightarrow> state \<Rightarrow> result" where
  "exec call (Connect s g cb t) st = lift_bool (connect s g cb t st)"
| "exec call (Disconnect s g cb t) st = lift_bool (disconnect s g cb t st)"
| "exec call (Emit s g a) st = emit call s g a st"
| "exec call (DisconnectSender s) st = lift_unit (disconnectSender s st)"
| "exec call (DisconnectReceiver r) st = lift_unit (disconnectReceiver r st)"
| "exec call (ClearSignalData x) st = lift_unit (clearSignalData x st)"
| "exec call Throw st = Some (Thrown, [], st)"

primrec exec_all :: "callfn \<Rightarrow> action list \<Rightarrow> state \<Rightarrow> result" where
  "exec_all call [] st = Some (Returned, [], st)"
| "exec_all call (x # xs) st =
     (case exec call x st of
        None \<Rightarrow> None
      | Some (out, ev, st1) \<Rightarrow>
          (case out of
             Thrown \<Rightarrow> Some (Thrown, ev, st1)
           | Returned \<Rightarrow>
               (case exec_all call xs st1 of
                  None \<Rightarrow> None
                | Some (out', ev', st2) \<Rightarrow> Some (out', ev @ ev', st2))))"

type_synonym prog = "obj \<Rightarrow> jsval \<Rightarrow> obj \<Rightarrow> nat \<Rightarrow> action list"

primrec run_callback :: "nat \<Rightarrow> prog \<Rightarrow> callfn" where
  "run_callback 0 p = (\<lambda>cb t s a st. None)"
| "run_callback (Suc n) p = (\<lambda>cb t s a st. exec_all (run_callback n p) (p cb t s a) st)"

section \<open>The shape of the registry\<close>

text \<open>
  \<open>chain h p xs\<close>: following \<open>nextReceiver\<close> from \<open>p\<close> visits exactly the connections \<open>xs\<close>
  and then reaches \<open>null\<close>.  \<open>walk n h p\<close> follows at most \<open>n\<close> links; \<open>nodes st l\<close> is the
  content of the list \<open>l\<close>, from \<open>first\<close> on (no more connections exist than were
  allocated).
\<close>

primrec chain :: "(addr \<Rightarrow> Connection) \<Rightarrow> addr option \<Rightarrow> addr list \<Rightarrow> bool" where
  "chain h p [] = (p = None)"
| "chain h p (x # xs) = (p = Some x \<and> chain h (nextReceiver (h x)) xs)"

primrec walk :: "nat \<Rightarrow> (addr \<Rightarrow> Connection) \<Rightarrow> addr option \<Rightarrow> addr list" where
  "walk 0 h p = []"
| "walk (Suc n) h p = (case p of None \<Rightarrow> [] | Some c \<Rightarrow> c # walk n h (nextReceiver (h c)))"

definition nodes :: "state \<Rightarrow> lref \<Rightarrow> addr list" where
  "nodes st l = walk (nextConn st) (conns st) (first (lists st l))"

definition last_of :: "addr list \<Rightarrow> addr option" where
  "last_of xs = (if xs = [] then None else Some (last xs))"

text \<open>A connection is live while its callback is set.\<close>

definition live :: "state \<Rightarrow> addr \<Rightarrow> bool" where
  "live st c = (callback (conns st c) \<noteq> None)"

text \<open>The live connection \<open>c\<close> is the subscription of callback \<open>cb\<close> with context \<open>t\<close> to signal \<open>sg\<close>.\<close>

definition subscribes :: "state \<Rightarrow> addr \<Rightarrow> sigid \<Rightarrow> obj \<Rightarrow> jsval \<Rightarrow> bool" where
  "subscribes st c sg cb t =
     (signal (conns st c) = Some sg \<and> callback (conns st c) = Some cb \<and> thisArg (conns st c) = t)"

definition same_key :: "state \<Rightarrow> addr \<Rightarrow> addr \<Rightarrow> bool" where
  "same_key st c c' =
     (signal (conns st c) = signal (conns st c') \<and> callback (conns st c) = callback (conns st c')
      \<and> thisArg (conns st c) = thisArg (conns st c'))"

text \<open>
  The sender side of a well-formed registry: every allocated list (in \<open>senderMap\<close> or
  detached from it by \<open>disconnectSender\<close>) is a null-terminated chain of allocated
  connections ending at \<open>last\<close>; no connection is in two lists; the live connections of a
  list differ in signal, callback or context; no counter is negative; each sender has a
  list of its own; a list detached from \<open>senderMap\<close> holds dead connections only.
\<close>

definition list_ok :: "state \<Rightarrow> lref \<Rightarrow> bool" where
  "list_ok st l =
     (chain (conns st) (first (lists st l)) (nodes st l)
      \<and> last' (lists st l) = last_of (nodes st l)
      \<and> (\<forall>c\<in>set (nodes st l). c < nextConn st)
      \<and> (\<forall>c\<in>set (nodes st l). \<forall>c'\<in>set (nodes st l). live st c \<and> same_key st c c' \<longrightarrow> c = c')
      \<and> 0 \<le> refs (lists st l))"

definition detached_dead :: "state \<Rightarrow> bool" where
  "detached_dead st =
     (\<forall>l<nextList st. (\<forall>s. senderMap st s \<noteq> Some l) \<longrightarrow> (\<forall>c\<in>set (nodes st l). \<not> live st c))"

definition wf_state :: "state \<Rightarrow> bool" where
  "wf_state st =
     ((\<forall>l<nextList st. list_ok st l)
      \<and> (\<forall>l<nextList st. \<forall>l'<nextList st. l \<noteq> l' \<longrightarrow> set (nodes st l) \<inter> set (nodes st l') = {})
      \<and> (\<forall>s l. senderMap st s = Some l \<longrightarrow> l < nextList st)
      \<and> (\<forall>s s' l. senderMap st s = Some l \<and> senderMap st s' = Some l \<longrightarrow> s = s')
      \<and> detached_dead st)"

text \<open>
  What every operation guarantees about the objects that existed before it: nothing is
  deallocated, a connection keeps its signal, and its callback and context until it dies,
  a dead connection stays dead, counters are restored, and a list that some emission is
  walking (\<open>refs > 0\<close>) only grows at its tail, by connections allocated since.
\<close>

definition evolves :: "state \<Rightarrow> state \<Rightarrow> bool" where
  "evolves st st' =
     (nextConn st \<le> nextConn st' \<and> nextList st \<le> nextList st'
      \<and> (\<forall>c<nextConn st. signal (conns st' c) = signal (conns st c)
            \<and> (callback (conns st' c) = None
                \<or> callback (conns st' c) = callback (conns st c)
                   \<and> thisArg (conns st' c) = thisArg (conns st c)))
      \<and> (\<forall>l<nextList st. refs (lists st' l) = refs (lists st l)
            \<and> (0 < refs (lists st l) \<longrightarrow>
                 (\<exists>ys. nodes st' l = nodes st l @ ys \<and> (\<forall>c\<in>set ys. nextConn st \<le> c)))))"

text \<open>Two states with the same sender side: they differ at most in the receiver chains.\<close>

definition sender_eq :: "state \<Rightarrow> state \<Rightarrow> bool" where
  "sender_eq st st' =
     (lists st' = lists st \<and> senderMap st' = senderMap st
      \<and> nextConn st' = nextConn st \<and> nextList st' = nextList st
      \<and> (\<forall>c. signal (conns st' c) = signal (conns st c)
             \<and> callback (conns st' c) = callback (conns st c)
             \<and> thisArg (conns st' c) = thisArg (conns st c)
             \<and> nextReceiver (conns st' c) = nextReceiver (conns st c)))"

text \<open>A way of running callbacks that keeps the registry well formed.\<close>

definition preserves_wf :: "callfn \<Rightarrow> bool" where
  "preserves_wf call =
     (\<forall>cb t s a st out ev st'. wf_state st \<and> call cb t s a st = Some (out, ev, st') \<longrightarrow> wf_state st' \<and> evolves st st')"

text \<open>The sender side of a successful \<open>connect\<close>, before the receiver chain is touched.\<close>

definition appended :: "state \<Rightarrow> obj \<Rightarrow> sigid \<Rightarrow> obj \<Rightarrow> jsval \<Rightarrow> lref \<Rightarrow> state \<Rightarrow> bool" where
  "appended st s g cb t l st' =
     (let c = nextConn st in
      nextConn st' = Suc c
      \<and> senderMap st' = (senderMap st)(s \<mapsto> l)
      \<and> (case senderMap st s of
            None \<Rightarrow> l = nextList st \<and> nextList st' = Suc l \<and> nodes st' l = [c] \<and> refs (lists st' l) = 0
          | Some l0 \<Rightarrow> l = l0 \<and> nextList st' = nextList st \<and> nodes st' l = nodes st l @ [c]
              \<and> refs (lists st' l) = refs (lists st l))
      \<and> (\<forall>l'<nextList st. l' \<noteq> l \<longrightarrow> nodes st' l' = nodes st l' \<and> lists st' l' = lists st l')
      \<and> (\<forall>x. x \<noteq> c \<longrightarrow> signal (conns st' x) = signal (conns st x)
             \<and> callback (conns st' x) = callback (conns st x)
             \<and> thisArg (conns st' x) = thisArg (conns st x))
      \<and> subscribes st' c g cb t)"

definition killed :: "addr set \<Rightarrow> state \<Rightarrow> state \<Rightarrow> bool" where
  "killed K st st' =
     (lists st' = lists st \<and> senderMap st' = senderMap st
      \<and> nextConn st' = nextConn st \<and> nextList st' = nextList st
      \<and> (\<forall>c. signal (conns st' c) = signal (conns st c)
             \<and> nextReceiver (conns st' c) = nextReceiver (conns st c)
             \<and> (c \<in> K \<longrightarrow> callback (conns st' c) = None \<and> thisArg (conns st' c) = Null)
             \<and> (c \<notin> K \<longrightarrow> callback (conns st' c) = callback (conns st c)
                      \<and> thisArg (conns st' c) = thisArg (conns st c))))"

primrec linked :: "(addr \<Rightarrow> Connection) \<Rightarrow> addr list \<Rightarrow> bool" where
  "linked h [] = True"
| "linked h (x # xs) = ((case xs of [] \<Rightarrow> True | y # _ \<Rightarrow> nextReceiver (h x) = Some y) \<and> linked h xs)"

definition head_of :: "addr list \<Rightarrow> addr option" where
  "head_of xs = (case xs of [] \<Rightarrow> None | x # _ \<Rightarrow> Some x)"

text \<open>What the loop of \<open>cleanList\<close> may change: links of the connections it handles, and \<open>first\<close>.\<close>

definition relinked :: "lref \<Rightarrow> addr set \<Rightarrow> state \<Rightarrow> state \<Rightarrow> bool" where
  "relinked l A st st' =
     (senderMap st' = senderMap st \<and> receiverMap st' = receiverMap st
      \<and> nextConn st' = nextConn st \<and> nextList st' = nextList st
      \<and> (\<forall>k. k \<noteq> l \<longrightarrow> lists st' k = lists st k)
      \<and> refs (lists st' l) = refs (lists st l)
      \<and> (\<forall>x. signal (conns st' x) = signal (conns st x)
             \<and> callback (conns st' x) = callback (conns st x)
             \<and> thisArg (conns st' x) = thisArg (conns st x)
             \<and> prevSender (conns st' x) = prevSender (conns st x)
             \<and> nextSender (conns st' x) = nextSender (conns st x)
             \<and> (x \<notin> A \<longrightarrow> nextReceiver (conns st' x) = nextReceiver (conns st x))))"

primrec callee :: "event \<Rightarrow> obj \<times> jsval" where
  "callee (Call cb t s a sub) = (cb, t)"

primrec call_args :: "event \<Rightarrow> obj \<times> nat" where
  "call_args (Call cb t s a sub) = (s, a)"

definition key_of :: "state \<Rightarrow> addr \<Rightarrow> obj \<times> jsval" where
  "key_of st c = (the (callback (conns st c)), thisArg (conns st c))"

text \<open>
  The result of walking the connections \<open>rem\<close> of a list from state \<open>st\<close>: the connections
  invoked are some of \<open>rem\<close>, in list order, each a live subscriber in \<open>st\<close>; after a normal
  return every subscriber still live was invoked, and \<open>dirty\<close> is set if a connection of \<open>rem\<close>
  was dead.
\<close>

definition pass_result ::
  "state \<Rightarrow> addr list \<Rightarrow> sigid \<Rightarrow> obj \<Rightarrow> nat \<Rightarrow> bool \<Rightarrow> outcome \<Rightarrow> bool \<Rightarrow> event list \<Rightarrow> state \<Rightarrow> bool" where
  "pass_result st rem g s a d out d' new st' =
     (\<exists>V. V \<subseteq> set rem
        \<and> (\<forall>c\<in>V. live st c \<and> signal (conns st c) = Some g)
        \<and> map callee new = map (key_of st) (filter (\<lambda>c. c \<in> V) rem)
        \<and> (\<forall>e\<in>set new. call_args e = (s, a))
        \<and> (out = Returned \<longrightarrow>
              (\<forall>c\<in>set rem. live st' c \<and> signal (conns st c) = Some g \<longrightarrow> c \<in> V)
              \<and> (d \<longrightarrow> d') \<and> ((\<exists>c\<in>set rem. \<not> live st c) \<longrightarrow> d')))"

section \<open>Observations of the registry, and the registries of the examples\<close>

text \<open>
  The lookup that \<open>connect\<close> and \<open>disconnect\<close> make before they act: \<open>Some (Some c)\<close> when
  \<open>c\<close> is the live connection of the callback with that context to the signal of the sender.
\<close>

definition connection :: "state \<Rightarrow> obj \<Rightarrow> sigid \<Rightarrow> obj \<Rightarrow> jsval \<Rightarrow> addr option option" where
  "connection st s g cb t =
     (case senderMap st s of None \<Rightarrow> Some None | Some l \<Rightarrow> findConnection st l g cb (coerce t))"

text \<open>
  The live connections of signal \<open>g\<close> on sender \<open>s\<close> in the order of the sender's list, and
  the callbacks with their contexts that they subscribe.
\<close>

definition subscribers :: "state \<Rightarrow> obj \<Rightarrow> sigid \<Rightarrow> addr list" where
  "subscribers st s g =
     (case senderMap st s of
        None \<Rightarrow> []
      | Some l \<Rightarrow> filter (\<lambda>c. live st c \<and> signal (conns st c) = Some g) (nodes st l))"

definition subscriptions :: "state \<Rightarrow> obj \<Rightarrow> sigid \<Rightarrow> (obj \<times> jsval) list" where
  "subscriptions st s g = map (key_of st) (subscribers st s g)"

definition one_connection :: state where
  "one_connection =
     add_to_senders_list 3 0 (add_to_receivers_list 7 None 0 (create_connection 1 3 Undefined init))"

text \<open>Callbacks that do nothing.\<close>

definition idle :: prog where
  "idle = (\<lambda>cb t s a. [])"

text \<open>What \<open>connect\<close> does once the duplicate scan has found nothing.\<close>

definition make_connection :: "obj \<Rightarrow> sigid \<Rightarrow> obj \<Rightarrow> jsval \<Rightarrow> state \<Rightarrow> state" where
  "make_connection s g cb t st =
     add_to_senders_list (receiver_of (coerce t) cb) (nextConn st)
       (add_to_receivers_list s (senderMap st s) (nextConn st)
         (create_connection g cb (coerce t) st))"

definition adder :: prog where
  "adder = (\<lambda>cb t s a. if cb = 20 then [Connect 7 1 3 Undefined] else [])"

definition adder_state :: state where
  "adder_state =
     (case exec_all (run_callback 0 idle) [Connect 7 1 11 (Obj 1), Connect 7 1 20 (Obj 4)] init of
        None \<Rightarrow> init
      | Some (out, evs, st) \<Rightarrow> st)"

definition remover :: prog where
  "remover = (\<lambda>cb t s a. if cb = 20 then [Disconnect 7 1 13 (Obj 3)] else [])"

definition remover_state :: state where
  "remover_state =
     (case exec_all (run_callback 0 idle)
             [Connect 7 1 11 (Obj 1), Connect 7 1 20 (Obj 4), Connect 7 1 13 (Obj 3)] init of
        None \<Rightarrow> init
      | Some (out, evs, st) \<Rightarrow> upd_list 0 (\<lambda>r. r\<lparr>refs := refs r + 1\<rparr>) st)"

text \<open>
  The event of invoking a callback with a context that calls nothing itself, and that of
  invoking the subscriber \<open>c\<close>.
\<close>

definition invocation :: "obj \<Rightarrow> nat \<Rightarrow> obj \<times> jsval \<Rightarrow> event" where
  "invocation s a k = Call (fst k) (snd k) s a []"

definition call_of :: "state \<Rightarrow> obj \<Rightarrow> nat \<Rightarrow> addr \<Rightarrow> event" where
  "call_of st s a c = invocation s a (key_of st c)"

definition subscriber :: "state \<Rightarrow> sigid \<Rightarrow> addr \<Rightarrow> bool" where
  "subscriber st g c = (live st c \<and> signal (conns st c) = Some g)"

text \<open>
  What the compaction after an emission may change: the dead connections leave the lists.
\<close>

definition compacted :: "state \<Rightarrow> state \<Rightarrow> bool" where
  "compacted st st' =
     (senderMap st' = senderMap st \<and> receiverMap st' = receiverMap st
      \<and> nextConn st' = nextConn st \<and> nextList st' = nextList st
      \<and> (\<forall>x. signal (conns st' x) = signal (conns st x)
             \<and> callback (conns st' x) = callback (conns st x)
             \<and> thisArg (conns st' x) = thisArg (conns st x)
             \<and> prevSender (conns st' x) = prevSender (conns st x)
             \<and> nextSender (conns st' x) = nextSender (conns st x))
      \<and> (\<forall>l. refs (lists st' l) = refs (lists st l))
      \<and> (\<forall>l<nextList st. nodes st' l = nodes st l \<or> nodes st' l = filter (live st) (nodes st l)))"

text \<open>
  The registry after the only connection of sender 7 has been disconnected, and after an
  emission on sender 7 has then compacted the list.
\<close>

definition dead_connection :: state where
  "dead_connection = clear_conn 0 (removeFromSendersList 0 one_connection)"

definition compacted_state :: state where
  "compacted_state =
     (case emit (run_callback 1 idle) 7 1 5 dead_connection of
        None \<Rightarrow> init
      | Some (out, evs, st) \<Rightarrow> st)"

text \<open>Callback 12 throws; the others do nothing.\<close>

definition thrower :: prog where
  "thrower = (\<lambda>cb t s a. if cb = 12 then [Throw] else [])"

definition three_connections :: state where
  "three_connections =
     make_connection 7 1 13 (Obj 3) (make_connection 7 1 12 (Obj 2) (make_connection 7 1 11 (Obj 1) init))"

text \<open>
  The specification's view of the registry: for each sender and signal, the callbacks
  (with their contexts) in the order in which they were connected.  \<open>connect\<close> puts a
  callback that is not connected at the tail, \<open>disconnect\<close> removes it, and \<open>emit\<close> invokes
  the callbacks from the first to the last.
\<close>

type_synonym subs = "obj \<Rightarrow> sigid \<Rightarrow> (obj \<times> jsval) list"

definition spec_connect :: "obj \<Rightarrow> sigid \<Rightarrow> obj \<Rightarrow> jsval \<Rightarrow> subs \<Rightarrow> subs" where
  "spec_connect s g cb t m =
     (if (cb, coerce t) \<in> set (m s g) then m else m(s := (m s)(g := m s g @ [(cb, coerce t)])))"

definition spec_disconnect :: "obj \<Rightarrow> sigid \<Rightarrow> obj \<Rightarrow> jsval \<Rightarrow> subs \<Rightarrow> subs" where
  "spec_disconnect s g cb t m = m(s := (m s)(g := removeAll (cb, coerce t) (m s g)))"

definition spec_emit :: "obj \<Rightarrow> sigid \<Rightarrow> nat \<Rightarrow> subs \<Rightarrow> event list" where
  "spec_emit s g a m = map (invocation s a) (m s g)"

text \<open>The operations that a script of connects, disconnects and emissions is made of.\<close>

primrec plain :: "action \<Rightarrow> bool" where
  "plain (Connect s g cb t) = True"
| "plain (Disconnect s g cb t) = True"
| "plain (Emit s g a) = True"
| "plain (DisconnectSender s) = False"
| "plain (DisconnectReceiver r) = False"
| "plain (ClearSignalData x) = False"
| "plain Throw = False"

primrec spec_step :: "action \<Rightarrow> subs \<Rightarrow> event list \<times> subs" where
  "spec_step (Connect s g cb t) m = ([], spec_connect s g cb t m)"
| "spec_step (Disconnect s g cb t) m = ([], spec_disconnect s g cb t m)"
| "spec_step (Emit s g a) m = (spec_emit s g a m, m)"
| "spec_step (DisconnectSender s) m = ([], m)"
| "spec_step (DisconnectReceiver r) m = ([], m)"
| "spec_step (ClearSignalData x) m = ([], m)"
| "spec_step Throw m = ([], m)"

primrec spec_run :: "action list \<Rightarrow> subs \<Rightarrow> event list \<times> subs" where
  "spec_run [] m = ([], m)"
| "spec_run (x # xs) m =
     (case spec_step x m of (e, m1) \<Rightarrow> (case spec_run xs m1 of (es, m2) \<Rightarrow> (e @ es, m2)))"

text \<open>Three connects, then the first callback is disconnected and connected again.\<close>

definition reconnect_script :: "action list" where
  "reconnect_script =
     [Connect 7 1 11 (Obj 1), Connect 7 1 12 (Obj 2), Connect 7 1 13 (Obj 3),
      Disconnect 7 1 11 (Obj 1), Connect 7 1 11 (Obj 1), Emit 7 1 5]"

text \<open>
  \<open>rchain h pv p xs\<close>: following \<open>nextSender\<close> from \<open>p\<close> visits exactly the connections \<open>xs\<close>
  and then reaches \<open>null\<close>, and \<open>prevSender\<close> leads back from each to the one before it
  (\<open>pv\<close> for the first).  \<open>rnodes st r\<close> is the chain of the receiver \<open>r\<close>, from the head
  that \<open>receiverMap\<close> holds.
\<close>

primrec rchain :: "(addr \<Rightarrow> Connection) \<Rightarrow> addr option \<Rightarrow> addr option \<Rightarrow> addr list \<Rightarrow> bool" where
  "rchain h pv p [] = (p = None)"
| "rchain h pv p (x # xs) = (p = Some x \<and> prevSender (h x) = pv \<and> rchain h (Some x) (nextSender (h x)) xs)"

primrec rwalk :: "nat \<Rightarrow> (addr \<Rightarrow> Connection) \<Rightarrow> addr option \<Rightarrow> addr list" where
  "rwalk 0 h p = []"
| "rwalk (Suc n) h p = (case p of None \<Rightarrow> [] | Some c \<Rightarrow> c # rwalk n h (nextSender (h c)))"

definition rnodes :: "state \<Rightarrow> obj \<Rightarrow> addr list" where
  "rnodes st r = rwalk (nextConn st) (conns st) (receiverMap st r)"

text \<open>
  The receiver side of a well-formed registry: the entry of each receiver is the head of
  a doubly linked chain; the chain of a receiver holds exactly the connections whose
  receiver (\<open>thisArg || callback\<close>) it is, all allocated; a dead connection has no receiver.
\<close>

definition wf_receivers :: "state \<Rightarrow> bool" where
  "wf_receivers st =
     ((\<forall>r. rchain (conns st) None (receiverMap st r) (rnodes st r))
      \<and> (\<forall>r. \<forall>c\<in>set (rnodes st r). conn_receiver (conns st c) = Some r)
      \<and> (\<forall>c r. conn_receiver (conns st c) = Some r \<longrightarrow> c < nextConn st \<and> c \<in> set (rnodes st r))
      \<and> (\<forall>c. \<not> live st c \<longrightarrow> conn_receiver (conns st c) = None))"

text \<open>The heap after \<open>removeFromSendersList\<close> has taken \<open>c\<close> out of its chain.\<close>

definition unlinked :: "(addr \<Rightarrow> Connection) \<Rightarrow> addr \<Rightarrow> (addr \<Rightarrow> Connection) \<Rightarrow> bool" where
  "unlinked h c h' =
     (\<forall>x. x \<noteq> c \<longrightarrow>
        prevSender (h' x) = (if nextSender (h c) = Some x then prevSender (h c) else prevSender (h x))
        \<and> nextSender (h' x) = (if prevSender (h c) = Some x then nextSender (h c) else nextSender (h x)))"

text \<open>Two states with the same receiver side.\<close>

definition receiver_eq :: "state \<Rightarrow> state \<Rightarrow> bool" where
  "receiver_eq st st' =
     (receiverMap st' = receiverMap st \<and> nextConn st' = nextConn st
      \<and> (\<forall>c. callback (conns st' c) = callback (conns st c)
             \<and> thisArg (conns st' c) = thisArg (conns st c)
             \<and> prevSender (conns st' c) = prevSender (conns st c)
             \<and> nextSender (conns st' c) = nextSender (conns st c)))"

text \<open>
  What the loop of \<open>disconnectReceiver\<close> does to the connections \<open>K\<close> it visits: they are
  dead and unlinked from the chain; nothing else changes.
\<close>

definition detached :: "addr set \<Rightarrow> state \<Rightarrow> state \<Rightarrow> bool" where
  "detached K st st' =
     (killed K st st' \<and> receiverMap st' = receiverMap st
      \<and> (\<forall>c. (c \<in> K \<longrightarrow> prevSender (conns st' c) = None \<and> nextSender (conns st' c) = None)
             \<and> (c \<notin> K \<longrightarrow> prevSender (conns st' c) = prevSender (conns st c)
                      \<and> nextSender (conns st' c) = nextSender (conns st c))))"

text \<open>A way of running callbacks that keeps the receiver side well formed.\<close>

definition preserves_receivers :: "callfn \<Rightarrow> bool" where
  "preserves_receivers call =
     (\<forall>cb t s a st out ev st'.
        wf_state st \<and> wf_receivers st \<and> call cb t s a st = Some (out, ev, st') \<longrightarrow> wf_receivers st')"

text \<open>The receiver of a subscription: its context if it has one, else the callback.\<close>

definition key_receiver :: "obj \<times> jsval \<Rightarrow> obj" where
  "key_receiver k = receiver_of (snd k) (fst k)"

text \<open>Two senders with two connections each; receiver 1 has a connection on each sender.\<close>

definition teardown_script :: "action list" where
  "teardown_script =
     [Connect 7 1 11 (Obj 1), Connect 7 1 12 (Obj 2), Connect 8 1 11 (Obj 1), Connect 8 1 13 Undefined]"

definition two_senders :: state where
  "two_senders =
     (case exec_all (run_callback 0 idle) teardown_script init of
        None \<Rightarrow> init
      | Some (out, evs, st) \<Rightarrow> st)"

text \<open>The registry \<open>two_senders\<close> after the connection of callback 12 on sender 7 is broken.\<close>

definition one_disconnected :: state where
  "one_disconnected = clear_conn 1 (removeFromSendersList 1 two_senders)"

section \<open>Store updates\<close>

lemma upd_conn_simps [simp]:
  "conns (upd_conn c f st) = (conns st)(c := f (conns st c))"
  "lists (upd_conn c f st) = lists st"
  "senderMap (upd_conn c f st) = senderMap st"
  "receiverMap (upd_conn c f st) = receiverMap st"
  "nextConn (upd_conn c f st) = nextConn st"
  "nextList (upd_conn c f st) = nextList st"
  by (simp_all add: upd_conn_def)

lemma upd_list_simps [simp]:
  "conns (upd_list l f st) = conns st"
  "lists (upd_list l f st) = (lists st)(l := f (lists st l))"
  "senderMap (upd_list l f st) = senderMap st"
  "receiverMap (upd_list l f st) = receiverMap st"
  "nextConn (upd_list l f st) = nextConn st"
  "nextList (upd_list l f st) = nextList st"
  by (simp_all add: upd_list_def)

section \<open>Chains\<close>

lemma chain_None [simp]: "chain h None xs = (xs = [])"
  by (cases xs) auto

lemma chain_Some: "chain h (Some c) xs = (\<exists>ys. xs = c # ys \<and> chain h (nextReceiver (h c)) ys)"
  by (cases xs) auto

lemma chain_unique: "chain h p xs \<Longrightarrow> chain h p ys \<Longrightarrow> xs = ys"
  by (induction xs arbitrary: p ys) (auto simp: chain_Some)

lemma chain_cong:
  "(\<And>c. c \<in> set xs \<Longrightarrow> nextReceiver (h' c) = nextReceiver (h c)) \<Longrightarrow> chain h' p xs = chain h p xs"
  by (induction xs arbitrary: p) auto

lemma chain_drop: "chain h p (as @ c # bs) \<Longrightarrow> chain h (nextReceiver (h c)) bs"
  by (induction as arbitrary: p) auto

lemma chain_suffix_notin:
  "chain h (nextReceiver (h c)) xs \<Longrightarrow> c \<notin> set xs"
proof (induction xs arbitrary: c rule: length_induct)
  case (1 xs)
  show ?case
  proof
    assume "c \<in> set xs"
    then obtain as bs where xs: "xs = as @ c # bs" by (auto simp: in_set_conv_decomp)
    with 1(2) have *: "chain h (nextReceiver (h c)) bs" by (auto dest: chain_drop)
    moreover have "length bs < length xs" using xs by simp
    ultimately have "c \<notin> set bs" using 1(1) by blast
    moreover have "bs = xs" using * 1(2) by (rule chain_unique)
    ultimately show False using \<open>c \<in> set xs\<close> by simp
  qed
qed

lemma chain_distinct: "chain h p xs \<Longrightarrow> distinct xs"
  by (induction xs arbitrary: p) (auto dest: chain_suffix_notin)

text \<open>The link out of each connection of a chain.\<close>

lemma chain_next:
  "chain h p (as @ c # bs) \<Longrightarrow> nextReceiver (h c) = (case bs of [] \<Rightarrow> None | b # _ \<Rightarrow> Some b)"
  by (drule chain_drop) (auto split: list.splits)

lemma chain_hd: "chain h p xs \<Longrightarrow> p = (case xs of [] \<Rightarrow> None | x # _ \<Rightarrow> Some x)"
  by (cases xs) auto

text \<open>Appending a connection at the tail.\<close>

lemma chain_snoc:
  assumes "chain h p xs" "xs \<noteq> []" "c \<notin> set xs"
    and "\<And>x. x \<in> set (butlast xs) \<Longrightarrow> nextReceiver (h' x) = nextReceiver (h x)"
    and "nextReceiver (h' (last xs)) = Some c" "nextReceiver (h' c) = None"
  shows "chain h' p (xs @ [c])"
  using assms
proof (induction xs arbitrary: p)
  case Nil
  then show ?case by simp
next
  case (Cons x xs)
  show ?case
  proof (cases "xs = []")
    case True
    with Cons.prems show ?thesis by auto
  next
    case False
    have "x \<noteq> last xs" using Cons.prems(1) False chain_suffix_notin[of h x xs] by auto
    with Cons False show ?thesis by auto
  qed
qed

lemma walk_chain: "chain h p xs \<Longrightarrow> length xs \<le> n \<Longrightarrow> walk n h p = xs"
  by (induction n arbitrary: p xs) (auto simp: chain_Some split: option.splits)

lemma distinct_bounded_length:
  assumes "distinct xs" "\<forall>c\<in>set xs. c < (n::nat)"
  shows "length xs \<le> n"
proof -
  have "card (set xs) \<le> card {..<n}" using assms(2) by (intro card_mono) auto
  then show ?thesis using assms(1) by (simp add: distinct_card)
qed

lemma nodesI:
  "chain (conns st) (first (lists st l)) xs \<Longrightarrow> \<forall>c\<in>set xs. c < nextConn st \<Longrightarrow> nodes st l = xs"
  unfolding nodes_def
  by (rule walk_chain) (auto intro: distinct_bounded_length chain_distinct)

lemma nodes_frame:
  assumes "chain (conns st) (first (lists st l)) (nodes st l)"
    and "first (lists st' l) = first (lists st l)"
    and "\<And>c. c \<in> set (nodes st l) \<Longrightarrow> nextReceiver (conns st' c) = nextReceiver (conns st c)"
    and "\<forall>c\<in>set (nodes st l). c < nextConn st'"
  shows "nodes st' l = nodes st l"
proof (rule nodesI)
  show "chain (conns st') (first (lists st' l)) (nodes st l)"
    using assms(1,2,3) by (simp add: chain_cong[of _ "conns st'" "conns st"])
qed (rule assms(4))

section \<open>findConnection\<close>

lemma findConnection_loop_chain:
  "chain h p xs \<Longrightarrow>
   findConnection_loop h sg cb t p =
     Some (find (\<lambda>c. signal (h c) = Some sg \<and> callback (h c) = Some cb \<and> thisArg (h c) = t) xs)"
proof (induction xs arbitrary: p)
  case Nil
  then show ?case by (simp add: findConnection_loop.simps)
next
  case (Cons x xs)
  then show ?case by (subst findConnection_loop.simps) auto
qed

lemma list_ok_chain: "list_ok st l \<Longrightarrow> chain (conns st) (first (lists st l)) (nodes st l)"
  by (simp add: list_ok_def)

lemma wf_list_ok: "wf_state st \<Longrightarrow> l < nextList st \<Longrightarrow> list_ok st l"
  by (simp add: wf_state_def)

lemma wf_senderMap: "wf_state st \<Longrightarrow> senderMap st s = Some l \<Longrightarrow> l < nextList st"
  by (auto simp: wf_state_def)

lemma wf_detached: "wf_state st \<Longrightarrow> detached_dead st"
  by (simp add: wf_state_def)

lemma detached_deadD:
  "detached_dead st \<Longrightarrow> l < nextList st \<Longrightarrow> (\<And>s. senderMap st s \<noteq> Some l)
   \<Longrightarrow> c \<in> set (nodes st l) \<Longrightarrow> \<not> live st c"
  unfolding detached_dead_def by blast

lemma detached_dead_shrink:
  assumes "detached_dead st" "nextList st' = nextList st" "senderMap st' = senderMap st"
    and "\<And>l. l < nextList st \<Longrightarrow> set (nodes st' l) \<subseteq> set (nodes st l)"
    and "\<And>c. live st' c \<Longrightarrow> live st c"
  shows "detached_dead st'"
  unfolding detached_dead_def assms(2,3)
proof (intro allI impI ballI)
  fix l c assume l: "l < nextList st" and d: "\<forall>s. senderMap st s \<noteq> Some l"
    and c: "c \<in> set (nodes st' l)"
  from assms(4)[OF l] c have "c \<in> set (nodes st l)" by blast
  with assms(1) l d have "\<not> live st c" unfolding detached_dead_def by blast
  with assms(5) show "\<not> live st' c" by blast
qed

lemma findConnection_wf:
  "list_ok st l \<Longrightarrow> findConnection st l sg cb t = Some (find (\<lambda>c. subscribes st c sg cb t) (nodes st l))"
  unfolding findConnection_def subscribes_def
  by (rule findConnection_loop_chain) (rule list_ok_chain)

section \<open>States with the same sender side\<close>

lemma sender_eq_refl [simp]: "sender_eq st st"
  by (simp add: sender_eq_def)

lemma sender_eq_trans: "sender_eq st st1 \<Longrightarrow> sender_eq st1 st2 \<Longrightarrow> sender_eq st st2"
  by (simp add: sender_eq_def)

lemma sender_eq_walk:
  "(\<And>c. nextReceiver (h' c) = nextReceiver (h c)) \<Longrightarrow> walk n h' p = walk n h p"
  by (induction n arbitrary: p) (auto split: option.splits)

lemma sender_eq_nodes: "sender_eq st st' \<Longrightarrow> nodes st' l = nodes st l"
  unfolding nodes_def by (simp add: sender_eq_def sender_eq_walk[of "conns st'" "conns st"])

lemma sender_eq_live: "sender_eq st st' \<Longrightarrow> live st' c = live st c"
  by (simp add: sender_eq_def live_def)

lemma sender_eq_same_key: "sender_eq st st' \<Longrightarrow> same_key st' c c' = same_key st c c'"
  by (simp add: sender_eq_def same_key_def)

lemma sender_eq_list_ok: "sender_eq st st' \<Longrightarrow> list_ok st' l = list_ok st l"
  unfolding list_ok_def
  by (simp add: sender_eq_nodes sender_eq_live sender_eq_same_key
        chain_cong[of _ "conns st'" "conns st"])
     (simp add: sender_eq_def chain_cong[of _ "conns st'" "conns st"])

lemma sender_eq_detached: "sender_eq st st' \<Longrightarrow> detached_dead st' = detached_dead st"
  unfolding detached_dead_def
  by (simp add: sender_eq_nodes sender_eq_live) (simp add: sender_eq_def)

lemma sender_eq_wf: "sender_eq st st' \<Longrightarrow> wf_state st' = wf_state st"
  unfolding wf_state_def
  by (simp add: sender_eq_nodes sender_eq_list_ok sender_eq_detached) (simp add: sender_eq_def)

lemma evolves_refl [simp]: "evolves st st"
  by (simp add: evolves_def)

lemma evolves_trans:
  assumes "evolves st st1" "evolves st1 st2"
  shows "evolves st st2"
  unfolding evolves_def
proof (intro conjI allI impI)
  show "nextConn st \<le> nextConn st2" "nextList st \<le> nextList st2"
    using assms by (auto simp: evolves_def)
next
  fix c assume c: "c < nextConn st"
  then have c1: "c < nextConn st1" using assms(1) by (auto simp: evolves_def)
  from assms(1) c have a: "signal (conns st1 c) = signal (conns st c)
    \<and> (callback (conns st1 c) = None \<or> callback (conns st1 c) = callback (conns st c)
         \<and> thisArg (conns st1 c) = thisArg (conns st c))"
    by (simp add: evolves_def)
  from assms(2) c1 have b: "signal (conns st2 c) = signal (conns st1 c)
    \<and> (callback (conns st2 c) = None \<or> callback (conns st2 c) = callback (conns st1 c)
         \<and> thisArg (conns st2 c) = thisArg (conns st1 c))"
    by (simp add: evolves_def)
  from a b show "signal (conns st2 c) = signal (conns st c)" by simp
  from a b show "callback (conns st2 c) = None \<or> callback (conns st2 c) = callback (conns st c)
         \<and> thisArg (conns st2 c) = thisArg (conns st c)" by auto
next
  fix l assume l: "l < nextList st"
  then have l1: "l < nextList st1" using assms(1) by (auto simp: evolves_def)
  from assms(1) l have a: "refs (lists st1 l) = refs (lists st l)" by (simp add: evolves_def)
  from assms(2) l1 have b: "refs (lists st2 l) = refs (lists st1 l)" by (simp add: evolves_def)
  from a b show "refs (lists st2 l) = refs (lists st l)" by simp
  assume pos: "0 < refs (lists st l)"
  with assms(1) l obtain ys where ys: "nodes st1 l = nodes st l @ ys" "\<forall>c\<in>set ys. nextConn st \<le> c"
    by (auto simp: evolves_def)
  from pos a assms(2) l1 obtain zs where zs: "nodes st2 l = nodes st1 l @ zs" "\<forall>c\<in>set zs. nextConn st1 \<le> c"
    by (auto simp: evolves_def)
  have "nextConn st \<le> nextConn st1" using assms(1) by (simp add: evolves_def)
  with ys zs show "\<exists>ys. nodes st2 l = nodes st l @ ys \<and> (\<forall>c\<in>set ys. nextConn st \<le> c)"
    by (intro exI[of _ "ys @ zs"]) auto
qed

lemma sender_eq_evolves: "sender_eq st st' \<Longrightarrow> evolves st st'"
  by (simp add: evolves_def sender_eq_nodes) (simp add: sender_eq_def)


lemma sender_eq_upd_conn:
  assumes "\<And>r. signal (f r) = signal r \<and> callback (f r) = callback r
             \<and> thisArg (f r) = thisArg r \<and> nextReceiver (f r) = nextReceiver r"
    and "sender_eq st st1"
  shows "sender_eq st (upd_conn c f st1)"
  using assms by (simp add: sender_eq_def)

lemma sender_eq_receiverMap: "sender_eq st st1 \<Longrightarrow> sender_eq st (st1\<lparr>receiverMap := m\<rparr>)"
  by (simp add: sender_eq_def)

lemma removeFromSendersList_sender_eq: "sender_eq st (removeFromSendersList c st)"
  unfolding removeFromSendersList_def Let_def
  by (auto split: option.splits intro!: sender_eq_upd_conn sender_eq_receiverMap)

lemma add_to_senders_list_sender_eq: "sender_eq st (add_to_senders_list r c st)"
  unfolding add_to_senders_list_def Let_def
  by (auto split: option.splits intro!: sender_eq_upd_conn sender_eq_receiverMap)

section \<open>Killing a connection\<close>

lemma clear_conn_fields [simp]:
  "signal (conns (clear_conn c st) x) = signal (conns st x)"
  "nextReceiver (conns (clear_conn c st) x) = nextReceiver (conns st x)"
  "nextSender (conns (clear_conn c st) x) = nextSender (conns st x)"
  "prevSender (conns (clear_conn c st) x) = prevSender (conns st x)"
  "callback (conns (clear_conn c st) x) = (if x = c then None else callback (conns st x))"
  "thisArg (conns (clear_conn c st) x) = (if x = c then Null else thisArg (conns st x))"
  "lists (clear_conn c st) = lists st"
  "senderMap (clear_conn c st) = senderMap st"
  "receiverMap (clear_conn c st) = receiverMap st"
  "nextConn (clear_conn c st) = nextConn st"
  "nextList (clear_conn c st) = nextList st"
  by (simp_all add: clear_conn_def)

lemma clear_conn_nodes [simp]: "nodes (clear_conn c st) l = nodes st l"
  unfolding nodes_def by (simp add: sender_eq_walk[of "conns (clear_conn c st)" "conns st"])

lemma clear_conn_list_ok:
  assumes "list_ok st l"
  shows "list_ok (clear_conn c st) l"
proof -
  have u: "\<forall>x\<in>set (nodes st l). \<forall>x'\<in>set (nodes st l). live st x \<and> same_key st x x' \<longrightarrow> x = x'"
    using assms by (simp add: list_ok_def)
  have "x = x'" if "x \<in> set (nodes st l)" "x' \<in> set (nodes st l)"
    "live (clear_conn c st) x" "same_key (clear_conn c st) x x'" for x x'
  proof -
    from that(3) have "x \<noteq> c" "live st x" by (auto simp: live_def split: if_splits)
    moreover from that(3,4) \<open>x \<noteq> c\<close> have "x' \<noteq> c" by (auto simp: live_def same_key_def split: if_splits)
    moreover from that(4) \<open>x \<noteq> c\<close> \<open>x' \<noteq> c\<close> have "same_key st x x'" by (simp add: same_key_def)
    ultimately show ?thesis using u that(1,2) by blast
  qed
  moreover have "chain (conns (clear_conn c st)) (first (lists st l)) (nodes st l)"
    using assms by (simp add: list_ok_def chain_cong[of _ "conns (clear_conn c st)" "conns st"])
  ultimately show ?thesis using assms unfolding list_ok_def by simp
qed

lemma clear_conn_detached: "detached_dead st \<Longrightarrow> detached_dead (clear_conn c st)"
  by (rule detached_dead_shrink) (auto simp: live_def split: if_splits)

lemma clear_conn_wf: "wf_state st \<Longrightarrow> wf_state (clear_conn c st)"
  unfolding wf_state_def by (simp add: clear_conn_list_ok clear_conn_detached)

lemma clear_conn_evolves: "evolves st (clear_conn c st)"
  unfolding evolves_def by simp

section \<open>disconnect\<close>

lemma disconnect_wf:
  assumes "wf_state st" "disconnect s g cb t st = Some (b, st')"
  shows "wf_state st' \<and> evolves st st'"
proof (cases b)
  case False
  with assms(2) have "st' = st"
    by (auto simp: disconnect_def Let_def split: option.splits)
  with assms(1) show ?thesis by simp
next
  case True
  with assms(2) obtain c where st': "st' = clear_conn c (removeFromSendersList c st)"
    by (auto simp: disconnect_def Let_def split: option.splits)
  have "wf_state (removeFromSendersList c st)"
    using assms(1) by (simp add: sender_eq_wf[OF removeFromSendersList_sender_eq])
  moreover have "evolves st (removeFromSendersList c st)"
    by (rule sender_eq_evolves[OF removeFromSendersList_sender_eq])
  ultimately show ?thesis unfolding st'
    by (auto intro: clear_conn_wf evolves_trans clear_conn_evolves)
qed

lemma disconnect_returns:
  assumes "wf_state st"
  shows "\<exists>r. disconnect s g cb t st = Some r"
proof (cases "senderMap st s")
  case None
  then show ?thesis by (auto simp: disconnect_def)
next
  case (Some l)
  with assms have "list_ok st l" by (auto intro: wf_list_ok wf_senderMap)
  then show ?thesis using Some
    by (auto simp: disconnect_def Let_def findConnection_wf split: option.splits)
qed

section \<open>Lists untouched by an operation\<close>

lemma list_ok_frame:
  assumes ok: "list_ok st l"
    and "lists st' l = lists st l"
    and same: "\<And>x. x \<in> set (nodes st l) \<Longrightarrow> conns st' x = conns st x"
    and "nextConn st \<le> nextConn st'"
  shows "nodes st' l = nodes st l" "list_ok st' l"
proof -
  have bound: "\<forall>c\<in>set (nodes st l). c < nextConn st'"
    using ok assms(4) by (fastforce simp: list_ok_def)
  show n: "nodes st' l = nodes st l"
    using ok assms(2) same bound by (intro nodes_frame) (simp_all add: list_ok_def)
  have "chain (conns st') (first (lists st' l)) (nodes st l)"
    using ok assms(2) same
    by (simp add: list_ok_def chain_cong[of "nodes st l" "conns st'" "conns st"])
  moreover have "live st' x = live st x" "same_key st' x x' = same_key st x x'"
    if "x \<in> set (nodes st l)" "x' \<in> set (nodes st l)" for x x'
    using that same by (simp_all add: live_def same_key_def)
  ultimately show "list_ok st' l"
    using ok assms(2) bound unfolding list_ok_def n by simp
qed

lemma last_of_eq_None [simp]: "(last_of xs = None) = (xs = [])"
  by (simp add: last_of_def)

lemma last_of_eq_Some: "(last_of xs = Some c) = (xs \<noteq> [] \<and> last xs = c)"
  by (simp add: last_of_def)

lemma last_of_snoc [simp]: "last_of (xs @ [c]) = Some c"
  by (simp add: last_of_def)


section \<open>connect\<close>

lemma create_connection_fields [simp]:
  "conns (create_connection sg cb t st) x =
     (if x = nextConn st then new_Connection\<lparr>signal := Some sg, callback := Some cb, thisArg := t\<rparr>
      else conns st x)"
  "lists (create_connection sg cb t st) = lists st"
  "senderMap (create_connection sg cb t st) = senderMap st"
  "receiverMap (create_connection sg cb t st) = receiverMap st"
  "nextConn (create_connection sg cb t st) = Suc (nextConn st)"
  "nextList (create_connection sg cb t st) = nextList st"
  by (simp_all add: create_connection_def)

lemma wf_nodes_bound: "wf_state st \<Longrightarrow> l < nextList st \<Longrightarrow> x \<in> set (nodes st l) \<Longrightarrow> x < nextConn st"
  by (auto simp: wf_state_def list_ok_def)

lemma wf_disjoint:
  "wf_state st \<Longrightarrow> l < nextList st \<Longrightarrow> l' < nextList st \<Longrightarrow> l \<noteq> l'
   \<Longrightarrow> x \<in> set (nodes st l) \<Longrightarrow> x \<notin> set (nodes st l')"
  by (auto simp: wf_state_def)

lemma create_connection_frame:
  assumes "wf_state st" "l < nextList st"
  shows "nodes (create_connection sg cb t st) l = nodes st l"
    and "list_ok (create_connection sg cb t st) l"
proof -
  have ok: "list_ok st l" using assms by (rule wf_list_ok)
  have same: "conns (create_connection sg cb t st) x = conns st x" if "x \<in> set (nodes st l)" for x
    using wf_nodes_bound[OF assms that] by simp
  show "nodes (create_connection sg cb t st) l = nodes st l"
    by (rule list_ok_frame(1)[OF ok _ same]) simp_all
  show "list_ok (create_connection sg cb t st) l"
    by (rule list_ok_frame(2)[OF ok _ same]) simp_all
qed

lemma same_key_sym: "same_key st x y = same_key st y x"
  by (auto simp: same_key_def)

lemma same_key_subscribes: "subscribes st c g cb t \<Longrightarrow> same_key st x c = subscribes st x g cb t"
  by (auto simp: same_key_def subscribes_def)

lemma list_ok_append:
  assumes ch: "chain (conns st') (first (lists st' l)) (xs @ [c])"
    and "last' (lists st' l) = Some c" "\<forall>x\<in>set xs. x < c" "nextConn st' = Suc c"
    and "0 \<le> refs (lists st' l)"
    and u: "\<forall>x\<in>set xs. \<forall>x'\<in>set xs. live st' x \<and> same_key st' x x' \<longrightarrow> x = x'"
    and c: "subscribes st' c g cb t" "\<forall>x\<in>set xs. \<not> subscribes st' x g cb t"
  shows "nodes st' l = xs @ [c]" "list_ok st' l"
proof -
  show n: "nodes st' l = xs @ [c]"
    using ch assms(3,4) by (intro nodesI) auto
  have "x = x'" if "x \<in> set (xs @ [c])" "x' \<in> set (xs @ [c])" "live st' x" "same_key st' x x'" for x x'
  proof (cases "x = c")
    case True
    show ?thesis
    proof (cases "x' = c")
      case False
      with that(2) have "x' \<in> set xs" by simp
      moreover have "subscribes st' x' g cb t"
        using that(4) True same_key_subscribes[OF c(1), of x'] by (simp add: same_key_sym)
      ultimately show ?thesis using c(2) by blast
    qed (simp add: True)
  next
    case False
    with that(1) have x: "x \<in> set xs" by simp
    show ?thesis
    proof (cases "x' = c")
      case True
      with that(4) have "subscribes st' x g cb t" using same_key_subscribes[OF c(1), of x] by simp
      with x c(2) show ?thesis by blast
    next
      case False
      with that(2) have "x' \<in> set xs" by simp
      with x that(3,4) u show ?thesis by blast
    qed
  qed
  then show "list_ok st' l"
    unfolding list_ok_def n using ch assms(2,3,4,5) by (auto simp: less_Suc_eq)
qed

lemma appended_detached:
  assumes wf: "wf_state st" and a: "appended st s g cb t l st'"
  shows "detached_dead st'"
  unfolding detached_dead_def
proof (intro allI impI ballI)
  let ?c = "nextConn st"
  fix k c assume k: "k < nextList st'" and d: "\<forall>s'. senderMap st' s' \<noteq> Some k"
    and c: "c \<in> set (nodes st' k)"
  from a have sm: "senderMap st' = (senderMap st)(s \<mapsto> l)"
    and others: "\<And>l'. l' < nextList st \<Longrightarrow> l' \<noteq> l \<Longrightarrow> nodes st' l' = nodes st l'"
    and fields: "\<And>x. x \<noteq> ?c \<Longrightarrow> callback (conns st' x) = callback (conns st x)"
    by (simp_all add: appended_def Let_def)
  from a have nl: "nextList st' = nextList st \<or> (nextList st' = Suc l \<and> l = nextList st)"
    by (auto simp: appended_def Let_def split: option.splits)
  from a have sl: "senderMap st s = None \<or> senderMap st s = Some l"
    by (auto simp: appended_def Let_def split: option.splits)
  have kl: "k \<noteq> l" using d[rule_format, of s] sm by simp
  with k nl have k0: "k < nextList st" by auto
  have det: "senderMap st s' \<noteq> Some k" for s'
    using d sm sl kl by (cases "s' = s") (auto split: if_splits)
  have c0: "c \<in> set (nodes st k)" using c others[OF k0 kl] by simp
  then have "\<not> live st c" using detached_deadD[OF wf_detached[OF wf] k0 det] by blast
  moreover have "c \<noteq> ?c" using wf_list_ok[OF wf k0] c0 by (auto simp: list_ok_def)
  ultimately show "\<not> live st' c" using fields by (simp add: live_def)
qed

lemma new_list_effect:
  fixes st :: state and s g cb :: nat and t :: jsval
  assumes wf: "wf_state st" and none: "senderMap st s = None"
  defines "st2 \<equiv> add_to_receivers_list s None (nextConn st) (create_connection g cb t st)"
  shows "wf_state st2" "appended st s g cb t (nextList st) st2"
proof -
  let ?c = "nextConn st" and ?l = "nextList st"
  have st2: "st2 = (create_connection g cb t st)\<lparr>lists := (lists st)(?l := new_ConnectionList\<lparr>first := Some ?c, last' := Some ?c\<rparr>),
                nextList := Suc ?l, senderMap := (senderMap st)(s \<mapsto> ?l)\<rparr>"
    by (simp add: st2_def add_to_receivers_list_def Let_def)
  have sub: "subscribes st2 ?c g cb t"
    by (simp add: st2 subscribes_def)
  have ch: "chain (conns st2) (first (lists st2 ?l)) ([] @ [?c])"
    by (simp add: st2 new_Connection_def new_ConnectionList_def)
  have new: "nodes st2 ?l = [] @ [?c]" "list_ok st2 ?l"
    by (rule list_ok_append[OF ch _ _ _ _ _ sub]; simp add: st2 new_ConnectionList_def)+
  have old: "nodes st2 l' = nodes st l'" "list_ok st2 l'" if "l' < ?l" for l'
  proof -
    have ok: "list_ok st l'" using wf that by (rule wf_list_ok)
    have same: "conns st2 x = conns st x" if "x \<in> set (nodes st l')" for x
      using wf_nodes_bound[OF wf \<open>l' < ?l\<close> that] by (simp add: st2)
    show "nodes st2 l' = nodes st l'"
      by (rule list_ok_frame(1)[OF ok _ same]) (use that in \<open>simp_all add: st2\<close>)
    show "list_ok st2 l'"
      by (rule list_ok_frame(2)[OF ok _ same]) (use that in \<open>simp_all add: st2\<close>)
  qed
  have nl: "nextList st2 = Suc ?l" by (simp add: st2)
  have sm: "senderMap st2 = (senderMap st)(s \<mapsto> ?l)" by (simp add: st2)
  have app: "appended st s g cb t ?l st2"
    unfolding appended_def Let_def
    using none new(1) old(1) sub sm nl
    by (simp add: st2 new_ConnectionList_def)
  show "wf_state st2"
    unfolding wf_state_def nl sm
  proof (intro conjI allI impI)
    show "detached_dead st2" by (rule appended_detached[OF wf app])
  next
    fix l assume "l < Suc ?l"
    then show "list_ok st2 l" using new(2) old(2) by (cases "l = ?l") auto
  next
    fix l l' assume "l < Suc ?l" "l' < Suc ?l" "l \<noteq> l'"
    moreover have "?c \<notin> set (nodes st k)" if "k < ?l" for k
      using wf_nodes_bound[OF wf that, of ?c] by auto
    ultimately show "set (nodes st2 l) \<inter> set (nodes st2 l') = {}"
      using new(1) old(1) wf_disjoint[OF wf, of l l']
      by (cases "l = ?l"; cases "l' = ?l") (auto simp: less_Suc_eq)
  next
    fix s' l assume "((senderMap st)(s \<mapsto> ?l)) s' = Some l"
    then show "l < Suc ?l" using wf_senderMap[OF wf, of s' l] by (auto split: if_splits)
  next
    fix s1 s2 l assume "((senderMap st)(s \<mapsto> ?l)) s1 = Some l \<and> ((senderMap st)(s \<mapsto> ?l)) s2 = Some l"
    then show "s1 = s2"
      using wf wf_senderMap[OF wf, of s1 ?l] wf_senderMap[OF wf, of s2 ?l]
      by (auto simp: wf_state_def split: if_splits)
  qed
  show "appended st s g cb t ?l st2" by (rule app)
qed

lemma old_list_effect:
  fixes st :: state and s g cb :: nat and t :: jsval
  assumes wf: "wf_state st" and some: "senderMap st s = Some l"
    and nf: "\<forall>x\<in>set (nodes st l). \<not> subscribes st x g cb t"
  defines "st2 \<equiv> add_to_receivers_list s (Some l) (nextConn st) (create_connection g cb t st)"
  shows "wf_state st2" "appended st s g cb t l st2"
proof -
  let ?c = "nextConn st" and ?xs = "nodes st l"
  have l: "l < nextList st" using wf some by (rule wf_senderMap)
  have ok: "list_ok st l" using wf l by (rule wf_list_ok)
  have bound: "\<forall>x\<in>set ?xs. x < ?c" using ok by (simp add: list_ok_def)
  then have cnotin: "?c \<notin> set ?xs" by auto
  have ch0: "chain (conns st) (first (lists st l)) ?xs" using ok by (simp add: list_ok_def)
  have facts: "chain (conns st2) (first (lists st2 l)) (?xs @ [?c])
      \<and> last' (lists st2 l) = Some ?c \<and> refs (lists st2 l) = refs (lists st l)
      \<and> (\<forall>l'. l' \<noteq> l \<longrightarrow> lists st2 l' = lists st l')
      \<and> nextList st2 = nextList st \<and> senderMap st2 = senderMap st \<and> nextConn st2 = Suc ?c
      \<and> (\<forall>x. x \<noteq> ?c \<longrightarrow> signal (conns st2 x) = signal (conns st x)
             \<and> callback (conns st2 x) = callback (conns st x)
             \<and> thisArg (conns st2 x) = thisArg (conns st x))
      \<and> (\<forall>x. x \<noteq> ?c \<and> x \<notin> set ?xs \<longrightarrow> conns st2 x = conns st x)
      \<and> subscribes st2 ?c g cb t"
  proof (cases "last' (lists st l)")
    case None
    then have e: "?xs = []" using ok by (auto simp: list_ok_def last_of_def split: if_splits)
    with ch0 have "first (lists st l) = None" by simp
    then show ?thesis using None e
      by (simp add: st2_def add_to_receivers_list_def subscribes_def new_Connection_def)
  next
    case (Some tail)
    then have ne: "?xs \<noteq> []" and tl: "last ?xs = tail"
      using ok by (auto simp: list_ok_def last_of_def split: if_splits)
    have tlin: "tail \<in> set ?xs" using ne tl by auto
    then have tlc: "tail \<noteq> ?c" using cnotin by auto
    have st2: "st2 = upd_list l (\<lambda>r. r\<lparr>last' := Some ?c\<rparr>)
                 (upd_conn tail (\<lambda>r. r\<lparr>nextReceiver := Some ?c\<rparr>) (create_connection g cb t st))"
      using Some by (simp add: st2_def add_to_receivers_list_def)
    have "chain (conns st2) (first (lists st l)) (?xs @ [?c])"
    proof (rule chain_snoc[OF ch0 ne cnotin])
      fix x assume "x \<in> set (butlast ?xs)"
      then have "x \<noteq> tail" "x \<noteq> ?c"
        using chain_distinct[OF ch0] ne tl cnotin
        by (metis append_butlast_last_id distinct_butlast not_distinct_conv_prefix,
            meson in_set_butlastD)
      then show "nextReceiver (conns st2 x) = nextReceiver (conns st x)" by (simp add: st2)
    qed (use tlc in \<open>auto simp: st2 tl new_Connection_def\<close>)
    then show ?thesis using tlin tlc
      by (auto simp: st2 subscribes_def)
  qed
  from facts have f_chain: "chain (conns st2) (first (lists st2 l)) (?xs @ [?c])" by blast
  from facts have f_last: "last' (lists st2 l) = Some ?c" by blast
  from facts have f_refs: "refs (lists st2 l) = refs (lists st l)" by blast
  from facts have f_lists: "\<And>l'. l' \<noteq> l \<Longrightarrow> lists st2 l' = lists st l'" by blast
  from facts have f_nl: "nextList st2 = nextList st" by blast
  from facts have f_sm: "senderMap st2 = senderMap st" by blast
  from facts have f_nc: "nextConn st2 = Suc ?c" by blast
  from facts have f_fields: "\<And>x. x \<noteq> ?c \<Longrightarrow> signal (conns st2 x) = signal (conns st x)
             \<and> callback (conns st2 x) = callback (conns st x)
             \<and> thisArg (conns st2 x) = thisArg (conns st x)" by blast
  from facts have f_frame: "\<And>x. x \<noteq> ?c \<Longrightarrow> x \<notin> set ?xs \<Longrightarrow> conns st2 x = conns st x" by blast
  from facts have f_sub: "subscribes st2 ?c g cb t" by blast
  have live_eq: "live st2 x = live st x" "same_key st2 x x' = same_key st x x'"
    "subscribes st2 x g cb t = subscribes st x g cb t"
    if "x \<in> set ?xs" "x' \<in> set ?xs" for x x'
  proof -
    have "x \<noteq> ?c" "x' \<noteq> ?c" using that cnotin by auto
    then show "live st2 x = live st x" "same_key st2 x x' = same_key st x x'"
      "subscribes st2 x g cb t = subscribes st x g cb t"
      using f_fields[of x] f_fields[of x']
      by (simp_all add: live_def same_key_def subscribes_def)
  qed
  have new: "nodes st2 l = ?xs @ [?c]" "list_ok st2 l"
  proof -
    have u: "\<forall>x\<in>set ?xs. \<forall>x'\<in>set ?xs. live st2 x \<and> same_key st2 x x' \<longrightarrow> x = x'"
      using ok live_eq unfolding list_ok_def by blast
    have r: "0 \<le> refs (lists st2 l)" using ok f_refs by (simp add: list_ok_def)
    have n: "\<forall>x\<in>set ?xs. \<not> subscribes st2 x g cb t" using nf live_eq(3) by blast
    show "nodes st2 l = ?xs @ [?c]"
      by (rule list_ok_append(1)[OF f_chain f_last bound f_nc r u f_sub n])
    show "list_ok st2 l"
      by (rule list_ok_append(2)[OF f_chain f_last bound f_nc r u f_sub n])
  qed
  have old: "nodes st2 l' = nodes st l'" "list_ok st2 l'" if "l' < nextList st" "l' \<noteq> l" for l'
  proof -
    have ok': "list_ok st l'" using wf that(1) by (rule wf_list_ok)
    have same: "conns st2 x = conns st x" if "x \<in> set (nodes st l')" for x
    proof (rule f_frame)
      show "x \<noteq> ?c" using wf_nodes_bound[OF wf \<open>l' < nextList st\<close> that] by simp
      show "x \<notin> set ?xs" using wf_disjoint[OF wf \<open>l' < nextList st\<close> l \<open>l' \<noteq> l\<close> that] .
    qed
    show "nodes st2 l' = nodes st l'"
      by (rule list_ok_frame(1)[OF ok' _ same]) (simp_all add: f_lists that f_nc)
    show "list_ok st2 l'"
      by (rule list_ok_frame(2)[OF ok' _ same]) (simp_all add: f_lists that f_nc)
  qed
  have "(senderMap st)(s \<mapsto> l) = senderMap st" using some by auto
  then have app: "appended st s g cb t l st2"
    unfolding appended_def Let_def
    using some new(1) old(1) f_nc f_sm f_nl f_refs f_lists f_fields f_sub by simp
  show "wf_state st2"
    unfolding wf_state_def f_nl f_sm
  proof (intro conjI allI impI)
    show "detached_dead st2" by (rule appended_detached[OF wf app])
  next
    fix k assume "k < nextList st"
    then show "list_ok st2 k" using new(2) old(2) by (cases "k = l") auto
  next
    fix k k' assume k: "k < nextList st" "k' < nextList st" "k \<noteq> k'"
    have cn: "?c \<notin> set (nodes st j)" if "j < nextList st" for j
      using wf_nodes_bound[OF wf that, of ?c] by auto
    have dj: "set (nodes st k) \<inter> set (nodes st k') = {}"
      using wf k by (simp add: wf_state_def)
    show "set (nodes st2 k) \<inter> set (nodes st2 k') = {}"
    proof (cases "k = l")
      case True
      then have "k' \<noteq> l" using k by simp
      then show ?thesis using True new(1) old(1)[OF k(2)] dj cn[OF k(2)] by simp
    next
      case False
      show ?thesis
      proof (cases "k' = l")
        case True
        then show ?thesis using False new(1) old(1)[OF k(1) False] dj cn[OF k(1)] by simp
      next
        case k'l: False
        then show ?thesis using old(1)[OF k(1) False] old(1)[OF k(2) k'l] dj by simp
      qed
    qed
  qed (use wf in \<open>auto simp: wf_state_def\<close>)
  show "appended st s g cb t l st2" by (rule app)
qed

lemma appended_evolves:
  assumes "wf_state st" "appended st s g cb t l st2"
  shows "evolves st st2"
proof -
  let ?c = "nextConn st"
  from assms(2) have nc: "nextConn st2 = Suc ?c"
    and fields: "\<And>x. x \<noteq> ?c \<Longrightarrow> signal (conns st2 x) = signal (conns st x)
             \<and> callback (conns st2 x) = callback (conns st x)
             \<and> thisArg (conns st2 x) = thisArg (conns st x)"
    and others: "\<And>l'. l' < nextList st \<Longrightarrow> l' \<noteq> l \<Longrightarrow> nodes st2 l' = nodes st l' \<and> lists st2 l' = lists st l'"
    by (simp_all add: appended_def Let_def)
  from assms(2) have nl: "nextList st \<le> nextList st2"
    by (auto simp: appended_def Let_def split: option.splits)
  from assms(2) have this_list: "l < nextList st \<Longrightarrow>
      nodes st2 l = nodes st l @ [?c] \<and> refs (lists st2 l) = refs (lists st l)"
    by (auto simp: appended_def Let_def split: option.splits)
  show ?thesis
    unfolding evolves_def
  proof (intro conjI allI impI)
    fix k assume k: "k < nextList st"
    show "refs (lists st2 k) = refs (lists st k)"
      using this_list others[OF k] by (cases "k = l") (use k in auto)
    show "\<exists>ys. nodes st2 k = nodes st k @ ys \<and> (\<forall>c\<in>set ys. ?c \<le> c)"
      using this_list others[OF k] by (cases "k = l") (use k in auto)
  qed (use nc nl fields in auto)
qed

lemma find_None_iff': "(find P xs = None) = (\<forall>x\<in>set xs. \<not> P x)"
  by (induction xs) auto

lemma connect_False:
  assumes "wf_state st" "connect s g cb t0 st = Some (False, st')"
  shows "st' = st"
    and "\<exists>l c. senderMap st s = Some l \<and> findConnection st l g cb (coerce t0) = Some (Some c)"
  using assms(2)
  by (auto simp: connect_def Let_def split: option.splits)

lemma connect_True:
  assumes wf: "wf_state st" and c: "connect s g cb t0 st = Some (True, st')"
  shows "\<exists>st2 l. appended st s g cb (coerce t0) l st2 \<and> wf_state st2 \<and> sender_eq st2 st'
           \<and> receiverMap st2 = receiverMap st"
proof (cases "senderMap st s")
  case None
  with c have st': "st' = add_to_senders_list (receiver_of (coerce t0) cb) (nextConn st)
      (add_to_receivers_list s None (nextConn st) (create_connection g cb (coerce t0) st))"
    by (simp add: connect_def Let_def)
  have rm: "receiverMap (add_to_receivers_list s None (nextConn st) (create_connection g cb (coerce t0) st))
       = receiverMap st"
    by (simp add: add_to_receivers_list_def Let_def)
  show ?thesis
    unfolding st'
    using new_list_effect[OF wf None, of g cb "coerce t0"] add_to_senders_list_sender_eq rm
    by (intro exI conjI)

next
  case (Some l)
  have ok: "list_ok st l" using wf Some by (auto intro: wf_list_ok wf_senderMap)
  from c Some have nf: "\<forall>x\<in>set (nodes st l). \<not> subscribes st x g cb (coerce t0)"
    and st': "st' = add_to_senders_list (receiver_of (coerce t0) cb) (nextConn st)
      (add_to_receivers_list s (Some l) (nextConn st) (create_connection g cb (coerce t0) st))"
    by (auto simp: connect_def Let_def findConnection_wf[OF ok] find_None_iff' split: option.splits)
  have rm: "receiverMap (add_to_receivers_list s (Some l) (nextConn st) (create_connection g cb (coerce t0) st))
       = receiverMap st"
    by (simp add: add_to_receivers_list_def split: option.splits)
  show ?thesis
    unfolding st'
    using old_list_effect[OF wf Some nf] add_to_senders_list_sender_eq rm
    by (intro exI conjI)
qed

lemma connect_returns:
  assumes "wf_state st"
  shows "\<exists>r. connect s g cb t st = Some r"
proof (cases "senderMap st s")
  case None
  then show ?thesis by (auto simp: connect_def Let_def)
next
  case (Some l)
  with assms have "list_ok st l" by (auto intro: wf_list_ok wf_senderMap)
  then show ?thesis using Some
    by (auto simp: connect_def Let_def findConnection_wf split: option.splits)
qed

lemma connect_wf:
  assumes wf: "wf_state st" and c: "connect s g cb t st = Some (b, st')"
  shows "wf_state st' \<and> evolves st st'"
proof (cases b)
  case False
  with connect_False(1)[OF wf, of s g cb t st'] c have "st' = st" by simp
  with wf show ?thesis by simp
next
  case True
  with c have "connect s g cb t st = Some (True, st')" by simp
  from connect_True[OF wf this] obtain st2 l where
    "appended st s g cb (coerce t) l st2" "wf_state st2" "sender_eq st2 st'"
    by blast
  then show ?thesis
    using appended_evolves[OF wf] sender_eq_wf sender_eq_evolves evolves_trans by blast
qed


section \<open>Killing a set of connections\<close>

lemma killedD:
  assumes "killed K st st'"
  shows "lists st' = lists st" "senderMap st' = senderMap st"
    "nextConn st' = nextConn st" "nextList st' = nextList st"
    "signal (conns st' c) = signal (conns st c)"
    "nextReceiver (conns st' c) = nextReceiver (conns st c)"
    "c \<in> K \<Longrightarrow> callback (conns st' c) = None"
    "c \<in> K \<Longrightarrow> thisArg (conns st' c) = Null"
    "c \<notin> K \<Longrightarrow> callback (conns st' c) = callback (conns st c)"
    "c \<notin> K \<Longrightarrow> thisArg (conns st' c) = thisArg (conns st c)"
  using assms by (simp_all add: killed_def)

lemma sender_eq_killed: "sender_eq st st' \<Longrightarrow> killed {} st st'"
  by (simp add: sender_eq_def killed_def)

lemma clear_conn_killed: "killed {c} st (clear_conn c st)"
  by (simp add: killed_def)

lemma killed_trans:
  assumes a: "killed K st st1" and b: "killed K' st1 st2"
  shows "killed (K \<union> K') st st2"
  unfolding killed_def
proof (intro conjI allI impI)
  fix c
  show "c \<in> K \<union> K' \<Longrightarrow> callback (conns st2 c) = None"
    using killedD(7,9)[OF a, of c] killedD(7,9)[OF b, of c] by (cases "c \<in> K'") auto
  show "c \<in> K \<union> K' \<Longrightarrow> thisArg (conns st2 c) = Null"
    using killedD(8,10)[OF a, of c] killedD(8,10)[OF b, of c] by (cases "c \<in> K'") auto
  show "c \<notin> K \<union> K' \<Longrightarrow> callback (conns st2 c) = callback (conns st c)"
    using killedD(9)[OF a, of c] killedD(9)[OF b, of c] by auto
  show "c \<notin> K \<union> K' \<Longrightarrow> thisArg (conns st2 c) = thisArg (conns st c)"
    using killedD(10)[OF a, of c] killedD(10)[OF b, of c] by auto
qed (simp_all add: killedD(1-6)[OF a] killedD(1-6)[OF b])

lemma killed_nodes: "killed K st st' \<Longrightarrow> nodes st' l = nodes st l"
  unfolding nodes_def by (simp add: killed_def sender_eq_walk[of "conns st'" "conns st"])

lemma killed_live: "killed K st st' \<Longrightarrow> live st' x = (live st x \<and> x \<notin> K)"
  using killedD(7,9)[of K st st' x] by (cases "x \<in> K") (auto simp: live_def)

lemma killed_list_ok:
  assumes k: "killed K st st'" and ok: "list_ok st l"
  shows "list_ok st' l"
proof -
  have u: "\<forall>x\<in>set (nodes st l). \<forall>x'\<in>set (nodes st l). live st x \<and> same_key st x x' \<longrightarrow> x = x'"
    using ok by (simp add: list_ok_def)
  have "x = x'" if "x \<in> set (nodes st l)" "x' \<in> set (nodes st l)"
    "live st' x" "same_key st' x x'" for x x'
  proof -
    from that(3) have x: "x \<notin> K" "live st x" using killed_live[OF k] by auto
    then have cbx: "callback (conns st' x) = callback (conns st x)" "callback (conns st x) \<noteq> None"
      "thisArg (conns st' x) = thisArg (conns st x)"
      using killedD(9,10)[OF k, of x] by (auto simp: live_def)
    have "x' \<notin> K"
    proof
      assume "x' \<in> K"
      then have "callback (conns st' x') = None" using killedD(7)[OF k] by auto
      with that(4) cbx show False by (simp add: same_key_def)
    qed
    then have "callback (conns st' x') = callback (conns st x')"
      "thisArg (conns st' x') = thisArg (conns st x')"
      using killedD(9,10)[OF k, of x'] by auto
    moreover have "signal (conns st' x) = signal (conns st x)" "signal (conns st' x') = signal (conns st x')"
      using killedD(5)[OF k] by auto
    ultimately have "same_key st x x'" using that(4) cbx by (simp add: same_key_def)
    with x that(1,2) u show ?thesis by blast
  qed
  moreover have "chain (conns st') (first (lists st l)) (nodes st l)"
    using ok by (simp add: list_ok_def killedD(6)[OF k] chain_cong[of "nodes st l" "conns st'" "conns st"])
  moreover have "lists st' = lists st" "nextConn st' = nextConn st" using k by (simp_all add: killed_def)
  ultimately show ?thesis using ok unfolding list_ok_def killed_nodes[OF k] by simp
qed

lemma killed_detached: "killed K st st' \<Longrightarrow> detached_dead st \<Longrightarrow> detached_dead st'"
  by (rule detached_dead_shrink) (auto simp: killed_nodes killedD(1-4) killed_live)

lemma killed_wf: "killed K st st' \<Longrightarrow> wf_state st \<Longrightarrow> wf_state st'"
  unfolding wf_state_def
  by (simp add: killed_nodes killedD(1-4) killed_list_ok killed_detached)

lemma killed_evolves:
  assumes "killed K st st'"
  shows "evolves st st'"
  unfolding evolves_def
proof (intro conjI allI impI)
  fix c
  show "callback (conns st' c) = None \<or> callback (conns st' c) = callback (conns st c)
         \<and> thisArg (conns st' c) = thisArg (conns st c)"
    using killedD(7,9,10)[OF assms, of c] by (cases "c \<in> K") auto
qed (simp_all add: killed_nodes[OF assms] killedD(1-5)[OF assms])

lemma killed_upd_conn:
  assumes "\<And>r. signal (f r) = signal r \<and> callback (f r) = callback r
             \<and> thisArg (f r) = thisArg r \<and> nextReceiver (f r) = nextReceiver r"
    and "killed K st st1"
  shows "killed K st (upd_conn c f st1)"
  using assms unfolding killed_def by simp

lemma disconnect_killed:
  assumes "disconnect s g cb t st = Some (True, st')"
  shows "\<exists>l c. senderMap st s = Some l \<and> findConnection st l g cb (coerce t) = Some (Some c)
           \<and> killed {c} st st' \<and> st' = clear_conn c (removeFromSendersList c st)"
proof -
  from assms obtain l c where l: "senderMap st s = Some l"
    and c: "findConnection st l g cb (coerce t) = Some (Some c)"
    and st': "st' = clear_conn c (removeFromSendersList c st)"
    by (auto simp: disconnect_def Let_def split: option.splits)
  have "killed ({} \<union> {c}) st st'"
    unfolding st'
    by (rule killed_trans[OF sender_eq_killed[OF removeFromSendersList_sender_eq] clear_conn_killed])
  with l c st' show ?thesis by simp
qed

section \<open>disconnectSender\<close>

lemma disconnectSender_loop_chain:
  "chain (conns st) p xs \<Longrightarrow> \<exists>st'. disconnectSender_loop p st = Some st' \<and> killed (set xs) st st'"
proof (induction xs arbitrary: st p)
  case Nil
  then show ?case
    by (simp add: disconnectSender_loop.simps sender_eq_killed)
next
  case (Cons x xs)
  let ?st1 = "clear_conn x (removeFromSendersList x st)"
  have k1: "killed ({} \<union> {x}) st ?st1"
    by (rule killed_trans[OF sender_eq_killed[OF removeFromSendersList_sender_eq] clear_conn_killed])
  from Cons.prems have p: "p = Some x" and ch: "chain (conns st) (nextReceiver (conns st x)) xs"
    by simp_all
  have nx: "nextReceiver (conns ?st1 x) = nextReceiver (conns st x)"
    using killedD(6)[OF k1] .
  have "chain (conns ?st1) (nextReceiver (conns ?st1 x)) xs"
    unfolding nx using ch killedD(6)[OF k1]
    by (simp add: chain_cong[of xs "conns ?st1" "conns st"])
  from Cons.IH[OF this] obtain st' where
    l: "disconnectSender_loop (nextReceiver (conns ?st1 x)) ?st1 = Some st'"
    and k2: "killed (set xs) ?st1 st'" by blast
  have "disconnectSender_loop p st = Some st'"
    unfolding p by (subst disconnectSender_loop.simps) (use l in \<open>simp add: Let_def\<close>)
  moreover have "killed (set (x # xs)) st st'"
    using killed_trans[OF k1 k2] by simp
  ultimately show ?case by blast
qed

lemma senderMap_update_nodes [simp]: "nodes (st\<lparr>senderMap := m\<rparr>) l = nodes st l"
  by (simp add: nodes_def)

lemma senderMap_update_list_ok [simp]: "list_ok (st\<lparr>senderMap := m\<rparr>) l = list_ok st l"
  by (simp add: list_ok_def live_def same_key_def)

lemma senderMap_update_live [simp]: "live (st\<lparr>senderMap := m\<rparr>) = live st"
  by (simp add: live_def fun_eq_iff)

lemma detached_senderMap_delete:
  assumes wf: "wf_state st" and dead: "\<And>l c. senderMap st s = Some l \<Longrightarrow> c \<in> set (nodes st l) \<Longrightarrow> \<not> live st c"
  shows "detached_dead (st\<lparr>senderMap := (senderMap st)(s := None)\<rparr>)"
  unfolding detached_dead_def
proof (intro allI impI ballI)
  fix l c
  assume l: "l < nextList (st\<lparr>senderMap := (senderMap st)(s := None)\<rparr>)"
    and d: "\<forall>s'. senderMap (st\<lparr>senderMap := (senderMap st)(s := None)\<rparr>) s' \<noteq> Some l"
    and c: "c \<in> set (nodes (st\<lparr>senderMap := (senderMap st)(s := None)\<rparr>) l)"
  from c have c': "c \<in> set (nodes st l)" by simp
  have "\<not> live st c"
  proof (cases "senderMap st s = Some l")
    case True
    then show ?thesis using dead c' by blast
  next
    case False
    have "senderMap st s' \<noteq> Some l" for s'
      using d False by (cases "s' = s") (auto split: if_splits)
    with wf_detached[OF wf] l c' show ?thesis by (auto dest: detached_deadD)
  qed
  then show "\<not> live (st\<lparr>senderMap := (senderMap st)(s := None)\<rparr>) c" by simp
qed

lemma wf_senderMap_delete:
  assumes wf: "wf_state st" and dead: "\<And>l c. senderMap st s = Some l \<Longrightarrow> c \<in> set (nodes st l) \<Longrightarrow> \<not> live st c"
  shows "wf_state (st\<lparr>senderMap := (senderMap st)(s := None)\<rparr>)"
proof -
  have "wf_state st \<Longrightarrow> detached_dead (st\<lparr>senderMap := (senderMap st)(s := None)\<rparr>)
      \<Longrightarrow> wf_state (st\<lparr>senderMap := (senderMap st)(s := None)\<rparr>)"
    unfolding wf_state_def by (auto split: if_splits)
  moreover have "detached_dead (st\<lparr>senderMap := (senderMap st)(s := None)\<rparr>)"
    by (rule detached_senderMap_delete[OF wf]) (rule dead)
  ultimately show ?thesis using wf by blast
qed

lemma evolves_senderMap: "evolves st st' \<Longrightarrow> evolves st (st'\<lparr>senderMap := m\<rparr>)"
  by (simp add: evolves_def)

lemma disconnectSender_effect:
  assumes wf: "wf_state st"
  shows "\<exists>st1 K. disconnectSender s st = Some (st1\<lparr>senderMap := (senderMap st)(s := None)\<rparr>)
           \<and> killed K st st1
           \<and> K = (case senderMap st s of None \<Rightarrow> {} | Some l \<Rightarrow> set (nodes st l))"
proof (cases "senderMap st s")
  case None
  then have "(senderMap st)(s := None) = senderMap st" by auto
  then have "st\<lparr>senderMap := (senderMap st)(s := None)\<rparr> = st" by simp
  then show ?thesis using None sender_eq_killed[OF sender_eq_refl, of st]
    by (auto simp: disconnectSender_def intro!: exI[of _ st])
next
  case (Some l)
  with wf have "list_ok st l" by (auto intro: wf_list_ok wf_senderMap)
  from disconnectSender_loop_chain[OF list_ok_chain[OF this]] obtain st1 where
    "disconnectSender_loop (first (lists st l)) st = Some st1" "killed (set (nodes st l)) st st1"
    by blast
  then show ?thesis using Some
    by (auto simp: disconnectSender_def killedD(2) intro!: exI[of _ st1])
qed

lemma disconnectSender_wf:
  assumes wf: "wf_state st" and d: "disconnectSender s st = Some st'"
  shows "wf_state st' \<and> evolves st st'"
proof -
  from disconnectSender_effect[OF wf, of s] d obtain st1 K where
    st': "st' = st1\<lparr>senderMap := (senderMap st)(s := None)\<rparr>" and k: "killed K st st1"
    and K: "K = (case senderMap st s of None \<Rightarrow> {} | Some l \<Rightarrow> set (nodes st l))"
    by auto
  have "\<not> live st1 c" if "senderMap st1 s = Some l" "c \<in> set (nodes st1 l)" for l c
    using that K killed_live[OF k, of c] killedD(2)[OF k] killed_nodes[OF k] by simp
  then have "wf_state (st1\<lparr>senderMap := (senderMap st1)(s := None)\<rparr>)"
    using killed_wf[OF k wf] by (intro wf_senderMap_delete)
  then show ?thesis
    unfolding st' using killed_evolves[OF k] by (simp add: killedD(2)[OF k] evolves_senderMap)
qed

section \<open>disconnectReceiver\<close>

lemma disconnectReceiver_loop_killed:
  assumes "disconnectReceiver_loop p st = Some st'"
  shows "\<exists>K. killed K st st'"
  using assms
proof (induct rule: disconnectReceiver_loop.raw_induct[rotated 1, consumes 1, case_names step])
  case (step loop p st st')
  note 1 = step
  show ?case
  proof (cases p)
    case None
    with 1(2) show ?thesis using sender_eq_killed[OF sender_eq_refl, of st] by auto
  next
    case (Some c)
    let ?st1 = "upd_conn c (\<lambda>r. r\<lparr>prevSender := None, nextSender := None\<rparr>) (clear_conn c st)"
    have k1: "killed {c} st ?st1"
      by (rule killed_upd_conn[OF _ clear_conn_killed]) simp
    from 1(2) Some have "loop (nextSender (conns st c)) ?st1 = Some st'"
      by (simp add: Let_def)
    from 1(1)[OF this] obtain K where "killed K ?st1 st'" by blast
    with killed_trans[OF k1] show ?thesis by blast
  qed
qed

lemma receiverMap_update_killed: "killed K st st1 \<Longrightarrow> killed K st (st1\<lparr>receiverMap := m\<rparr>)"
  by (simp add: killed_def)

lemma disconnectReceiver_killed:
  assumes "disconnectReceiver r st = Some st'"
  shows "\<exists>K. killed K st st'"
proof (cases "receiverMap st r")
  case None
  with assms show ?thesis using sender_eq_killed[OF sender_eq_refl, of st]
    by (auto simp: disconnectReceiver_def)
next
  case (Some c)
  with assms obtain st1 where "disconnectReceiver_loop (Some c) st = Some st1"
    and st': "st' = st1\<lparr>receiverMap := (receiverMap st1)(r := None)\<rparr>"
    by (auto simp: disconnectReceiver_def split: option.splits)
  from disconnectReceiver_loop_killed[OF this(1)] obtain K where "killed K st st1" by blast
  then show ?thesis unfolding st' by (blast intro: receiverMap_update_killed)
qed

lemma disconnectReceiver_wf:
  assumes "wf_state st" "disconnectReceiver r st = Some st'"
  shows "wf_state st' \<and> evolves st st'"
  using disconnectReceiver_killed[OF assms(2)] assms(1) killed_wf killed_evolves by blast

lemma clearSignalData_wf:
  assumes "wf_state st" "clearSignalData x st = Some st'"
  shows "wf_state st' \<and> evolves st st'"
proof -
  from assms(2) obtain st1 where a: "disconnectSender x st = Some st1"
    and b: "disconnectReceiver x st1 = Some st'"
    by (auto simp: clearSignalData_def split: option.splits)
  from disconnectSender_wf[OF assms(1) a] disconnectReceiver_wf[OF _ b]
  show ?thesis by (blast intro: evolves_trans)
qed


section \<open>cleanList\<close>

lemma head_of_simps [simp]: "head_of [] = None" "head_of (x # xs) = Some x"
  by (simp_all add: head_of_def)

lemma chain_linked:
  "chain h p xs = (p = head_of xs \<and> linked h xs \<and> (xs \<noteq> [] \<longrightarrow> nextReceiver (h (last xs)) = None))"
  by (induction xs arbitrary: p) (auto simp: head_of_def split: list.splits)

lemma linked_snoc:
  "linked h (ps @ [c]) = (linked h ps \<and> (ps \<noteq> [] \<longrightarrow> nextReceiver (h (last ps)) = Some c))"
  by (induction ps) (auto split: list.splits)

lemma linked_cong:
  "(\<And>x. x \<in> set (butlast xs) \<Longrightarrow> nextReceiver (h' x) = nextReceiver (h x)) \<Longrightarrow> linked h' xs = linked h xs"
proof (induction xs)
  case Nil
  show ?case by simp
next
  case (Cons x xs)
  show ?case
  proof (cases xs)
    case Nil
    then show ?thesis by simp
  next
    case (Cons y ys)
    have "nextReceiver (h' x) = nextReceiver (h x)" using Cons.prems[of x] Cons by simp
    moreover have "linked h' xs = linked h xs"
      by (rule Cons.IH) (use Cons.prems Cons in auto)
    ultimately show ?thesis using Cons by simp
  qed
qed

lemma relinked_refl: "relinked l A st st"
  by (simp add: relinked_def)

lemma relinked_mono: "relinked l A st st' \<Longrightarrow> A \<subseteq> B \<Longrightarrow> relinked l B st st'"
  unfolding relinked_def by blast

lemma relinked_trans': "relinked l A st st1 \<Longrightarrow> relinked l A st1 st2 \<Longrightarrow> relinked l A st st2"
  unfolding relinked_def by simp

lemma relinked_trans: "relinked l A st st1 \<Longrightarrow> relinked l B st1 st2 \<Longrightarrow> A \<subseteq> C \<Longrightarrow> B \<subseteq> C \<Longrightarrow> relinked l C st st2"
  by (blast intro: relinked_trans' relinked_mono)

lemma relinked_upd_conn:
  "c \<in> A \<Longrightarrow> relinked l A st (upd_conn c (\<lambda>r. r\<lparr>nextReceiver := v\<rparr>) st)"
  by (simp add: relinked_def)

lemma relinked_upd_list:
  "(\<And>r. refs (f r) = refs r) \<Longrightarrow> relinked l A st (upd_list l f st)"
  by (simp add: relinked_def)

lemma relinked_live: "relinked l A st st' \<Longrightarrow> live st' = live st"
  by (auto simp: relinked_def live_def fun_eq_iff)

lemma chain_upd_notin:
  "c \<notin> set xs \<Longrightarrow> chain (conns (upd_conn c f st)) p xs = chain (conns st) p xs"
  by (rule chain_cong) auto

lemma linked_upd_notin:
  "c \<notin> set (butlast xs) \<Longrightarrow> linked (conns (upd_conn c f st)) xs = linked (conns st) xs"
  by (rule linked_cong) auto

lemma last_notin_butlast: "distinct ps \<Longrightarrow> ps \<noteq> [] \<Longrightarrow> last ps \<notin> set (butlast ps)"
  by (metis append_butlast_last_id distinct_butlast not_distinct_conv_prefix)

lemma chain_upd_notinI:
  "chain (conns st) p xs \<Longrightarrow> c \<notin> set xs \<Longrightarrow> chain (conns (upd_conn c f st)) p xs"
  by (simp only: chain_upd_notin simp_thms)

lemma linked_upd_notinI:
  "linked (conns st) xs \<Longrightarrow> c \<notin> set (butlast xs) \<Longrightarrow> linked (conns (upd_conn c f st)) xs"
  by (simp only: linked_upd_notin simp_thms)


lemma cleanList_loop_chain:
  assumes "chain (conns st) p xs" "distinct (ps @ xs)" "linked (conns st) ps"
    and "ps \<noteq> [] \<longrightarrow> first (lists st l) = head_of ps"
  shows "\<exists>st'. cleanList_loop l (last_of ps) p st = Some (last_of (ps @ filter (live st) xs), st')
           \<and> linked (conns st') (ps @ filter (live st) xs)
           \<and> (ps @ filter (live st) xs \<noteq> [] \<longrightarrow> first (lists st' l) = head_of (ps @ filter (live st) xs))
           \<and> relinked l (set ps \<union> set xs) st st'"
  using assms
proof (induction xs arbitrary: st p ps)
  case Nil
  then show ?case
    by (subst cleanList_loop.simps) (simp add: relinked_refl)
next
  case (Cons x xs)
  from Cons.prems(1) have p: "p = Some x" and ch: "chain (conns st) (nextReceiver (conns st x)) xs"
    by simp_all
  from Cons.prems(2) have xps: "x \<notin> set ps" and xxs: "x \<notin> set xs" and d: "distinct (ps @ xs)"
    and dps: "distinct ps" and psxs: "set ps \<inter> set xs = {}"
    by auto
  let ?nxt = "nextReceiver (conns st x)"
  show ?case
  proof (cases "live st x")
    case False
    let ?st1 = "upd_conn x (\<lambda>r. r\<lparr>nextReceiver := None\<rparr>) st"
    have r1: "relinked l (set ps \<union> set (x # xs)) st ?st1" by (rule relinked_upd_conn) simp
    have c1: "chain (conns ?st1) ?nxt xs"
      using ch xxs by (rule chain_upd_notinI)
    have l1: "linked (conns ?st1) ps"
    proof -
      have "x \<notin> set (butlast ps)" using xps by (auto dest: in_set_butlastD)
      with Cons.prems(3) show ?thesis by (rule linked_upd_notinI)
    qed
    have f1: "ps \<noteq> [] \<longrightarrow> first (lists ?st1 l) = head_of ps" using Cons.prems(4) by simp
    from Cons.IH[OF c1 d l1 f1] obtain st' where
      a: "cleanList_loop l (last_of ps) ?nxt ?st1 = Some (last_of (ps @ filter (live ?st1) xs), st')"
      and b: "linked (conns st') (ps @ filter (live ?st1) xs)"
      and c: "ps @ filter (live ?st1) xs \<noteq> [] \<longrightarrow> first (lists st' l) = head_of (ps @ filter (live ?st1) xs)"
      and r2: "relinked l (set ps \<union> set xs) ?st1 st'" by blast
    have lv: "live ?st1 = live st" using relinked_live[OF r1] .
    have "cleanList_loop l (last_of ps) p st = Some (last_of (ps @ filter (live st) (x # xs)), st')"
      unfolding p using False a
      by (subst cleanList_loop.simps) (simp add: Let_def lv live_def)
    moreover have "relinked l (set ps \<union> set (x # xs)) st st'"
      by (rule relinked_trans[OF r1 r2]) auto
    ultimately show ?thesis using b c False by (auto simp: lv)
  next
    case True
    then obtain cbx where cbx: "callback (conns st x) = Some cbx" by (auto simp: live_def)
    show ?thesis
    proof (cases "ps = []")
      case ps: True
      let ?st1 = "upd_list l (\<lambda>r. r\<lparr>first := Some x\<rparr>) st"
      have r1: "relinked l (set ps \<union> set (x # xs)) st ?st1" by (rule relinked_upd_list) simp
      have c1: "chain (conns ?st1) ?nxt xs" using ch by simp
      have d1: "distinct ([x] @ xs)" using xxs d by simp
      have l1: "linked (conns ?st1) [x]" by simp
      have f1: "[x] \<noteq> [] \<longrightarrow> first (lists ?st1 l) = head_of [x]" by simp
      from Cons.IH[OF c1 d1 l1 f1] obtain st' where
        a: "cleanList_loop l (last_of [x]) ?nxt ?st1 = Some (last_of ([x] @ filter (live ?st1) xs), st')"
        and b: "linked (conns st') ([x] @ filter (live ?st1) xs)"
        and c: "[x] @ filter (live ?st1) xs \<noteq> [] \<longrightarrow> first (lists st' l) = head_of ([x] @ filter (live ?st1) xs)"
        and r2: "relinked l (set [x] \<union> set xs) ?st1 st'" by blast
      have lv: "live ?st1 = live st" using relinked_live[OF r1] .
      have "cleanList_loop l (last_of ps) p st = Some (last_of (ps @ filter (live st) (x # xs)), st')"
        unfolding p using a ps
        by (subst cleanList_loop.simps) (simp add: Let_def lv cbx True last_of_def)
      moreover have "relinked l (set ps \<union> set (x # xs)) st st'"
        by (rule relinked_trans[OF r1 r2]) auto
      ultimately show ?thesis using b c True ps by (auto simp: lv)
    next
      case ps: False
      let ?pv = "last ps"
      let ?st1 = "upd_conn ?pv (\<lambda>r. r\<lparr>nextReceiver := Some x\<rparr>) st"
      have pvin: "?pv \<in> set ps" using ps by simp
      have r1: "relinked l (set ps \<union> set (x # xs)) st ?st1"
        by (rule relinked_upd_conn) (use pvin in simp)
      have pvxs: "?pv \<notin> set xs" using pvin psxs by auto
      have c1: "chain (conns ?st1) ?nxt xs"
        using ch pvxs by (rule chain_upd_notinI)
      have d1: "distinct ((ps @ [x]) @ xs)" using xxs xps d by simp
      have "linked (conns ?st1) ps"
        using Cons.prems(3) last_notin_butlast[OF dps ps] by (rule linked_upd_notinI)
      then have l1: "linked (conns ?st1) (ps @ [x])" using ps by (simp add: linked_snoc)
      have f1: "ps @ [x] \<noteq> [] \<longrightarrow> first (lists ?st1 l) = head_of (ps @ [x])"
        using Cons.prems(4) ps by (cases ps) simp_all
      from Cons.IH[OF c1 d1 l1 f1] obtain st' where
        a: "cleanList_loop l (last_of (ps @ [x])) ?nxt ?st1 = Some (last_of ((ps @ [x]) @ filter (live ?st1) xs), st')"
        and b: "linked (conns st') ((ps @ [x]) @ filter (live ?st1) xs)"
        and c: "(ps @ [x]) @ filter (live ?st1) xs \<noteq> [] \<longrightarrow> first (lists st' l) = head_of ((ps @ [x]) @ filter (live ?st1) xs)"
        and r2: "relinked l (set (ps @ [x]) \<union> set xs) ?st1 st'" by blast
      have lv: "live ?st1 = live st" using relinked_live[OF r1] .
      have "cleanList_loop l (last_of ps) p st = Some (last_of (ps @ filter (live st) (x # xs)), st')"
        unfolding p using a ps
        by (subst cleanList_loop.simps) (simp add: Let_def lv cbx True last_of_def)
      moreover have "relinked l (set ps \<union> set (x # xs)) st st'"
        by (rule relinked_trans[OF r1 r2]) auto
      ultimately show ?thesis using b c True by (auto simp: lv)
    qed
  qed
qed


lemma list_ok_frame_fields:
  assumes ok: "list_ok st l"
    and "lists st' l = lists st l"
    and same: "\<And>x. x \<in> set (nodes st l) \<Longrightarrow>
       signal (conns st' x) = signal (conns st x) \<and> callback (conns st' x) = callback (conns st x)
       \<and> thisArg (conns st' x) = thisArg (conns st x)
       \<and> nextReceiver (conns st' x) = nextReceiver (conns st x)"
    and "nextConn st \<le> nextConn st'"
  shows "nodes st' l = nodes st l" "list_ok st' l"
proof -
  have bound: "\<forall>c\<in>set (nodes st l). c < nextConn st'"
    using ok assms(4) by (fastforce simp: list_ok_def)
  show n: "nodes st' l = nodes st l"
    using ok assms(2) same bound by (intro nodes_frame) (simp_all add: list_ok_def)
  have "chain (conns st') (first (lists st' l)) (nodes st l)"
    using ok assms(2) same
    by (simp add: list_ok_def chain_cong[of "nodes st l" "conns st'" "conns st"])
  moreover have "live st' x = live st x" "same_key st' x x' = same_key st x x'"
    if "x \<in> set (nodes st l)" "x' \<in> set (nodes st l)" for x x'
    using same[OF that(1)] same[OF that(2)] by (simp_all add: live_def same_key_def)
  ultimately show "list_ok st' l"
    using ok assms(2) bound unfolding list_ok_def n by simp
qed

lemma relinkedD:
  assumes "relinked l A st st'"
  shows "senderMap st' = senderMap st" "receiverMap st' = receiverMap st"
    "nextConn st' = nextConn st" "nextList st' = nextList st"
    "k \<noteq> l \<Longrightarrow> lists st' k = lists st k"
    "refs (lists st' l) = refs (lists st l)"
    "signal (conns st' x) = signal (conns st x)"
    "callback (conns st' x) = callback (conns st x)"
    "thisArg (conns st' x) = thisArg (conns st x)"
    "prevSender (conns st' x) = prevSender (conns st x)"
    "nextSender (conns st' x) = nextSender (conns st x)"
    "x \<notin> A \<Longrightarrow> nextReceiver (conns st' x) = nextReceiver (conns st x)"
  using assms by (simp_all add: relinked_def)

lemma relinked_same_key: "relinked l A st st' \<Longrightarrow> same_key st' x y = same_key st x y"
  by (simp add: same_key_def relinkedD(7-9))

text \<open>The effect of \<open>cleanList\<close>: the dead connections leave the list, the live ones keep their order.\<close>

lemma cleanList_effect:
  assumes wf: "wf_state st" and l: "l < nextList st"
  shows "\<exists>st'. cleanList l st = Some st' \<and> relinked l (set (nodes st l)) st st'
           \<and> nodes st' l = filter (live st) (nodes st l) \<and> list_ok st' l"
proof -
  let ?xs = "nodes st l" and ?ys = "filter (live st) (nodes st l)"
  have ok: "list_ok st l" using wf l by (rule wf_list_ok)
  have ch: "chain (conns st) (first (lists st l)) ?xs" using ok by (rule list_ok_chain)
  have d: "distinct ?xs" using ch by (rule chain_distinct)
  from cleanList_loop_chain[of st "first (lists st l)" ?xs "[]" l] ch d
  obtain st1 where
    a: "cleanList_loop l None (first (lists st l)) st = Some (last_of ?ys, st1)"
    and b: "linked (conns st1) ?ys"
    and c: "?ys \<noteq> [] \<longrightarrow> first (lists st1 l) = head_of ?ys"
    and r: "relinked l (set ?xs) st st1"
    by (auto simp: last_of_def)
  have bound: "\<forall>x\<in>set ?ys. x < nextConn st" using ok by (simp add: list_ok_def)
  have uniq: "\<forall>x\<in>set ?ys. \<forall>x'\<in>set ?ys. live st x \<and> same_key st x x' \<longrightarrow> x = x'"
    using ok by (simp add: list_ok_def)
  have refs0: "0 \<le> refs (lists st l)" using ok by (simp add: list_ok_def)
  show ?thesis
  proof (cases "?ys = []")
    case True
    let ?st' = "upd_list l (\<lambda>r. r\<lparr>first := None, last' := None\<rparr>) st1"
    have cl: "cleanList l st = Some ?st'"
      using a True by (simp add: cleanList_def last_of_def)
    have r': "relinked l (set ?xs) st ?st'"
      by (rule relinked_trans'[OF r relinked_upd_list]) simp
    have n: "nodes ?st' l = ?ys"
      by (rule nodesI) (simp_all add: True)
    have "list_ok ?st' l"
      unfolding list_ok_def n using True refs0 relinkedD(6)[OF r] by (simp add: last_of_def)
    with cl r' n show ?thesis by blast
  next
    case False
    let ?p = "last ?ys"
    let ?st' = "upd_list l (\<lambda>r. r\<lparr>last' := Some ?p\<rparr>) (upd_conn ?p (\<lambda>r. r\<lparr>nextReceiver := None\<rparr>) st1)"
    have pin: "?p \<in> set ?xs" using False last_in_set[of ?ys] by auto
    have cl: "cleanList l st = Some ?st'"
      using a False by (simp add: cleanList_def last_of_def)
    have r': "relinked l (set ?xs) st ?st'"
      by (rule relinked_trans'[OF r]) (rule relinked_trans'[OF relinked_upd_conn[OF pin] relinked_upd_list], simp)
    have dy: "distinct ?ys" using d by simp
    have "linked (conns (upd_conn ?p (\<lambda>r. r\<lparr>nextReceiver := None\<rparr>) st1)) ?ys"
      using b last_notin_butlast[OF dy False] by (rule linked_upd_notinI)
    then have "chain (conns ?st') (first (lists ?st' l)) ?ys"
      using c False by (simp add: chain_linked)
    then have n: "nodes ?st' l = ?ys"
      by (rule nodesI) (use bound relinkedD(3)[OF r] in simp)
    have "list_ok ?st' l"
      unfolding list_ok_def n
    proof (intro conjI)
      show "chain (conns ?st') (first (lists ?st' l)) ?ys" by fact
      show "last' (lists ?st' l) = last_of ?ys" using False by (simp add: last_of_def)
      show "\<forall>c\<in>set ?ys. c < nextConn ?st'" using bound relinkedD(3)[OF r] by simp
      show "\<forall>c\<in>set ?ys. \<forall>c'\<in>set ?ys. live ?st' c \<and> same_key ?st' c c' \<longrightarrow> c = c'"
        using uniq by (simp only: relinked_live[OF r'] relinked_same_key[OF r'])
      show "0 \<le> refs (lists ?st' l)" using refs0 relinkedD(6)[OF r'] by simp
    qed
    with cl r' n show ?thesis by blast
  qed
qed

lemma relinked_wf:
  assumes wf: "wf_state st" and l: "l < nextList st"
    and r: "relinked l (set (nodes st l)) st st'"
    and n: "set (nodes st' l) \<subseteq> set (nodes st l)" and ok': "list_ok st' l"
  shows "wf_state st'"
    and "\<And>k. k < nextList st \<Longrightarrow> k \<noteq> l \<Longrightarrow> nodes st' k = nodes st k"
proof -
  have other: "nodes st' k = nodes st k" "list_ok st' k" if k: "k < nextList st" "k \<noteq> l" for k
  proof -
    have okk: "list_ok st k" using wf k(1) by (rule wf_list_ok)
    have same: "signal (conns st' x) = signal (conns st x) \<and> callback (conns st' x) = callback (conns st x)
       \<and> thisArg (conns st' x) = thisArg (conns st x)
       \<and> nextReceiver (conns st' x) = nextReceiver (conns st x)" if "x \<in> set (nodes st k)" for x
      using relinkedD(7-9)[OF r] relinkedD(12)[OF r wf_disjoint[OF wf k(1) l k(2) that]] by simp
    show "nodes st' k = nodes st k"
      by (rule list_ok_frame_fields(1)[OF okk _ same]) (simp_all add: relinkedD(3,5)[OF r] k)
    show "list_ok st' k"
      by (rule list_ok_frame_fields(2)[OF okk _ same]) (simp_all add: relinkedD(3,5)[OF r] k)
  qed
  show "\<And>k. k < nextList st \<Longrightarrow> k \<noteq> l \<Longrightarrow> nodes st' k = nodes st k" by (rule other(1))
  show "wf_state st'"
    unfolding wf_state_def relinkedD(1,4)[OF r]
  proof (intro conjI allI impI)
    fix k assume "k < nextList st"
    then show "list_ok st' k" using ok' other(2) by (cases "k = l") auto
  next
    fix k k' assume k: "k < nextList st" "k' < nextList st" "k \<noteq> k'"
    have dj: "set (nodes st k) \<inter> set (nodes st k') = {}"
      using wf k by (simp add: wf_state_def)
    show "set (nodes st' k) \<inter> set (nodes st' k') = {}"
    proof (cases "k = l")
      case True
      then have "k' \<noteq> l" using k by simp
      from other(1)[OF k(2) this] True n dj show ?thesis by auto
    next
      case False
      show ?thesis
      proof (cases "k' = l")
        case True
        with other(1)[OF k(1) False] n dj show ?thesis by auto
      next
        case k'l: False
        with other(1)[OF k(1) False] other(1)[OF k(2) k'l] dj show ?thesis by simp
      qed
    qed
  next
    show "detached_dead st'"
    proof (rule detached_dead_shrink[OF wf_detached[OF wf]])
      fix k assume "k < nextList st"
      then show "set (nodes st' k) \<subseteq> set (nodes st k)"
        using n other(1)[of k] by (cases "k = l") auto
    qed (simp_all add: relinkedD(1,4)[OF r] relinked_live[OF r])
  qed (use wf in \<open>auto simp: wf_state_def\<close>)
qed


section \<open>invokeList\<close>

lemma evolves_live:
  assumes "evolves st st'" "c < nextConn st" "live st' c"
  shows "live st c" "key_of st' c = key_of st c" "signal (conns st' c) = signal (conns st c)"
  using assms by (auto simp: evolves_def live_def key_of_def)

lemma evolves_signal: "evolves st st' \<Longrightarrow> c < nextConn st \<Longrightarrow> signal (conns st' c) = signal (conns st c)"
  by (simp add: evolves_def)

lemma evolves_nodes:
  "evolves st st' \<Longrightarrow> l < nextList st \<Longrightarrow> 0 < refs (lists st l)
   \<Longrightarrow> \<exists>ys. nodes st' l = nodes st l @ ys \<and> (\<forall>c\<in>set ys. nextConn st \<le> c)"
  by (simp add: evolves_def)

lemma evolves_refs: "evolves st st' \<Longrightarrow> l < nextList st \<Longrightarrow> refs (lists st' l) = refs (lists st l)"
  by (simp add: evolves_def)

lemma evolves_nextList: "evolves st st' \<Longrightarrow> l < nextList st \<Longrightarrow> l < nextList st'"
  by (simp add: evolves_def)

lemma preserves_wfD:
  "preserves_wf call \<Longrightarrow> wf_state st \<Longrightarrow> call cb t s a st = Some (out, ev, st')
   \<Longrightarrow> wf_state st' \<and> evolves st st'"
  unfolding preserves_wf_def by blast

text \<open>One iteration, on a dead connection, on a connection of another signal, on a subscriber.\<close>

lemma invoke_conn_dead:
  "\<not> live st c \<Longrightarrow> invoke_conn call s g a c d st = Some (Returned, True, [], st)"
  by (simp add: invoke_conn_def live_def)

lemma invoke_conn_other:
  "live st c \<Longrightarrow> signal (conns st c) \<noteq> Some g \<Longrightarrow> invoke_conn call s g a c d st = Some (Returned, d, [], st)"
  by (auto simp: invoke_conn_def live_def)

lemma invoke_conn_subscriber:
  assumes "live st c" "signal (conns st c) = Some g"
    and "invoke_conn call s g a c d st = Some (out, d', ev, st')"
  shows "\<exists>sub. call (fst (key_of st c)) (snd (key_of st c)) s a st = Some (out, sub, st')
           \<and> ev = [Call (fst (key_of st c)) (snd (key_of st c)) s a sub] \<and> d' = d"
  using assms by (auto simp: invoke_conn_def live_def key_of_def split: option.splits)

lemma invoke_conn_inv:
  assumes pw: "preserves_wf call" and wf: "wf_state st"
    and run: "invoke_conn call s g a c d st = Some (out, d', ev, st')"
  shows "wf_state st' \<and> evolves st st'
     \<and> (if live st c \<and> signal (conns st c) = Some g
         then map callee ev = [key_of st c] \<and> (\<forall>e\<in>set ev. call_args e = (s, a)) \<and> d' = d
         else ev = [] \<and> out = Returned \<and> d' = (d \<or> \<not> live st c))"
proof (cases "live st c")
  case False
  with run wf show ?thesis by (simp add: invoke_conn_dead)
next
  case True
  show ?thesis
  proof (cases "signal (conns st c) = Some g")
    case False
    with run wf True show ?thesis by (simp add: invoke_conn_other)
  next
    case sg: True
    from invoke_conn_subscriber[OF True sg run] obtain sub where
      c: "call (fst (key_of st c)) (snd (key_of st c)) s a st = Some (out, sub, st')"
      and ev: "ev = [Call (fst (key_of st c)) (snd (key_of st c)) s a sub]" and d: "d' = d"
      by blast
    from preserves_wfD[OF pw wf c] True sg ev d show ?thesis by simp
  qed
qed

lemma pass_result_single:
  assumes pw: "preserves_wf call" and wf: "wf_state st" and c: "c < nextConn st"
    and run: "invoke_conn call s g a c d st = Some (out, d', ev, st')"
  shows "pass_result st [c] g s a d out d' ev st'"
proof -
  from invoke_conn_inv[OF pw wf run] have ev: "evolves st st'"
    and cases: "if live st c \<and> signal (conns st c) = Some g
         then map callee ev = [key_of st c] \<and> (\<forall>e\<in>set ev. call_args e = (s, a)) \<and> d' = d
         else ev = [] \<and> out = Returned \<and> d' = (d \<or> \<not> live st c)"
    by simp_all
  show ?thesis
  proof (cases "live st c \<and> signal (conns st c) = Some g")
    case True
    with cases show ?thesis
      unfolding pass_result_def by (intro exI[of _ "{c}"]) auto
  next
    case False
    with cases evolves_live(1)[OF ev c] show ?thesis
      unfolding pass_result_def by (intro exI[of _ "{}"]) auto
  qed
qed

lemma pass_result_step:
  assumes first: "pass_result st [c] g s a d Returned d1 ev1 st1"
    and rest: "pass_result st1 rem g s a d1 out d' ev2 st'"
    and ev1: "evolves st st1" and ev2: "evolves st1 st'"
    and bound: "c < nextConn st" "\<forall>x\<in>set rem. x < nextConn st" and notin: "c \<notin> set rem"
  shows "pass_result st (c # rem) g s a d out d' (ev1 @ ev2) st'"
proof -
  from first obtain V1 where V1: "V1 \<subseteq> {c}" "\<forall>x\<in>V1. live st x \<and> signal (conns st x) = Some g"
    "map callee ev1 = map (key_of st) (filter (\<lambda>x. x \<in> V1) [c])" "\<forall>e\<in>set ev1. call_args e = (s, a)"
    "live st1 c \<and> signal (conns st c) = Some g \<longrightarrow> c \<in> V1" "d \<longrightarrow> d1" "\<not> live st c \<longrightarrow> d1"
    unfolding pass_result_def by auto
  from rest obtain V2 where V2: "V2 \<subseteq> set rem" "\<forall>x\<in>V2. live st1 x \<and> signal (conns st1 x) = Some g"
    "map callee ev2 = map (key_of st1) (filter (\<lambda>x. x \<in> V2) rem)" "\<forall>e\<in>set ev2. call_args e = (s, a)"
    "out = Returned \<longrightarrow> (\<forall>x\<in>set rem. live st' x \<and> signal (conns st1 x) = Some g \<longrightarrow> x \<in> V2)
              \<and> (d1 \<longrightarrow> d') \<and> ((\<exists>x\<in>set rem. \<not> live st1 x) \<longrightarrow> d')"
    unfolding pass_result_def by auto
  have V2st: "live st x" "key_of st1 x = key_of st x" "signal (conns st x) = Some g" if "x \<in> V2" for x
  proof -
    from that V2(1) bound(2) have b: "x < nextConn st" by auto
    from that V2(2) have l: "live st1 x" and sg: "signal (conns st1 x) = Some g" by auto
    show "live st x" "key_of st1 x = key_of st x" using evolves_live[OF ev1 b l] by simp_all
    show "signal (conns st x) = Some g" using evolves_live(3)[OF ev1 b l] sg by simp
  qed
  have cV2: "c \<notin> V2" using V2(1) notin by auto
  have remV1: "x \<notin> V1" if "x \<in> set rem" for x using that V1(1) notin by auto
  let ?V = "V1 \<union> V2"
  have f1: "filter (\<lambda>x. x \<in> ?V) [c] = filter (\<lambda>x. x \<in> V1) [c]" using cV2 by simp
  have f2: "filter (\<lambda>x. x \<in> ?V) rem = filter (\<lambda>x. x \<in> V2) rem"
    by (rule filter_cong) (auto dest: remV1)
  have m2: "map (key_of st1) (filter (\<lambda>x. x \<in> V2) rem) = map (key_of st) (filter (\<lambda>x. x \<in> V2) rem)"
    by (rule map_cong) (auto simp: V2st(2))
  have keys: "map callee (ev1 @ ev2) = map (key_of st) (filter (\<lambda>x. x \<in> ?V) (c # rem))"
  proof -
    have "filter (\<lambda>x. x \<in> ?V) (c # rem) = filter (\<lambda>x. x \<in> V1) [c] @ filter (\<lambda>x. x \<in> V2) rem"
      unfolding f1[symmetric] f2[symmetric] by simp
    then show ?thesis using V1(3) V2(3) m2 by (simp only: map_append)
  qed
  have fin: "(\<forall>x\<in>set (c # rem). live st' x \<and> signal (conns st x) = Some g \<longrightarrow> x \<in> ?V)
              \<and> (d \<longrightarrow> d') \<and> ((\<exists>x\<in>set (c # rem). \<not> live st x) \<longrightarrow> d')" if out: "out = Returned"
  proof (intro conjI ballI impI)
    fix x assume x: "x \<in> set (c # rem)" and lx: "live st' x \<and> signal (conns st x) = Some g"
    show "x \<in> ?V"
    proof (cases "x = c")
      case True
      have "c < nextConn st1" using bound(1) ev1 by (auto simp: evolves_def)
      from evolves_live(1)[OF ev2 this] lx True have "live st1 c" by simp
      with V1(5) lx True show ?thesis by simp
    next
      case False
      with x have xr: "x \<in> set rem" by simp
      then have "signal (conns st1 x) = signal (conns st x)"
        using evolves_signal[OF ev1] bound(2) by simp
      with V2(5) out xr lx show ?thesis by simp
    qed
  next
    assume d
    with V1(6) V2(5) out show d' by simp
  next
    assume "\<exists>x\<in>set (c # rem). \<not> live st x"
    then obtain x where x: "x \<in> set (c # rem)" "\<not> live st x" by blast
    show d'
    proof (cases "x = c")
      case True
      with x V1(7) V2(5) out show ?thesis by simp
    next
      case False
      with x have xr: "x \<in> set rem" by simp
      then have "\<not> live st1 x" using evolves_live(1)[OF ev1, of x] bound(2) x(2) by blast
      with V2(5) out xr show ?thesis by blast
    qed
  qed
  show ?thesis
    unfolding pass_result_def
  proof (intro exI[of _ ?V] conjI)
    show "?V \<subseteq> set (c # rem)" using V1(1) V2(1) by auto
    show "\<forall>x\<in>?V. live st x \<and> signal (conns st x) = Some g" using V1(2) V2st by auto
    show "map callee (ev1 @ ev2) = map (key_of st) (filter (\<lambda>x. x \<in> ?V) (c # rem))" by (rule keys)
    show "\<forall>e\<in>set (ev1 @ ev2). call_args e = (s, a)" using V1(4) V2(4) by auto
    show "out = Returned \<longrightarrow> (\<forall>x\<in>set (c # rem). live st' x \<and> signal (conns st x) = Some g \<longrightarrow> x \<in> ?V)
              \<and> (d \<longrightarrow> d') \<and> ((\<exists>x\<in>set (c # rem). \<not> live st x) \<longrightarrow> d')"
      using fin by blast
  qed
qed

lemma pass_result_thrown:
  assumes "pass_result st [c] g s a d Thrown d1 ev1 st1" "c \<notin> set rem"
  shows "pass_result st (c # rem) g s a d Thrown d1 ev1 st1"
proof -
  from assms(1) obtain V where V: "V \<subseteq> {c}" "\<forall>x\<in>V. live st x \<and> signal (conns st x) = Some g"
    "map callee ev1 = map (key_of st) (filter (\<lambda>x. x \<in> V) [c])" "\<forall>e\<in>set ev1. call_args e = (s, a)"
    unfolding pass_result_def by auto
  have "filter (\<lambda>x. x \<in> V) rem = []" using V(1) assms(2) by (auto simp: filter_empty_conv)
  then have "filter (\<lambda>x. x \<in> V) (c # rem) = filter (\<lambda>x. x \<in> V) [c]" by simp
  with V show ?thesis unfolding pass_result_def by (intro exI[of _ V]) auto
qed

text \<open>
  The loop of \<open>invokeList\<close>, started inside a list that is being walked: \<open>rem\<close> is what is
  left of the snapshot, up to the \<open>last\<close> that was read when the walk began.
\<close>

lemma invokeList_loop_inv:
  assumes pw: "preserves_wf call"
  shows "wf_state st \<Longrightarrow> l < nextList st \<Longrightarrow> 0 < refs (lists st l)
    \<Longrightarrow> nodes st l = pre @ rem @ post \<Longrightarrow> rem \<noteq> []
    \<Longrightarrow> invokeList_loop call (Some (last rem)) s g a d evs (Some (hd rem)) st = Some (out, d', evs', st')
    \<Longrightarrow> wf_state st' \<and> evolves st st' \<and> (\<exists>new. evs' = evs @ new \<and> pass_result st rem g s a d out d' new st')"
proof (induction rem arbitrary: pre post st d evs)
  case Nil
  then show ?case by simp
next
  case (Cons c rem)
  note wf = Cons.prems(1) and l = Cons.prems(2) and pos = Cons.prems(3) and n = Cons.prems(4)
  have ok: "list_ok st l" using wf l by (rule wf_list_ok)
  have dist: "distinct (pre @ (c # rem) @ post)"
    using chain_distinct[OF list_ok_chain[OF ok]] n by simp
  then have cnot: "c \<notin> set rem" by simp
  have bnd: "\<forall>x\<in>set (pre @ (c # rem) @ post). x < nextConn st"
    using ok n by (simp add: list_ok_def)
  then have cb: "c < nextConn st" and rb: "\<forall>x\<in>set rem. x < nextConn st" by simp_all
  from Cons.prems(6) obtain out1 d1 ev1 st1 where
    ic: "invoke_conn call s g a c d st = Some (out1, d1, ev1, st1)"
    by (subst (asm) invokeList_loop.simps) (auto split: option.splits)
  from invoke_conn_inv[OF pw wf ic] have wf1: "wf_state st1" and e1: "evolves st st1" by simp_all
  have p1: "pass_result st [c] g s a d out1 d1 ev1 st1"
    by (rule pass_result_single[OF pw wf cb ic])
  show ?case
  proof (cases out1)
    case Thrown
    with Cons.prems(6) ic have res: "out = Thrown" "d' = d1" "evs' = evs @ ev1" "st' = st1"
      by (subst (asm) invokeList_loop.simps, simp)+
    show ?thesis
      unfolding res using wf1 e1 pass_result_thrown[OF p1[unfolded Thrown] cnot] by blast
  next
    case Returned
    show ?thesis
    proof (cases "rem = []")
      case True
      with Cons.prems(6) ic Returned have res: "out = Returned" "d' = d1" "evs' = evs @ ev1" "st' = st1"
        by (subst (asm) invokeList_loop.simps, simp)+
      show ?thesis
        unfolding res using wf1 e1 p1 True Returned by blast
    next
      case False
      then have clast: "c \<noteq> last (c # rem)" using cnot by auto
      from evolves_nodes[OF e1 l pos] obtain ys where
        n1: "nodes st1 l = (pre @ [c]) @ rem @ (post @ ys)" using n by auto
      have l1: "l < nextList st1" using evolves_nextList[OF e1 l] .
      have pos1: "0 < refs (lists st1 l)" using evolves_refs[OF e1 l] pos by simp
      have "chain (conns st1) (first (lists st1 l)) (pre @ c # (rem @ post @ ys))"
        using list_ok_chain[OF wf_list_ok[OF wf1 l1]] n1 by simp
      from chain_next[OF this] False have nx: "nextReceiver (conns st1 c) = Some (hd rem)"
        by (cases rem) simp_all
      from Cons.prems(6) ic Returned clast
      have loop: "invokeList_loop call (Some (last rem)) s g a d1 (evs @ ev1) (Some (hd rem)) st1
                    = Some (out, d', evs', st')"
        using False by (subst (asm) invokeList_loop.simps) (simp add: nx)
      from Cons.IH[OF wf1 l1 pos1 n1 False loop] obtain new where
        wf': "wf_state st'" and e2: "evolves st1 st'" and evs': "evs' = (evs @ ev1) @ new"
        and p2: "pass_result st1 rem g s a d1 out d' new st'" by blast
      have "pass_result st (c # rem) g s a d out d' (ev1 @ new) st'"
        by (rule pass_result_step[OF p1[unfolded Returned] p2 e1 e2 cb rb cnot])
      with wf' evolves_trans[OF e1 e2] evs' show ?thesis by simp
    qed
  qed
qed


section \<open>emit\<close>

lemma upd_refs_nodes [simp]: "nodes (upd_list l (\<lambda>r. r\<lparr>refs := f r\<rparr>) st) k = nodes st k"
  by (simp add: nodes_def)

lemma upd_refs_live [simp]: "live (upd_list l f st) = live st"
  by (simp add: live_def fun_eq_iff)

lemma upd_refs_same_key [simp]: "same_key (upd_list l f st) = same_key st"
  by (simp add: same_key_def fun_eq_iff)

lemma upd_refs_list_ok:
  "list_ok st k \<Longrightarrow> (k = l \<Longrightarrow> 0 \<le> f (lists st l))
   \<Longrightarrow> list_ok (upd_list l (\<lambda>r. r\<lparr>refs := f r\<rparr>) st) k"
  by (cases "k = l") (simp_all add: list_ok_def)

lemma upd_refs_wf:
  "wf_state st \<Longrightarrow> 0 \<le> f (lists st l) \<Longrightarrow> wf_state (upd_list l (\<lambda>r. r\<lparr>refs := f r\<rparr>) st)"
  unfolding wf_state_def detached_dead_def by (simp add: upd_refs_list_ok)

text \<open>The state between the increment and the decrement of \<open>refs\<close>, seen from outside.\<close>

lemma evolves_unbump:
  assumes e: "evolves (upd_list l (\<lambda>r. r\<lparr>refs := refs r + 1\<rparr>) st) stb"
    and ok: "0 \<le> refs (lists st l)" and l: "l < nextList st"
  shows "evolves st (upd_list l (\<lambda>r. r\<lparr>refs := refs r - 1\<rparr>) stb)"
  unfolding evolves_def
proof (intro conjI allI impI)
  let ?sta = "upd_list l (\<lambda>r. r\<lparr>refs := refs r + 1\<rparr>) st"
  fix k assume k: "k < nextList st"
  then have ka: "k < nextList ?sta" by simp
  show "refs (lists (upd_list l (\<lambda>r. r\<lparr>refs := refs r - 1\<rparr>) stb) k) = refs (lists st k)"
    using evolves_refs[OF e ka] by (cases "k = l") simp_all
  assume "0 < refs (lists st k)"
  then have "0 < refs (lists ?sta k)" by (cases "k = l") simp_all
  from evolves_nodes[OF e ka this]
  show "\<exists>ys. nodes (upd_list l (\<lambda>r. r\<lparr>refs := refs r - 1\<rparr>) stb) k = nodes st k @ ys
          \<and> (\<forall>c\<in>set ys. nextConn st \<le> c)"
    by simp
qed (use e in \<open>simp_all add: evolves_def\<close>)

lemma relinked_evolves:
  assumes wf: "wf_state st" and l: "l < nextList st" and r: "relinked l (set (nodes st l)) st st'"
    and z: "refs (lists st l) = 0"
    and n: "set (nodes st' l) \<subseteq> set (nodes st l)" and ok': "list_ok st' l"
  shows "evolves st st'"
  unfolding evolves_def
proof (intro conjI allI impI)
  fix k assume k: "k < nextList st"
  show "refs (lists st' k) = refs (lists st k)"
    using relinkedD(5,6)[OF r] by (cases "k = l") simp_all
  assume "0 < refs (lists st k)"
  with z have "k \<noteq> l" by auto
  from relinked_wf(2)[OF wf l r n ok' k this]
  show "\<exists>ys. nodes st' k = nodes st k @ ys \<and> (\<forall>c\<in>set ys. nextConn st \<le> c)" by simp
qed (simp_all add: relinkedD[OF r])

lemma pass_result_cong:
  assumes "pass_result st rem g s a d out d' new st1"
    and "conns st0 = conns st" and "live st2 = live st1"
  shows "pass_result st0 rem g s a d out d' new st2"
proof -
  have "live st0 = live st" "key_of st0 = key_of st"
    using assms(2) by (simp_all add: live_def key_of_def fun_eq_iff)
  with assms show ?thesis unfolding pass_result_def by simp
qed

lemma pass_result_Nil: "pass_result st [] g s a d Returned d [] st"
  unfolding pass_result_def by simp

lemma invokeList_inv:
  assumes pw: "preserves_wf call" and wf: "wf_state st" and l: "l < nextList st"
    and pos: "0 < refs (lists st l)"
    and run: "invokeList call l s g a st = Some (out, d', evs, st')"
  shows "wf_state st' \<and> evolves st st' \<and> pass_result st (nodes st l) g s a False out d' evs st'"
proof (cases "nodes st l = []")
  case True
  have ok: "list_ok st l" using wf l by (rule wf_list_ok)
  from list_ok_chain[OF ok] True have "first (lists st l) = None" by simp
  with run have "out = Returned" "d' = False" "evs = []" "st' = st"
    by (simp_all add: invokeList_def invokeList_loop.simps)
  with wf True pass_result_Nil show ?thesis by simp
next
  case False
  have ok: "list_ok st l" using wf l by (rule wf_list_ok)
  from chain_hd[OF list_ok_chain[OF ok]] False
  have f: "first (lists st l) = Some (hd (nodes st l))" by (cases "nodes st l") simp_all
  from ok False have la: "last' (lists st l) = Some (last (nodes st l))"
    by (simp add: list_ok_def last_of_def)
  from run have "invokeList_loop call (Some (last (nodes st l))) s g a False [] (Some (hd (nodes st l))) st
      = Some (out, d', evs, st')"
    by (simp add: invokeList_def f la)
  from invokeList_loop_inv[OF pw wf l pos _ False this, of "[]" "[]"]
  show ?thesis by simp
qed

lemma emit_unconnected:
  "senderMap st s = None \<Longrightarrow> emit call s g a st = Some (Returned, [], st)"
  by (simp add: emit_def)

lemma emit_inv:
  assumes pw: "preserves_wf call" and wf: "wf_state st"
    and run: "emit call s g a st = Some (out, evs, st')"
  shows "wf_state st' \<and> evolves st st'
     \<and> (\<forall>l. senderMap st s = Some l \<longrightarrow>
          (\<exists>d'. pass_result st (nodes st l) g s a False out d' evs st'
             \<and> (out = Returned \<and> d' \<and> refs (lists st l) = 0 \<longrightarrow> (\<forall>c\<in>set (nodes st' l). live st' c))))"
proof (cases "senderMap st s")
  case None
  with run wf show ?thesis by (simp add: emit_def)
next
  case (Some l)
  let ?sta = "upd_list l (\<lambda>r. r\<lparr>refs := refs r + 1\<rparr>) st"
  have l: "l < nextList st" using wf Some by (rule wf_senderMap)
  have r0: "0 \<le> refs (lists st l)" using wf_list_ok[OF wf l] by (simp add: list_ok_def)
  have wfa: "wf_state ?sta" using wf r0 by (intro upd_refs_wf) simp_all
  from run Some obtain d' stb where
    il: "invokeList call l s g a ?sta = Some (out, d', evs, stb)"
    by (auto simp: emit_def Let_def split: option.splits outcome.splits if_splits)
  from invokeList_inv[OF pw wfa _ _ il] l r0
  have wfb: "wf_state stb" and eb: "evolves ?sta stb"
    and pr: "pass_result ?sta (nodes st l) g s a False out d' evs stb" by simp_all
  let ?stc = "upd_list l (\<lambda>r. r\<lparr>refs := refs r - 1\<rparr>) stb"
  have rb: "refs (lists stb l) = refs (lists st l) + 1"
    using evolves_refs[OF eb, of l] l by simp
  have wfc: "wf_state ?stc" using wfb rb r0 by (intro upd_refs_wf) simp_all
  have ec: "evolves st ?stc" by (rule evolves_unbump[OF eb r0 l])
  have rc: "refs (lists ?stc l) = refs (lists st l)" using rb by simp
  have lc: "l < nextList ?stc" using evolves_nextList[OF ec l] .
  show ?thesis
  proof (cases "out = Returned \<and> d' \<and> refs (lists st l) = 0")
    case False
    with run Some il rc have st': "st' = ?stc"
      by (cases out) (auto simp: emit_def Let_def)
    have "pass_result st (nodes st l) g s a False out d' evs st'"
      unfolding st' by (rule pass_result_cong[OF pr]) simp_all
    with wfc ec st' False Some show ?thesis by auto
  next
    case True
    from cleanList_effect[OF wfc lc] obtain std where
      cl: "cleanList l ?stc = Some std" and rl: "relinked l (set (nodes ?stc l)) ?stc std"
      and nd: "nodes std l = filter (live ?stc) (nodes ?stc l)" and okd: "list_ok std l"
      by blast
    from run Some il rc True cl have st': "st' = std"
      by (auto simp: emit_def Let_def)
    have sub: "set (nodes std l) \<subseteq> set (nodes ?stc l)" unfolding nd by auto
    have wfd: "wf_state std" by (rule relinked_wf(1)[OF wfc lc rl sub okd])
    have ed: "evolves ?stc std"
      by (rule relinked_evolves[OF wfc lc rl _ sub okd]) (use rc True in simp)
    have lv: "live std = live stb" using relinked_live[OF rl] by simp
    have "pass_result st (nodes st l) g s a False out d' evs st'"
      unfolding st' by (rule pass_result_cong[OF pr]) (simp_all add: lv)
    moreover have "\<forall>c\<in>set (nodes std l). live std c"
      unfolding nd using relinked_live[OF rl] by simp
    ultimately show ?thesis
      using wfd evolves_trans[OF ec ed] st' Some by auto
  qed
qed

section \<open>Callbacks that use the registry keep it well formed\<close>

lemma exec_inv:
  assumes pw: "preserves_wf call" and wf: "wf_state st"
    and run: "exec call x st = Some (out, ev, st')"
  shows "wf_state st' \<and> evolves st st'"
proof (cases x)
  case (Connect s g cb t)
  with run obtain b where "connect s g cb t st = Some (b, st')"
    by (auto simp: lift_bool_def split: option.splits)
  then show ?thesis by (rule connect_wf[OF wf])
next
  case (Disconnect s g cb t)
  with run obtain b where "disconnect s g cb t st = Some (b, st')"
    by (auto simp: lift_bool_def split: option.splits)
  then show ?thesis by (rule disconnect_wf[OF wf])
next
  case (Emit s g a)
  with run emit_inv[OF pw wf, of s g a out ev st'] show ?thesis by simp
next
  case (DisconnectSender s)
  with run have "disconnectSender s st = Some st'"
    by (auto simp: lift_unit_def split: option.splits)
  then show ?thesis by (rule disconnectSender_wf[OF wf])
next
  case (DisconnectReceiver r)
  with run have "disconnectReceiver r st = Some st'"
    by (auto simp: lift_unit_def split: option.splits)
  then show ?thesis by (rule disconnectReceiver_wf[OF wf])
next
  case (ClearSignalData y)
  with run have "clearSignalData y st = Some st'"
    by (auto simp: lift_unit_def split: option.splits)
  then show ?thesis by (rule clearSignalData_wf[OF wf])
next
  case Throw
  with run wf show ?thesis by simp
qed

lemma exec_all_inv:
  assumes pw: "preserves_wf call"
  shows "wf_state st \<Longrightarrow> exec_all call xs st = Some (out, ev, st') \<Longrightarrow> wf_state st' \<and> evolves st st'"
proof (induction xs arbitrary: st out ev st')
  case Nil
  then show ?case by simp
next
  case (Cons x xs)
  from Cons.prems(2) obtain out1 ev1 st1 where x: "exec call x st = Some (out1, ev1, st1)"
    by (auto split: option.splits)
  from exec_inv[OF pw Cons.prems(1) x] have wf1: "wf_state st1" and e1: "evolves st st1" by simp_all
  show ?case
  proof (cases out1)
    case Thrown
    with Cons.prems(2) x have "st' = st1" by simp
    with wf1 e1 show ?thesis by simp
  next
    case Returned
    with Cons.prems(2) x obtain ev2 where "exec_all call xs st1 = Some (out, ev2, st')"
      by (auto split: option.splits)
    from Cons.IH[OF wf1 this] e1 show ?thesis by (blast intro: evolves_trans)
  qed
qed

lemma run_callback_preserves_wf: "preserves_wf (run_callback n p)"
proof (induction n)
  case 0
  show ?case by (simp add: preserves_wf_def)
next
  case (Suc n)
  show ?case
    unfolding preserves_wf_def
    using exec_all_inv[OF Suc] by auto
qed

lemma init_wf: "wf_state init"
  by (simp add: wf_state_def detached_dead_def init_def)

section \<open>Looking up a connection\<close>

lemma coerce_idem [simp]: "coerce (coerce t) = coerce t"
  by (simp add: coerce_def)

lemma coerce_falsy: "\<not> truthy t \<Longrightarrow> coerce t = Undefined"
  by (simp add: coerce_def)

lemma coerce_Undefined [simp]: "coerce Undefined = Undefined"
  by (simp add: coerce_def)

lemma connection_wf:
  assumes "wf_state st"
  shows "connection st s g cb t =
     Some (case senderMap st s of None \<Rightarrow> None
           | Some l \<Rightarrow> find (\<lambda>c. subscribes st c g cb (coerce t)) (nodes st l))"
proof (cases "senderMap st s")
  case None
  then show ?thesis by (simp add: connection_def)
next
  case (Some l)
  with assms have "list_ok st l" by (auto intro: wf_list_ok wf_senderMap)
  then show ?thesis using Some by (simp add: connection_def findConnection_wf)
qed

lemma connect_connection:
  "connect s g cb t st =
     (case connection st s g cb t of
        None \<Rightarrow> None
      | Some (Some found) \<Rightarrow> Some (False, st)
      | Some None \<Rightarrow>
          Some (True,
            add_to_senders_list (receiver_of (coerce t) cb) (nextConn st)
              (add_to_receivers_list s (senderMap st s) (nextConn st)
                (create_connection g cb (coerce t) st))))"
  by (simp add: connect_def connection_def Let_def)

lemma disconnect_connection:
  "disconnect s g cb t st =
     (case connection st s g cb t of
        None \<Rightarrow> None
      | Some None \<Rightarrow> Some (False, st)
      | Some (Some c) \<Rightarrow> Some (True, clear_conn c (removeFromSendersList c st)))"
  by (simp add: disconnect_def connection_def Let_def split: option.splits)

lemma find_Some_unique:
  assumes "x \<in> set xs" "P x" "\<And>y. y \<in> set xs \<Longrightarrow> P y \<Longrightarrow> y = x"
  shows "find P xs = Some x"
  using assms
proof (induction xs)
  case Nil
  then show ?case by simp
next
  case (Cons a xs)
  show ?case
  proof (cases "P a")
    case True
    then have "a = x" using Cons.prems(3)[of a] by simp
    with True show ?thesis by simp
  next
    case False
    with Cons.prems(1,2) have "x \<in> set xs" by auto
    from Cons.IH[OF this Cons.prems(2)] Cons.prems(3) False show ?thesis by simp
  qed
qed

lemma find_SomeD: "find P xs = Some x \<Longrightarrow> x \<in> set xs \<and> P x"
  by (induction xs) (auto split: if_splits)

text \<open>A live connection is found by its own key.\<close>

lemma connection_found_iff:
  assumes wf: "wf_state st" and l: "senderMap st s = Some l"
  shows "connection st s g cb t = Some (Some c)
     \<longleftrightarrow> c \<in> set (nodes st l) \<and> subscribes st c g cb (coerce t)"
proof -
  have ok: "list_ok st l" using wf l by (auto intro: wf_list_ok wf_senderMap)
  have uq: "y = c" if "c \<in> set (nodes st l)" "subscribes st c g cb (coerce t)"
    "y \<in> set (nodes st l)" "subscribes st y g cb (coerce t)" for y
  proof -
    have "live st y" "same_key st y c" using that by (auto simp: live_def same_key_def subscribes_def)
    with ok that(1,3) show ?thesis unfolding list_ok_def by blast
  qed
  show ?thesis
    unfolding connection_wf[OF wf] l
    by (auto dest: find_SomeD intro: find_Some_unique uq)
qed

lemma connection_not_found_iff:
  assumes wf: "wf_state st" and l: "senderMap st s = Some l"
  shows "connection st s g cb t = Some None
     \<longleftrightarrow> (\<forall>c\<in>set (nodes st l). \<not> subscribes st c g cb (coerce t))"
  unfolding connection_wf[OF wf] l by (simp add: find_None_iff')

section \<open>What a successful connect adds\<close>

lemma appended_sender_eq:
  assumes a: "appended st s g cb t l st2" and e: "sender_eq st2 st'"
  shows "appended st s g cb t l st'"
proof -
  have n: "\<And>k. nodes st' k = nodes st2 k" using sender_eq_nodes[OF e] .
  have f: "lists st' = lists st2" "senderMap st' = senderMap st2" "nextConn st' = nextConn st2"
    "nextList st' = nextList st2"
    "\<And>x. signal (conns st' x) = signal (conns st2 x)"
    "\<And>x. callback (conns st' x) = callback (conns st2 x)"
    "\<And>x. thisArg (conns st' x) = thisArg (conns st2 x)"
    using e by (simp_all add: sender_eq_def)
  show ?thesis
    using a unfolding appended_def Let_def subscribes_def n f by simp
qed

lemma connect_appended:
  assumes wf: "wf_state st" and c: "connect s g cb t st = Some (True, st')"
  shows "\<exists>l. appended st s g cb (coerce t) l st'"
  using connect_True[OF wf c] appended_sender_eq by blast

lemma appendedD:
  assumes "appended st s g cb t l st'"
  shows "nextConn st' = Suc (nextConn st)" "senderMap st' = (senderMap st)(s \<mapsto> l)"
    "senderMap st s = None \<Longrightarrow> l = nextList st \<and> nextList st' = Suc l \<and> nodes st' l = [nextConn st]
        \<and> refs (lists st' l) = 0"
    "senderMap st s = Some l0 \<Longrightarrow> l = l0 \<and> nextList st' = nextList st
        \<and> nodes st' l = nodes st l @ [nextConn st] \<and> refs (lists st' l) = refs (lists st l)"
    "l' < nextList st \<Longrightarrow> l' \<noteq> l \<Longrightarrow> nodes st' l' = nodes st l' \<and> lists st' l' = lists st l'"
    "x \<noteq> nextConn st \<Longrightarrow> signal (conns st' x) = signal (conns st x)
             \<and> callback (conns st' x) = callback (conns st x)
             \<and> thisArg (conns st' x) = thisArg (conns st x)"
    "subscribes st' (nextConn st) g cb t"
  using assms by (auto simp: appended_def Let_def)

lemma appended_old:
  assumes "appended st s g cb t l st'" "x \<noteq> nextConn st"
  shows "live st' x = live st x" "key_of st' x = key_of st x"
    "subscribes st' x g' cb' t' = subscribes st x g' cb' t'"
  using appendedD(6)[OF assms] by (simp_all add: live_def key_of_def subscribes_def)

lemma appended_new:
  assumes "appended st s g cb t l st'"
  shows "live st' (nextConn st)" "key_of st' (nextConn st) = (cb, t)"
    "signal (conns st' (nextConn st)) = Some g"
  using appendedD(7)[OF assms] by (simp_all add: live_def key_of_def subscribes_def)

text \<open>After \<open>connect\<close>, whatever it returned, the connection exists.\<close>

lemma connect_connected:
  assumes wf: "wf_state st" and c: "connect s g cb t st = Some (b, st')"
  shows "\<exists>c. connection st' s g cb t = Some (Some c)"
proof (cases b)
  case False
  with c have "st' = st" "\<exists>c. connection st s g cb t = Some (Some c)"
    by (auto simp: connect_connection split: option.splits)
  then show ?thesis by simp
next
  case True
  with c have c': "connect s g cb t st = Some (True, st')" by simp
  from connect_appended[OF wf c'] obtain l where a: "appended st s g cb (coerce t) l st'" by blast
  have wf': "wf_state st'" using connect_wf[OF wf c] by simp
  have l: "senderMap st' s = Some l" using appendedD(2)[OF a] by simp
  have "nextConn st \<in> set (nodes st' l)"
    using appendedD(3,4)[OF a] by (cases "senderMap st s") auto
  with appendedD(7)[OF a] connection_found_iff[OF wf' l, of g cb t "nextConn st"]
  show ?thesis by auto
qed

lemma add_to_senders_list_receiverMap [simp]:
  "receiverMap (add_to_senders_list r c st) = (receiverMap st)(r \<mapsto> c)"
  by (simp add: add_to_senders_list_def Let_def split: option.splits)

lemma connect_falsy: "\<not> truthy t \<Longrightarrow> connect s g cb t st = connect s g cb Undefined st"
  by (simp add: connect_def coerce_falsy)

lemma disconnect_falsy: "\<not> truthy t \<Longrightarrow> disconnect s g cb t st = disconnect s g cb Undefined st"
  by (simp add: disconnect_def coerce_falsy)

lemma connect_twice:
  assumes wf: "wf_state st" and c: "connect s g cb t st = Some (b, st1)" and t: "coerce t' = coerce t"
  shows "connect s g cb t' st1 = Some (False, st1)"
proof -
  from connect_connected[OF wf c] obtain c1 where "connection st1 s g cb t = Some (Some c1)" by blast
  then have "connection st1 s g cb t' = Some (Some c1)" by (simp only: connection_def t)
  then show ?thesis by (simp add: connect_connection)
qed

lemma connect_receiver:
  assumes "connect s g cb t st = Some (True, st1)"
  shows "receiverMap st1 (receiver_of (coerce t) cb) = Some (nextConn st)"
  using assms by (auto simp: connect_connection split: option.splits)

text \<open>
  C9.  A \<open>thisArg\<close> of \<open>null\<close>, or any other falsy value, is the same as no \<open>thisArg\<close>:
  \<open>connect\<close> and \<open>disconnect\<close> return what they return for \<open>undefined\<close>; the connection made
  has the context \<open>undefined\<close> and the callback itself as its receiver; and after a \<open>connect\<close>
  with a falsy \<open>thisArg\<close>, a \<open>connect\<close> without \<open>thisArg\<close> finds the connection and
  returns \<open>false\<close>, leaving the registry as it is.
\<close>

theorem falsy_thisArg_is_no_thisArg:
  assumes "\<not> truthy t"
  shows "connect s g cb t st = connect s g cb Undefined st
       \<and> disconnect s g cb t st = disconnect s g cb Undefined st
       \<and> (wf_state st \<and> connect s g cb t st = Some (b, st1)
            \<longrightarrow> connect s g cb Undefined st1 = Some (False, st1))
       \<and> (wf_state st \<and> connect s g cb t st = Some (True, st1)
            \<longrightarrow> thisArg (conns st1 (nextConn st)) = Undefined
                \<and> conn_receiver (conns st1 (nextConn st)) = Some cb
                \<and> receiverMap st1 cb = Some (nextConn st))"
proof (intro conjI impI)
  show "connect s g cb t st = connect s g cb Undefined st" using assms by (rule connect_falsy)
  show "disconnect s g cb t st = disconnect s g cb Undefined st" using assms by (rule disconnect_falsy)
next
  assume "wf_state st \<and> connect s g cb t st = Some (b, st1)"
  then show "connect s g cb Undefined st1 = Some (False, st1)"
    using connect_twice[of st s g cb t b st1 Undefined] assms by (simp add: coerce_falsy)
next
  assume a: "wf_state st \<and> connect s g cb t st = Some (True, st1)"
  then obtain l where ap: "appended st s g cb Undefined l st1"
    using connect_appended[of st s g cb t st1] assms by (auto simp: coerce_falsy)
  from appendedD(7)[OF ap] show "thisArg (conns st1 (nextConn st)) = Undefined"
    and "conn_receiver (conns st1 (nextConn st)) = Some cb"
    by (simp_all add: subscribes_def conn_receiver_def)
  from a connect_receiver[of s g cb t st st1] assms
  show "receiverMap st1 cb = Some (nextConn st)"
    by (simp add: coerce_falsy receiver_of_def)
qed

theorem falsy_thisArg_is_no_thisArg_witness:
  "\<not> truthy Null \<and> wf_state init
   \<and> connect 7 1 3 Null init = Some (True, one_connection)
   \<and> connect 7 1 3 Null init = connect 7 1 3 Undefined init
   \<and> disconnect 7 1 3 Null init = disconnect 7 1 3 Undefined init
   \<and> connect 7 1 3 Undefined one_connection = Some (False, one_connection)
   \<and> thisArg (conns one_connection 0) = Undefined
   \<and> conn_receiver (conns one_connection 0) = Some 3
   \<and> receiverMap one_connection 3 = Some 0"
proof -
  have h1: "\<not> truthy Null" by simp
  have h2: "wf_state init" by (rule init_wf)
  have h3: "connect 7 1 3 Null init = Some (True, one_connection)"
    by (simp add: connect_connection connection_def one_connection_def init_def receiver_of_def coerce_def)
  have n: "nextConn init = 0" by (simp add: init_def)
  from falsy_thisArg_is_no_thisArg[OF h1, of 7 1 3 init True one_connection] h1 h2 h3 n
  show ?thesis by simp
qed

section \<open>Which callbacks an emission invokes\<close>

lemma count_list_map_unique:
  assumes "distinct ys" "\<And>y. y \<in> set ys \<Longrightarrow> f y = k \<Longrightarrow> y = c" "f c = k"
  shows "count_list (map f ys) k = (if c \<in> set ys then 1 else 0)"
  using assms(1,2)
proof (induction ys)
  case Nil
  show ?case by simp
next
  case (Cons y ys)
  have IH: "count_list (map f ys) k = (if c \<in> set ys then 1 else 0)"
    using Cons by auto
  show ?case
  proof (cases "f y = k")
    case True
    then have "y = c" using Cons.prems(2)[of y] by simp
    with True IH Cons.prems(1) show ?thesis by simp
  next
    case False
    then have "y \<noteq> c" using assms(3) by auto
    with False IH show ?thesis by simp
  qed
qed

lemma subscribes_key:
  "live st c \<Longrightarrow> signal (conns st c) = Some g \<Longrightarrow> key_of st c = (cb, t) \<Longrightarrow> subscribes st c g cb t"
  by (auto simp: live_def key_of_def subscribes_def)

lemma subscribes_keyD:
  "subscribes st c g cb t \<Longrightarrow> live st c \<and> signal (conns st c) = Some g \<and> key_of st c = (cb, t)"
  by (auto simp: live_def key_of_def subscribes_def)

text \<open>What \<open>pass_result\<close> says about one subscription.\<close>

lemma pass_result_count:
  assumes pr: "pass_result st xs g s a d out d' evs st'" and d: "distinct xs"
    and c: "c \<in> set xs" "subscribes st c g cb t"
    and uq: "\<And>y. y \<in> set xs \<Longrightarrow> subscribes st y g cb t \<Longrightarrow> y = c"
  shows "count_list (map callee evs) (cb, t) \<le> 1"
    and "out = Returned \<Longrightarrow> live st' c \<Longrightarrow> count_list (map callee evs) (cb, t) = 1"
proof -
  from pr obtain V where V: "V \<subseteq> set xs" "\<forall>x\<in>V. live st x \<and> signal (conns st x) = Some g"
    "map callee evs = map (key_of st) (filter (\<lambda>x. x \<in> V) xs)"
    "out = Returned \<longrightarrow> (\<forall>x\<in>set xs. live st' x \<and> signal (conns st x) = Some g \<longrightarrow> x \<in> V)"
    unfolding pass_result_def by blast
  have only: "y = c" if "y \<in> set (filter (\<lambda>x. x \<in> V) xs)" "key_of st y = (cb, t)" for y
  proof -
    from that(1) V(2) have "y \<in> set xs" "live st y" "signal (conns st y) = Some g" by auto
    with that(2) show ?thesis by (auto intro: uq subscribes_key)
  qed
  have k: "key_of st c = (cb, t)" using subscribes_keyD[OF c(2)] by simp
  have cnt: "count_list (map callee evs) (cb, t) = (if c \<in> set (filter (\<lambda>x. x \<in> V) xs) then 1 else 0)"
    unfolding V(3)
    by (rule count_list_map_unique[where f="key_of st" and c=c and k="(cb, t)"])
       (use d only k in simp_all)
  then show "count_list (map callee evs) (cb, t) \<le> 1" by simp
  assume "out = Returned" "live st' c"
  with V(4) c subscribes_keyD[OF c(2)] have "c \<in> V" by blast
  with cnt c(1) show "count_list (map callee evs) (cb, t) = 1" by simp
qed

lemma pass_result_absent:
  assumes pr: "pass_result st xs g s a d out d' evs st'"
    and no: "\<And>y. y \<in> set xs \<Longrightarrow> \<not> subscribes st y g cb t"
  shows "(cb, t) \<notin> set (map callee evs)"
proof
  assume in_evs: "(cb, t) \<in> set (map callee evs)"
  from pr obtain V where V: "V \<subseteq> set xs" "\<forall>x\<in>V. live st x \<and> signal (conns st x) = Some g"
    "map callee evs = map (key_of st) (filter (\<lambda>x. x \<in> V) xs)"
    unfolding pass_result_def by blast
  from in_evs obtain y where "y \<in> set xs" "y \<in> V" "key_of st y = (cb, t)"
    unfolding V(3) by auto
  with V(2) have "subscribes st y g cb t" by (auto intro: subscribes_key)
  with no \<open>y \<in> set xs\<close> show False by blast
qed

lemma connection_senderMap:
  "connection st s g cb t = Some (Some c) \<Longrightarrow> \<exists>l. senderMap st s = Some l"
  by (cases "senderMap st s") (simp_all add: connection_def)

lemma emit_invokes_connected:
  assumes pw: "preserves_wf call" and wf: "wf_state st"
    and conn: "connection st s g cb t = Some (Some c)"
    and run: "emit call s g a st = Some (out, evs, st')"
  shows "count_list (map callee evs) (cb, coerce t) \<le> 1"
    and "out = Returned \<Longrightarrow> live st' c \<Longrightarrow> count_list (map callee evs) (cb, coerce t) = 1"
proof -
  from connection_senderMap[OF conn] obtain l where l: "senderMap st s = Some l" by blast
  from emit_inv[OF pw wf run] l obtain d' where
    pr: "pass_result st (nodes st l) g s a False out d' evs st'" by blast
  have ok: "list_ok st l" using wf l by (auto intro: wf_list_ok wf_senderMap)
  have d: "distinct (nodes st l)" using chain_distinct[OF list_ok_chain[OF ok]] .
  from connection_found_iff[OF wf l, of g cb t c] conn
  have c: "c \<in> set (nodes st l)" "subscribes st c g cb (coerce t)" by simp_all
  have uq: "y = c" if "y \<in> set (nodes st l)" "subscribes st y g cb (coerce t)" for y
    using connection_found_iff[OF wf l, of g cb t y] that conn by simp
  show "count_list (map callee evs) (cb, coerce t) \<le> 1"
    by (rule pass_result_count(1)[OF pr d c uq])
  show "out = Returned \<Longrightarrow> live st' c \<Longrightarrow> count_list (map callee evs) (cb, coerce t) = 1"
    by (rule pass_result_count(2)[OF pr d c uq])
qed

lemma emit_skips_unconnected:
  assumes pw: "preserves_wf call" and wf: "wf_state st"
    and conn: "connection st s g cb t = Some None"
    and run: "emit call s g a st = Some (out, evs, st')"
  shows "(cb, coerce t) \<notin> set (map callee evs)"
proof (cases "senderMap st s")
  case None
  with run show ?thesis by (simp add: emit_def)
next
  case (Some l)
  from emit_inv[OF pw wf run] Some obtain d' where
    pr: "pass_result st (nodes st l) g s a False out d' evs st'" by blast
  show ?thesis
    by (rule pass_result_absent[OF pr])
       (use connection_not_found_iff[OF wf Some, of g cb t] conn in blast)
qed

lemma connect_existing:
  "connection st s g cb t = Some (Some c) \<Longrightarrow> connect s g cb t st = Some (False, st)"
  by (simp add: connect_connection)

text \<open>
  C5.  While a callback with a context has a live connection \<open>c\<close> to a signal of a sender,
  a \<open>connect\<close> with the same arguments returns \<open>false\<close> and leaves the registry as it is (no
  second record), and an emission of that signal invokes the callback with that context
  at most once: exactly once when \<open>emit\<close> returns normally and the connection was not
  disconnected during the emission.
\<close>

theorem connect_is_unique:
  assumes "wf_state st" "connection st s g cb t = Some (Some c)"
  shows "connect s g cb t st = Some (False, st)
       \<and> (emit (run_callback n p) s g a st = Some (out, evs, st')
            \<longrightarrow> count_list (map callee evs) (cb, coerce t) \<le> 1
               \<and> (out = Returned \<and> live st' c \<longrightarrow> count_list (map callee evs) (cb, coerce t) = 1))"
  using assms connect_existing[OF assms(2)]
    emit_invokes_connected[OF run_callback_preserves_wf assms, of n p a out evs st']
  by blast

theorem connect_is_unique_witness:
  "wf_state one_connection \<and> connection one_connection 7 1 3 Undefined = Some (Some 0)
   \<and> connect 7 1 3 Undefined one_connection = Some (False, one_connection)
   \<and> (case emit (run_callback 1 idle) 7 1 5 one_connection of
         None \<Rightarrow> False
       | Some (out, evs, st') \<Rightarrow>
           out = Returned \<and> live st' 0 \<and> count_list (map callee evs) (3, Undefined) = 1)"
proof -
  have c0: "connect 7 1 3 Undefined init = Some (True, one_connection)"
    by (simp add: connect_connection connection_def one_connection_def init_def receiver_of_def coerce_def)
  have h1: "wf_state one_connection" using connect_wf[OF init_wf c0] by simp
  have h2: "connection one_connection 7 1 3 Undefined = Some (Some 0)"
    by code_simp
  have e: "case emit (run_callback 1 idle) 7 1 5 one_connection of
         None \<Rightarrow> False | Some (out, evs, st') \<Rightarrow> out = Returned \<and> live st' 0"
    by code_simp
  then obtain evs st' where
    r: "emit (run_callback 1 idle) 7 1 5 one_connection = Some (Returned, evs, st')" and l: "live st' 0"
    by (auto split: option.splits)
  from connect_is_unique[OF h1 h2, of 1 idle 5 Returned evs st'] r l
  have "connect 7 1 3 Undefined one_connection = Some (False, one_connection)"
    "count_list (map callee evs) (3, Undefined) = 1"
    by (simp_all add: coerce_def)
  with h1 h2 r l show ?thesis by simp
qed

lemma connect_new:
  "connection st s g cb t = Some None \<Longrightarrow> connect s g cb t st = Some (True, make_connection s g cb t st)"
  by (simp add: connect_connection make_connection_def)

text \<open>
  C1.  The callbacks that an \<open>emit\<close> call invokes are the \<open>Call\<close> events of its result (what a
  nested \<open>emit\<close>, called by one of them, invokes is inside the event of that callback).
  A callback with a context that is not connected to the signal of the sender when \<open>emit\<close>
  is called is not among them, whatever the invoked callbacks connect during the emission.
  If it was connected during the emission (it is connected, as \<open>c\<close>, when \<open>emit\<close> has
  finished), a subsequent \<open>emit\<close> of the signal that returns normally, and during which \<open>c\<close>
  is not disconnected, invokes it exactly once.
\<close>

theorem connected_during_emit:
  assumes "wf_state st" "connection st s g cb t = Some None"
    and "emit (run_callback n p) s g a st = Some (out, evs, st1)"
  shows "(cb, coerce t) \<notin> set (map callee evs)
       \<and> (connection st1 s g cb t = Some (Some c)
            \<and> emit (run_callback m q) s g b st1 = Some (Returned, evs', st2) \<and> live st2 c
            \<longrightarrow> count_list (map callee evs') (cb, coerce t) = 1)"
proof (intro conjI impI)
  show "(cb, coerce t) \<notin> set (map callee evs)"
    by (rule emit_skips_unconnected[OF run_callback_preserves_wf assms])
  have wf1: "wf_state st1"
    using emit_inv[OF run_callback_preserves_wf assms(1,3)] by simp
  assume "connection st1 s g cb t = Some (Some c)
            \<and> emit (run_callback m q) s g b st1 = Some (Returned, evs', st2) \<and> live st2 c"
  then show "count_list (map callee evs') (cb, coerce t) = 1"
    using emit_invokes_connected(2)[OF run_callback_preserves_wf wf1, of s g cb t c m q b Returned evs' st2]
    by simp
qed

theorem connected_during_emit_witness:
  "wf_state adder_state \<and> connection adder_state 7 1 3 Undefined = Some None
   \<and> (case emit (run_callback 2 adder) 7 1 5 adder_state of
         None \<Rightarrow> False
       | Some (out, evs, st1) \<Rightarrow>
           map callee evs = [(11, Obj 1), (20, Obj 4)]
           \<and> (3, Undefined) \<notin> set (map callee evs)
           \<and> connection st1 7 1 3 Undefined = Some (Some 2)
           \<and> (case emit (run_callback 2 adder) 7 1 6 st1 of
                 None \<Rightarrow> False
               | Some (out', evs', st2) \<Rightarrow>
                   out' = Returned \<and> live st2 2 \<and> count_list (map callee evs') (3, Undefined) = 1))"
proof -
  have "exec_all (run_callback 0 idle) [Connect 7 1 11 (Obj 1), Connect 7 1 20 (Obj 4)] init \<noteq> None"
    by code_simp
  then obtain out0 evs0 where
    "exec_all (run_callback 0 idle) [Connect 7 1 11 (Obj 1), Connect 7 1 20 (Obj 4)] init
       = Some (out0, evs0, adder_state)"
    by (auto simp: adder_state_def)
  from exec_all_inv[OF run_callback_preserves_wf init_wf this]
  have h1: "wf_state adder_state" by simp
  have h2: "connection adder_state 7 1 3 Undefined = Some None" by code_simp
  have e: "case emit (run_callback 2 adder) 7 1 5 adder_state of
         None \<Rightarrow> False
       | Some (out, evs, st1) \<Rightarrow>
           map callee evs = [(11, Obj 1), (20, Obj 4)]
           \<and> connection st1 7 1 3 Undefined = Some (Some 2)
           \<and> (case emit (run_callback 2 adder) 7 1 6 st1 of
                 None \<Rightarrow> False
               | Some (out', evs', st2) \<Rightarrow> out' = Returned \<and> live st2 2)"
    by code_simp
  then obtain out evs st1 evs' st2 where
    r1: "emit (run_callback 2 adder) 7 1 5 adder_state = Some (out, evs, st1)"
    and m: "map callee evs = [(11, Obj 1), (20, Obj 4)]"
    and c1: "connection st1 7 1 3 Undefined = Some (Some 2)"
    and r2: "emit (run_callback 2 adder) 7 1 6 st1 = Some (Returned, evs', st2)"
    and l2: "live st2 2"
    by (auto split: option.splits)
  from connected_during_emit[OF h1 h2 r1, of 2 2 adder 6 evs' st2] c1 r2 l2
  have "(3, Undefined) \<notin> set (map callee evs)" "count_list (map callee evs') (3, Undefined) = 1"
    by (simp_all add: coerce_def)
  with h1 h2 r1 m c1 r2 l2 show ?thesis by (simp del: set_map)
qed

lemma connect_True_connection:
  assumes wf: "wf_state st" and c: "connect s g cb t st = Some (True, st')"
  shows "connection st' s g cb t = Some (Some (nextConn st))"
proof -
  from connect_appended[OF wf c] obtain l where a: "appended st s g cb (coerce t) l st'" by blast
  have wf': "wf_state st'" using connect_wf[OF wf c] by simp
  have l: "senderMap st' s = Some l" using appendedD(2)[OF a] by simp
  have "nextConn st \<in> set (nodes st' l)"
    using appendedD(3,4)[OF a] by (cases "senderMap st s") auto
  with appendedD(7)[OF a] connection_found_iff[OF wf' l, of g cb t "nextConn st"]
  show ?thesis by auto
qed

text \<open>After a successful \<open>disconnect\<close> the record is dead, still in the list, and not found.\<close>

lemma disconnect_True_effect:
  assumes wf: "wf_state st" and d: "disconnect s g cb t st = Some (True, st1)"
  shows "\<exists>c l. connection st s g cb t = Some (Some c) \<and> senderMap st s = Some l
            \<and> killed {c} st st1 \<and> c \<in> set (nodes st l)
            \<and> st1 = clear_conn c (removeFromSendersList c st)"
    and "connection st1 s g cb t = Some None"
proof -
  from disconnect_killed[OF d] obtain l c where l: "senderMap st s = Some l"
    and f: "findConnection st l g cb (coerce t) = Some (Some c)" and k: "killed {c} st st1"
    and st1: "st1 = clear_conn c (removeFromSendersList c st)" by blast
  have conn: "connection st s g cb t = Some (Some c)" using l f by (simp add: connection_def)
  from connection_found_iff[OF wf l, of g cb t c] conn
  have c: "c \<in> set (nodes st l)" "subscribes st c g cb (coerce t)" by simp_all
  show "\<exists>c l. connection st s g cb t = Some (Some c) \<and> senderMap st s = Some l
            \<and> killed {c} st st1 \<and> c \<in> set (nodes st l)
            \<and> st1 = clear_conn c (removeFromSendersList c st)"
    using conn l k c(1) st1 by blast
  have wf1: "wf_state st1" using killed_wf[OF k wf] .
  have l1: "senderMap st1 s = Some l" using l killedD(2)[OF k] by simp
  have "\<not> subscribes st1 y g cb (coerce t)" if y: "y \<in> set (nodes st1 l)" for y
  proof
    assume sb: "subscribes st1 y g cb (coerce t)"
    have "y \<noteq> c" using sb killedD(7)[OF k, of c] by (auto simp: subscribes_def)
    then have "subscribes st y g cb (coerce t)"
      using sb killedD(5)[OF k, of y] killedD(9,10)[OF k, of y] by (simp add: subscribes_def)
    moreover have "y \<in> set (nodes st l)" using y killed_nodes[OF k] by simp
    ultimately have "y = c" using connection_found_iff[OF wf l, of g cb t y] conn by simp
    with \<open>y \<noteq> c\<close> show False by simp
  qed
  then show "connection st1 s g cb t = Some None"
    using connection_not_found_iff[OF wf1 l1] by blast
qed

text \<open>
  C10.  A dead record never matches the duplicate scan.  After \<open>disconnect\<close> has returned
  \<open>true\<close> the record \<open>c\<close> it found is dead and still in the sender's list (no compaction has
  run: the list holds the same records), the scan finds nothing, and \<open>connect\<close> with the same
  arguments returns \<open>true\<close> and makes a new connection.  An emission of the signal that
  returns normally, and during which the new connection is not disconnected, then invokes
  the callback exactly once.
\<close>

theorem reconnect_after_disconnect:
  assumes "wf_state st" "disconnect s g cb t st = Some (True, st1)"
  shows "(\<exists>c l. connection st s g cb t = Some (Some c) \<and> senderMap st1 s = Some l
             \<and> nodes st1 l = nodes st l \<and> c \<in> set (nodes st1 l) \<and> \<not> live st1 c)
       \<and> connection st1 s g cb t = Some None
       \<and> connect s g cb t st1 = Some (True, make_connection s g cb t st1)
       \<and> connection (make_connection s g cb t st1) s g cb t = Some (Some (nextConn st1))
       \<and> (emit (run_callback n p) s g a (make_connection s g cb t st1) = Some (Returned, evs, st3)
            \<and> live st3 (nextConn st1)
            \<longrightarrow> count_list (map callee evs) (cb, coerce t) = 1)"
proof -
  from disconnect_True_effect(1)[OF assms] obtain c l where
    conn: "connection st s g cb t = Some (Some c)" and l: "senderMap st s = Some l"
    and k: "killed {c} st st1" and c: "c \<in> set (nodes st l)" by blast
  have wf1: "wf_state st1" using killed_wf[OF k assms(1)] .
  have a: "\<exists>c l. connection st s g cb t = Some (Some c) \<and> senderMap st1 s = Some l
             \<and> nodes st1 l = nodes st l \<and> c \<in> set (nodes st1 l) \<and> \<not> live st1 c"
    using conn l c killedD(2)[OF k] killed_nodes[OF k] killed_live[OF k, of c] by auto
  have none: "connection st1 s g cb t = Some None" by (rule disconnect_True_effect(2)[OF assms])
  have cn: "connect s g cb t st1 = Some (True, make_connection s g cb t st1)"
    using none by (rule connect_new)
  have wf2: "wf_state (make_connection s g cb t st1)" using connect_wf[OF wf1 cn] by simp
  have c2: "connection (make_connection s g cb t st1) s g cb t = Some (Some (nextConn st1))"
    by (rule connect_True_connection[OF wf1 cn])
  have "count_list (map callee evs) (cb, coerce t) = 1"
    if "emit (run_callback n p) s g a (make_connection s g cb t st1) = Some (Returned, evs, st3)"
      "live st3 (nextConn st1)"
    using emit_invokes_connected(2)[OF run_callback_preserves_wf wf2 c2 that(1)] that(2) by simp
  with a none cn c2 show ?thesis by blast
qed

theorem reconnect_after_disconnect_witness:
  "wf_state one_connection
   \<and> disconnect 7 1 3 Undefined one_connection
       = Some (True, clear_conn 0 (removeFromSendersList 0 one_connection))
   \<and> connection one_connection 7 1 3 Undefined = Some (Some 0)
   \<and> nodes (clear_conn 0 (removeFromSendersList 0 one_connection)) 0 = [0]
   \<and> \<not> live (clear_conn 0 (removeFromSendersList 0 one_connection)) 0
   \<and> connect 7 1 3 Undefined (clear_conn 0 (removeFromSendersList 0 one_connection))
       = Some (True, make_connection 7 1 3 Undefined (clear_conn 0 (removeFromSendersList 0 one_connection)))
   \<and> (case emit (run_callback 1 idle) 7 1 5
              (make_connection 7 1 3 Undefined (clear_conn 0 (removeFromSendersList 0 one_connection))) of
         None \<Rightarrow> False
       | Some (out, evs, st3) \<Rightarrow>
           out = Returned \<and> live st3 1 \<and> count_list (map callee evs) (3, Undefined) = 1)"
proof -
  let ?st1 = "clear_conn 0 (removeFromSendersList 0 one_connection)"
  have c0: "connect 7 1 3 Undefined init = Some (True, one_connection)"
    by (simp add: connect_connection connection_def one_connection_def init_def receiver_of_def coerce_def)
  have h1: "wf_state one_connection" using connect_wf[OF init_wf c0] by simp
  have f: "connection one_connection 7 1 3 Undefined = Some (Some 0)" by code_simp
  then have h2: "disconnect 7 1 3 Undefined one_connection = Some (True, ?st1)"
    by (simp add: disconnect_connection)
  have n: "nodes ?st1 0 = [0]" "\<not> live ?st1 0" "nextConn ?st1 = 1" by code_simp+
  have e: "case emit (run_callback 1 idle) 7 1 5 (make_connection 7 1 3 Undefined ?st1) of
         None \<Rightarrow> False | Some (out, evs, st3) \<Rightarrow> out = Returned \<and> live st3 1"
    by code_simp
  then obtain evs st3 where
    r: "emit (run_callback 1 idle) 7 1 5 (make_connection 7 1 3 Undefined ?st1) = Some (Returned, evs, st3)"
    and l: "live st3 1"
    by (auto split: option.splits)
  from reconnect_after_disconnect[OF h1 h2, of 1 idle 5 evs st3] r l n(3)
  have "connect 7 1 3 Undefined ?st1 = Some (True, make_connection 7 1 3 Undefined ?st1)"
    "count_list (map callee evs) (3, Undefined) = 1"
    by (simp_all add: coerce_def)
  with h1 h2 f n r l show ?thesis by simp
qed

lemma wf_senderMap_inj: "wf_state st \<Longrightarrow> senderMap st s = Some l \<Longrightarrow> senderMap st s' = Some l \<Longrightarrow> s' = s"
  unfolding wf_state_def by blast

lemma subscribes_evolves:
  assumes e: "evolves st st'" and c: "c < nextConn st" and s: "subscribes st' c g cb t"
  shows "subscribes st c g cb t"
proof -
  from s have l: "live st' c" by (simp add: subscribes_def live_def)
  from evolves_live[OF e c l] s show ?thesis
    by (auto simp: subscribes_def live_def key_of_def)
qed

text \<open>
  C2.  An emission of signal \<open>g\<close> on sender \<open>s\<close> is in progress: it walks the list \<open>l\<close>, which
  is the list of \<open>s\<close> (or was, before a callback tore the sender down), and the records \<open>rem\<close>
  are what is left of the walk, from the cursor to the \<open>last\<close> read when it began.  A
  callback invoked by it calls \<open>disconnect\<close>, which returns \<open>true\<close>; the callbacks go on to do
  anything else (the operations \<open>xs\<close>), and the walk resumes.  Then the record of the
  disconnected connection is dead and still in the sender's list, and the rest of the walk
  does not invoke the disconnected callback with that context.
\<close>

theorem disconnected_during_emit:
  assumes "wf_state st"
    and "l < nextList st" "0 < refs (lists st l)" "nodes st l = pre @ rem @ post" "rem \<noteq> []"
    and "\<forall>s'. senderMap st s' = Some l \<longrightarrow> s' = s"
    and "disconnect s g cb t st = Some (True, st1)"
    and "exec_all (run_callback n p) xs st1 = Some (out0, evs0, st2)"
    and "invokeList_loop (run_callback m q) (Some (last rem)) s g a dirty evs (Some (hd rem)) st2
           = Some (out, dirty', evs', st3)"
  shows "(\<exists>c k. connection st s g cb t = Some (Some c) \<and> senderMap st1 s = Some k
              \<and> c \<in> set (nodes st1 k) \<and> \<not> live st1 c)
       \<and> (\<exists>new. evs' = evs @ new \<and> (cb, coerce t) \<notin> set (map callee new))"
proof -
  note wf = assms(1) and l = assms(2) and pos = assms(3) and n = assms(4) and own = assms(6)
  from disconnect_True_effect(1)[OF wf assms(7)] obtain c k where
    conn: "connection st s g cb t = Some (Some c)" and k: "senderMap st s = Some k"
    and kd: "killed {c} st st1" and ck: "c \<in> set (nodes st k)" by blast
  have wf1: "wf_state st1" using killed_wf[OF kd wf] .
  have e1: "evolves st st1" using killed_evolves[OF kd] .
  have dead1: "\<not> live st1 c" using killed_live[OF kd, of c] by simp
  have part1: "\<exists>c k. connection st s g cb t = Some (Some c) \<and> senderMap st1 s = Some k
              \<and> c \<in> set (nodes st1 k) \<and> \<not> live st1 c"
    using conn k ck dead1 killedD(2)[OF kd] killed_nodes[OF kd] by auto
  from exec_all_inv[OF run_callback_preserves_wf wf1 assms(8)]
  have wf2: "wf_state st2" and e2: "evolves st1 st2" by simp_all
  have e: "evolves st st2" using evolves_trans[OF e1 e2] .
  have l2: "l < nextList st2" using evolves_nextList[OF e l] .
  have pos2: "0 < refs (lists st2 l)" using evolves_refs[OF e l] pos by simp
  from evolves_nodes[OF e l pos] obtain ys where
    n2: "nodes st2 l = pre @ rem @ (post @ ys)" using n by auto
  from invokeList_loop_inv[OF run_callback_preserves_wf wf2 l2 pos2 n2 assms(5) assms(9)]
  obtain new where new: "evs' = evs @ new"
    and pr: "pass_result st2 rem g s a dirty out dirty' new st3" by blast
  have ok: "list_ok st l" using wf l by (rule wf_list_ok)
  have "\<not> subscribes st2 y g cb (coerce t)" if y: "y \<in> set rem" for y
  proof
    assume sb2: "subscribes st2 y g cb (coerce t)"
    have yl: "y \<in> set (nodes st l)" using y n by simp
    then have yb: "y < nextConn st" using ok by (simp add: list_ok_def)
    have sb: "subscribes st y g cb (coerce t)" using subscribes_evolves[OF e yb sb2] .
    show False
    proof (cases "k = l")
      case True
      with connection_found_iff[OF wf k, of g cb t y] yl sb conn have "y = c" by simp
      moreover have "c < nextConn st1" using yb \<open>y = c\<close> killedD(3)[OF kd] by simp
      moreover have "live st2 y" using sb2 by (simp add: subscribes_def live_def)
      ultimately show False using evolves_live(1)[OF e2, of c] dead1 by blast
    next
      case False
      have "senderMap st s' \<noteq> Some l" for s'
      proof
        assume "senderMap st s' = Some l"
        with own have "s' = s" by blast
        with \<open>senderMap st s' = Some l\<close> k False show False by simp
      qed
      from detached_deadD[OF wf_detached[OF wf] l this yl] sb show False
        by (simp add: subscribes_def live_def)
    qed
  qed
  from pass_result_absent[OF pr this] new part1 show ?thesis by blast
qed

theorem disconnected_during_emit_witness:
  "wf_state remover_state
   \<and> 0 < nextList remover_state \<and> 0 < refs (lists remover_state 0)
   \<and> nodes remover_state 0 = [0, 1] @ [2] @ [] \<and> [2::nat] \<noteq> []
   \<and> senderMap remover_state 7 = Some 0
   \<and> disconnect 7 1 13 (Obj 3) remover_state
        = Some (True, clear_conn 2 (removeFromSendersList 2 remover_state))
   \<and> exec_all (run_callback 1 remover) [] (clear_conn 2 (removeFromSendersList 2 remover_state))
        = Some (Returned, [], clear_conn 2 (removeFromSendersList 2 remover_state))
   \<and> invokeList_loop (run_callback 1 remover) (Some (last [2])) 7 1 5 False [] (Some (hd [2]))
          (clear_conn 2 (removeFromSendersList 2 remover_state))
        = Some (Returned, True, [], clear_conn 2 (removeFromSendersList 2 remover_state))
   \<and> connection remover_state 7 1 13 (Obj 3) = Some (Some 2)
   \<and> senderMap (clear_conn 2 (removeFromSendersList 2 remover_state)) 7 = Some 0
   \<and> 2 \<in> set (nodes (clear_conn 2 (removeFromSendersList 2 remover_state)) 0)
   \<and> \<not> live (clear_conn 2 (removeFromSendersList 2 remover_state)) 2"
proof -
  let ?st1 = "clear_conn 2 (removeFromSendersList 2 remover_state)"
  have "exec_all (run_callback 0 idle)
             [Connect 7 1 11 (Obj 1), Connect 7 1 20 (Obj 4), Connect 7 1 13 (Obj 3)] init \<noteq> None"
    by code_simp
  then obtain out0 evs0 st0 where
    x: "exec_all (run_callback 0 idle)
             [Connect 7 1 11 (Obj 1), Connect 7 1 20 (Obj 4), Connect 7 1 13 (Obj 3)] init
       = Some (out0, evs0, st0)"
    and rs: "remover_state = upd_list 0 (\<lambda>r. r\<lparr>refs := refs r + 1\<rparr>) st0"
    by (auto simp: remover_state_def)
  from exec_all_inv[OF run_callback_preserves_wf init_wf x] have wf0: "wf_state st0" by simp
  have "0 < nextList remover_state" by code_simp
  then have "0 < nextList st0" unfolding rs by simp
  from wf_list_ok[OF wf0 this] have r0: "0 \<le> refs (lists st0 0)" by (simp add: list_ok_def)
  have h1: "wf_state remover_state" unfolding rs using wf0 r0 by (intro upd_refs_wf) simp_all
  have h2: "0 < nextList remover_state" "0 < refs (lists remover_state 0)"
    "nodes remover_state 0 = [0, 1] @ [2] @ []" "[2::nat] \<noteq> []"
    by code_simp+
  have sm: "senderMap remover_state 7 = Some 0" by code_simp
  have h3: "\<forall>s'. senderMap remover_state s' = Some 0 \<longrightarrow> s' = 7"
    using wf_senderMap_inj[OF h1 sm] by blast
  have f: "connection remover_state 7 1 13 (Obj 3) = Some (Some 2)" by code_simp
  then have h4: "disconnect 7 1 13 (Obj 3) remover_state = Some (True, ?st1)"
    by (simp add: disconnect_connection)
  have h5: "exec_all (run_callback 1 remover) [] ?st1 = Some (Returned, [], ?st1)" by simp
  have h6: "invokeList_loop (run_callback 1 remover) (Some (last [2])) 7 1 5 False [] (Some (hd [2])) ?st1
        = Some (Returned, True, [], ?st1)"
    by (subst invokeList_loop.simps) (simp add: invoke_conn_def)
  have sm1: "senderMap ?st1 7 = Some 0" by code_simp
  from disconnected_during_emit[OF h1 h2 h3 h4 h5 h6] f
  have "senderMap ?st1 7 = Some 0 \<and> 2 \<in> set (nodes ?st1 0) \<and> \<not> live ?st1 2"
    using sm1 by auto
  with h1 h2 sm h4 h5 h6 f show ?thesis by simp
qed

section \<open>Emissions whose callbacks leave the registry alone\<close>

lemma unbump_bump:
  "upd_list l (\<lambda>r. r\<lparr>refs := refs r - 1\<rparr>) (upd_list l (\<lambda>r. r\<lparr>refs := refs r + 1\<rparr>) st) = st"
  by (simp add: upd_list_def)

lemma invoke_conn_quiet:
  assumes "subscriber st g c \<Longrightarrow>
      call (fst (key_of st c)) (snd (key_of st c)) s a st = Some (out, [], st)"
  shows "invoke_conn call s g a c d st =
     Some (if subscriber st g c then (out, d, [call_of st s a c], st)
           else (Returned, d \<or> \<not> live st c, [], st))"
proof (cases "live st c")
  case False
  then show ?thesis by (simp add: invoke_conn_dead subscriber_def)
next
  case True
  show ?thesis
  proof (cases "signal (conns st c) = Some g")
    case False
    with True show ?thesis by (simp add: invoke_conn_other subscriber_def)
  next
    case sg: True
    with True have sub: "subscriber st g c" by (simp add: subscriber_def)
    from True obtain cb where cb: "callback (conns st c) = Some cb" by (auto simp: live_def)
    from assms[OF sub] cb sg sub show ?thesis
      by (simp add: invoke_conn_def key_of_def call_of_def invocation_def)
  qed
qed

text \<open>A walk over connections whose callbacks all return and leave the registry alone.\<close>

lemma invokeList_loop_quiet:
  assumes quiet: "\<And>c. c \<in> set rem \<Longrightarrow> subscriber st g c \<Longrightarrow>
      call (fst (key_of st c)) (snd (key_of st c)) s a st = Some (Returned, [], st)"
    and ch: "chain (conns st) p (pre @ rem @ post)" and ne: "rem \<noteq> []"
  shows "invokeList_loop call (Some (last rem)) s g a d evs (Some (hd rem)) st =
     Some (Returned, d \<or> (\<exists>c\<in>set rem. \<not> live st c),
           evs @ map (call_of st s a) (filter (subscriber st g) rem), st)"
  using assms
proof (induction rem arbitrary: pre d evs)
  case Nil
  then show ?case by simp
next
  case (Cons c rem)
  have ic: "invoke_conn call s g a c d st =
     Some (if subscriber st g c then (Returned, d, [call_of st s a c], st)
           else (Returned, d \<or> \<not> live st c, [], st))"
    by (rule invoke_conn_quiet) (rule Cons.prems(1), simp_all)
  have dist: "distinct (pre @ (c # rem) @ post)" using chain_distinct[OF Cons.prems(2)] .
  show ?case
  proof (cases "rem = []")
    case True
    then show ?thesis
      by (subst invokeList_loop.simps) (auto simp: ic subscriber_def)
  next
    case False
    then have clast: "c \<noteq> last (c # rem)" using dist by auto
    from chain_next[OF Cons.prems(2)[simplified]] False
    have nx: "nextReceiver (conns st c) = Some (hd rem)" by (cases rem) simp_all
    have ch': "chain (conns st) p ((pre @ [c]) @ rem @ post)" using Cons.prems(2) by simp
    have q': "\<And>x. x \<in> set rem \<Longrightarrow> subscriber st g x \<Longrightarrow>
      call (fst (key_of st x)) (snd (key_of st x)) s a st = Some (Returned, [], st)"
      using Cons.prems(1) by simp
    note IH = Cons.IH[OF q' ch' False]
    show ?thesis
    proof (cases "subscriber st g c")
      case True
      then have lv: "live st c" by (simp add: subscriber_def)
      show ?thesis
        using clast False True lv
        by (subst invokeList_loop.simps) (simp add: ic nx IH)
    next
      case nsub: False
      show ?thesis
        using clast False nsub
        by (subst invokeList_loop.simps) (auto simp: ic nx IH)
    qed
  qed
qed

text \<open>A walk that meets a callback that throws, after callbacks that return.\<close>

lemma invokeList_loop_thrower:
  assumes quiet: "\<And>x. x \<in> set r1 \<Longrightarrow> subscriber st g x \<Longrightarrow>
      call (fst (key_of st x)) (snd (key_of st x)) s a st = Some (Returned, [], st)"
    and thrower: "subscriber st g c"
      "call (fst (key_of st c)) (snd (key_of st c)) s a st = Some (Thrown, [], st)"
    and ch: "chain (conns st) p (pre @ (r1 @ c # r2) @ post)"
    and e: "e = last (c # r2)" and h: "h = hd (r1 @ [c])"
  shows "invokeList_loop call (Some e) s g a d evs (Some h) st =
     Some (Thrown, d \<or> (\<exists>x\<in>set r1. \<not> live st x),
           evs @ map (call_of st s a) (filter (subscriber st g) r1) @ [call_of st s a c], st)"
  using quiet ch h
proof (induction r1 arbitrary: pre d evs h)
  case Nil
  have ic: "invoke_conn call s g a c d st = Some (Thrown, d, [call_of st s a c], st)"
    using invoke_conn_quiet[of st g c call s a Thrown d] thrower by simp
  show ?case using Nil.prems(3)
    by (subst invokeList_loop.simps) (simp add: ic)
next
  case (Cons y r1)
  have hy: "h = y" using Cons.prems(3) by simp
  have ic: "invoke_conn call s g a y d st =
     Some (if subscriber st g y then (Returned, d, [call_of st s a y], st)
           else (Returned, d \<or> \<not> live st y, [], st))"
    by (rule invoke_conn_quiet) (rule Cons.prems(1), simp_all)
  have dist: "distinct (pre @ ((y # r1) @ c # r2) @ post)" using chain_distinct[OF Cons.prems(2)] .
  then have ylast: "y \<noteq> e" unfolding e by auto
  from chain_next[of "conns st" p pre y "(r1 @ c # r2) @ post"] Cons.prems(2)
  have nx: "nextReceiver (conns st y) = Some (hd (r1 @ [c]))" by (cases r1) simp_all
  have ch': "chain (conns st) p ((pre @ [y]) @ (r1 @ c # r2) @ post)" using Cons.prems(2) by simp
  have q': "\<And>x. x \<in> set r1 \<Longrightarrow> subscriber st g x \<Longrightarrow>
      call (fst (key_of st x)) (snd (key_of st x)) s a st = Some (Returned, [], st)"
    using Cons.prems(1) by simp
  note IH = Cons.IH[OF q' ch' refl]
  show ?case
  proof (cases "subscriber st g y")
    case True
    then have lv: "live st y" by (simp add: subscriber_def)
    show ?thesis
      using ylast True lv unfolding hy
      by (subst invokeList_loop.simps) (simp add: ic nx IH)
  next
    case False
    show ?thesis
      using ylast False unfolding hy
      by (subst invokeList_loop.simps) (auto simp: ic nx IH)
  qed
qed

lemma upd_refs_key_of [simp]: "key_of (upd_list l f st) = key_of st"
  by (simp add: key_of_def fun_eq_iff)

lemma upd_refs_subscriber [simp]: "subscriber (upd_list l f st) = subscriber st"
  by (simp add: subscriber_def fun_eq_iff)

lemma upd_refs_call_of [simp]: "call_of (upd_list l f st) = call_of st"
  by (simp add: call_of_def fun_eq_iff)

lemma subscribers_alt:
  "subscribers st s g =
     (case senderMap st s of None \<Rightarrow> [] | Some l \<Rightarrow> filter (subscriber st g) (nodes st l))"
proof -
  have "subscriber st g = (\<lambda>c. live st c \<and> signal (conns st c) = Some g)"
    by (simp add: subscriber_def fun_eq_iff)
  then show ?thesis unfolding subscribers_def by (simp only:)
qed

lemma map_call_of: "map (call_of st s a) xs = map (invocation s a) (map (key_of st) xs)"
  by (simp add: call_of_def)

lemma compacted_refl: "compacted st st"
  by (simp add: compacted_def)

lemma compactedD:
  assumes "compacted st st'"
  shows "senderMap st' = senderMap st" "receiverMap st' = receiverMap st"
    "nextConn st' = nextConn st" "nextList st' = nextList st"
    "signal (conns st' x) = signal (conns st x)"
    "callback (conns st' x) = callback (conns st x)"
    "thisArg (conns st' x) = thisArg (conns st x)"
    "prevSender (conns st' x) = prevSender (conns st x)"
    "nextSender (conns st' x) = nextSender (conns st x)"
    "refs (lists st' l) = refs (lists st l)"
    "l < nextList st \<Longrightarrow> nodes st' l = nodes st l \<or> nodes st' l = filter (live st) (nodes st l)"
  using assms by (simp_all add: compacted_def)

lemma compacted_live: "compacted st st' \<Longrightarrow> live st' = live st"
  by (simp add: live_def fun_eq_iff compactedD)

lemma compacted_key_of: "compacted st st' \<Longrightarrow> key_of st' = key_of st"
  by (simp add: key_of_def fun_eq_iff compactedD)

lemma compacted_subscriber: "compacted st st' \<Longrightarrow> subscriber st' = subscriber st"
  by (simp add: subscriber_def fun_eq_iff compactedD compacted_live)

lemma compacted_subscribers:
  assumes c: "compacted st st'" and wf: "wf_state st"
  shows "subscribers st' s g = subscribers st s g"
proof (cases "senderMap st s")
  case None
  then show ?thesis by (simp add: subscribers_alt compactedD[OF c])
next
  case (Some l)
  have l: "l < nextList st" using wf Some by (rule wf_senderMap)
  have "filter (subscriber st g) (filter (live st) (nodes st l)) = filter (subscriber st g) (nodes st l)"
    by (auto simp: subscriber_def intro: filter_cong)
  with compactedD(11)[OF c l] have "filter (subscriber st g) (nodes st' l) = filter (subscriber st g) (nodes st l)"
    by auto
  then show ?thesis by (simp add: subscribers_alt compactedD[OF c] Some compacted_subscriber[OF c])
qed

lemma compacted_subscriptions:
  "compacted st st' \<Longrightarrow> wf_state st \<Longrightarrow> subscriptions st' s g = subscriptions st s g"
  by (simp add: subscriptions_def compacted_subscribers compacted_key_of)

lemma relinked_compacted:
  assumes wf: "wf_state st" and l: "l < nextList st"
    and r: "relinked l (set (nodes st l)) st st'"
    and n: "nodes st' l = filter (live st) (nodes st l)" and ok': "list_ok st' l"
  shows "compacted st st'"
  unfolding compacted_def
proof (intro conjI allI impI)
  fix k
  show "refs (lists st' k) = refs (lists st k)"
    using relinkedD(5,6)[OF r] by (cases "k = l") simp_all
  assume k: "k < nextList st"
  have sub: "set (nodes st' l) \<subseteq> set (nodes st l)" unfolding n by auto
  show "nodes st' k = nodes st k \<or> nodes st' k = filter (live st) (nodes st k)"
    using relinked_wf(2)[OF wf l r sub ok' k] n by (cases "k = l") simp_all
qed (simp_all add: relinkedD[OF r])

text \<open>An emission whose callbacks return and leave the registry alone.\<close>

lemma emit_quiet:
  assumes wf: "wf_state st"
    and quiet: "\<And>c st'. c \<in> set (subscribers st s g) \<Longrightarrow>
       call (fst (key_of st c)) (snd (key_of st c)) s a st' = Some (Returned, [], st')"
  shows "\<exists>st'. emit call s g a st = Some (Returned, map (invocation s a) (subscriptions st s g), st')
           \<and> wf_state st' \<and> compacted st st'"
proof (cases "senderMap st s")
  case None
  then show ?thesis using wf
    by (simp add: emit_def subscriptions_def subscribers_def compacted_refl)
next
  case (Some l)
  let ?sta = "upd_list l (\<lambda>r. r\<lparr>refs := refs r + 1\<rparr>) st"
  let ?evs = "map (invocation s a) (subscriptions st s g)"
  have l: "l < nextList st" using wf Some by (rule wf_senderMap)
  have ok: "list_ok st l" using wf l by (rule wf_list_ok)
  have ch: "chain (conns st) (first (lists st l)) (nodes st l)" using ok by (rule list_ok_chain)
  have evs: "?evs = map (call_of st s a) (filter (subscriber st g) (nodes st l))"
    by (simp add: subscriptions_def subscribers_alt Some call_of_def)
  have il: "invokeList call l s g a ?sta
      = Some (Returned, \<exists>c\<in>set (nodes st l). \<not> live st c, ?evs, ?sta)"
  proof (cases "nodes st l = []")
    case True
    with ch have "first (lists st l) = None" by simp
    then show ?thesis using True
      by (simp add: invokeList_def invokeList_loop.simps evs)
  next
    case False
    from chain_hd[OF ch] False
    have f: "first (lists st l) = Some (hd (nodes st l))" by (cases "nodes st l") simp_all
    from ok False have la: "last' (lists st l) = Some (last (nodes st l))"
      by (simp add: list_ok_def last_of_def)
    have cha: "chain (conns ?sta) (first (lists st l)) ([] @ nodes st l @ [])" using ch by simp
    have q: "\<And>c. c \<in> set (nodes st l) \<Longrightarrow> subscriber ?sta g c \<Longrightarrow>
        call (fst (key_of ?sta c)) (snd (key_of ?sta c)) s a ?sta = Some (Returned, [], ?sta)"
      using quiet by (simp add: subscribers_alt Some)
    from invokeList_loop_quiet[of "nodes st l" ?sta g call s a "first (lists st l)" "[]" "[]" False "[]",
        OF q cha False]
    show ?thesis by (simp add: invokeList_def f la evs)
  qed
  show ?thesis
  proof (cases "(\<exists>c\<in>set (nodes st l). \<not> live st c) \<and> refs (lists st l) = 0")
    case False
    then have "emit call s g a st = Some (Returned, ?evs, st)"
      by (auto simp: emit_def Some il unbump_bump)
    with wf show ?thesis by (simp add: compacted_refl)
  next
    case True
    from cleanList_effect[OF wf l] obtain std where
      cl: "cleanList l st = Some std" and rl: "relinked l (set (nodes st l)) st std"
      and nd: "nodes std l = filter (live st) (nodes st l)" and okd: "list_ok std l"
      by blast
    have e: "emit call s g a st = Some (Returned, ?evs, std)"
      using True by (auto simp: emit_def Some il unbump_bump cl)
    have sub: "set (nodes std l) \<subseteq> set (nodes st l)" unfolding nd by auto
    have "wf_state std" by (rule relinked_wf(1)[OF wf l rl sub okd])
    moreover have "compacted st std" by (rule relinked_compacted[OF wf l rl nd okd])
    ultimately show ?thesis using e by simp
  qed
qed

lemma filter_eq_appendE:
  assumes "filter P xs = r1 @ c # r2"
  shows "\<exists>n1 n2. xs = n1 @ c # n2 \<and> filter P n1 = r1 \<and> filter P n2 = r2 \<and> P c"
  using assms
proof (induction xs arbitrary: r1)
  case Nil
  then show ?case by simp
next
  case (Cons x xs)
  show ?case
  proof (cases "P x")
    case False
    with Cons.prems have "filter P xs = r1 @ c # r2" by simp
    from Cons.IH[OF this] obtain n1 n2 where
      "xs = n1 @ c # n2" "filter P n1 = r1" "filter P n2 = r2" "P c" by blast
    then have "x # xs = (x # n1) @ c # n2 \<and> filter P (x # n1) = r1 \<and> filter P n2 = r2 \<and> P c"
      using False by simp
    then show ?thesis by blast
  next
    case True
    show ?thesis
    proof (cases r1)
      case Nil
      with Cons.prems True have "x = c" "filter P xs = r2" by simp_all
      then have "x # xs = [] @ c # xs \<and> filter P [] = r1 \<and> filter P xs = r2 \<and> P c"
        using Nil True by simp
      then show ?thesis by blast
    next
      case (Cons y r1')
      with Cons.prems True have y: "y = x" and "filter P xs = r1' @ c # r2" by simp_all
      from Cons.IH[OF this(2)] obtain n1 n2 where
        "xs = n1 @ c # n2" "filter P n1 = r1'" "filter P n2 = r2" "P c" by blast
      then have "x # xs = (x # n1) @ c # n2 \<and> filter P (x # n1) = r1 \<and> filter P n2 = r2 \<and> P c"
        using True Cons y by simp
      then show ?thesis by blast
    qed
  qed
qed

text \<open>
  An emission in which a callback throws, after callbacks that return, all leaving the
  registry alone: the exception leaves \<open>emit\<close> and the registry is as before the call.
\<close>

lemma emit_thrower:
  assumes wf: "wf_state st" and sb: "subscribers st s g = r1 @ c # r2"
    and quiet: "\<And>x st'. x \<in> set r1 \<Longrightarrow>
       call (fst (key_of st x)) (snd (key_of st x)) s a st' = Some (Returned, [], st')"
    and thrower: "\<And>st'. call (fst (key_of st c)) (snd (key_of st c)) s a st' = Some (Thrown, [], st')"
  shows "emit call s g a st = Some (Thrown, map (call_of st s a) (r1 @ [c]), st)"
proof (cases "senderMap st s")
  case None
  with sb show ?thesis by (simp add: subscribers_def)
next
  case (Some l)
  let ?sta = "upd_list l (\<lambda>r. r\<lparr>refs := refs r + 1\<rparr>) st"
  have l: "l < nextList st" using wf Some by (rule wf_senderMap)
  have ok: "list_ok st l" using wf l by (rule wf_list_ok)
  have ch: "chain (conns st) (first (lists st l)) (nodes st l)" using ok by (rule list_ok_chain)
  from sb have "filter (subscriber st g) (nodes st l) = r1 @ c # r2"
    by (simp add: subscribers_alt Some)
  from filter_eq_appendE[OF this] obtain n1 n2 where
    n: "nodes st l = n1 @ c # n2" and f1: "filter (subscriber st g) n1 = r1"
    and c: "subscriber st g c" by blast
  have ne: "nodes st l \<noteq> []" using n by simp
  from chain_hd[OF ch] ne
  have f: "first (lists st l) = Some (hd (nodes st l))" by (cases "nodes st l") simp_all
  from ok ne have la: "last' (lists st l) = Some (last (nodes st l))"
    by (simp add: list_ok_def last_of_def)
  have cha: "chain (conns ?sta) (first (lists st l)) ([] @ (n1 @ c # n2) @ [])"
    using ch n by simp
  have q: "\<And>x. x \<in> set n1 \<Longrightarrow> subscriber ?sta g x \<Longrightarrow>
        call (fst (key_of ?sta x)) (snd (key_of ?sta x)) s a ?sta = Some (Returned, [], ?sta)"
  proof -
    fix x assume "x \<in> set n1" "subscriber ?sta g x"
    then have "x \<in> set r1" unfolding f1[symmetric] by simp
    from quiet[OF this] show "call (fst (key_of ?sta x)) (snd (key_of ?sta x)) s a ?sta = Some (Returned, [], ?sta)"
      by simp
  qed
  have e: "last (nodes st l) = last (c # n2)" unfolding n by simp
  have h: "hd (nodes st l) = hd (n1 @ [c])" unfolding n by (cases n1) simp_all
  have "invokeList call l s g a ?sta
      = Some (Thrown, \<exists>x\<in>set n1. \<not> live st x, map (call_of st s a) (r1 @ [c]), ?sta)"
    using invokeList_loop_thrower[of n1 ?sta g call s a c "first (lists st l)" "[]" n2 "[]"
        "last (nodes st l)" "hd (nodes st l)" False "[]", OF q _ _ cha e h] c thrower
    by (simp add: invokeList_def f la f1)
  then show ?thesis
    by (simp add: emit_def Some unbump_bump)
qed

text \<open>An emission whose callbacks return and leave the registry alone, exactly.\<close>

lemma emit_quiet_exact:
  assumes wf: "wf_state st" and Some: "senderMap st s = Some l"
    and quiet: "\<And>c st'. c \<in> set (subscribers st s g) \<Longrightarrow>
       call (fst (key_of st c)) (snd (key_of st c)) s a st' = Some (Returned, [], st')"
  shows "emit call s g a st =
     (if (\<exists>c\<in>set (nodes st l). \<not> live st c) \<and> refs (lists st l) = 0
      then (case cleanList l st of None \<Rightarrow> None
            | Some st' \<Rightarrow> Some (Returned, map (invocation s a) (subscriptions st s g), st'))
      else Some (Returned, map (invocation s a) (subscriptions st s g), st))"
proof -
  let ?sta = "upd_list l (\<lambda>r. r\<lparr>refs := refs r + 1\<rparr>) st"
  let ?evs = "map (invocation s a) (subscriptions st s g)"
  have l: "l < nextList st" using wf Some by (rule wf_senderMap)
  have ok: "list_ok st l" using wf l by (rule wf_list_ok)
  have ch: "chain (conns st) (first (lists st l)) (nodes st l)" using ok by (rule list_ok_chain)
  have evs: "?evs = map (call_of st s a) (filter (subscriber st g) (nodes st l))"
    by (simp add: subscriptions_def subscribers_alt Some call_of_def)
  have il: "invokeList call l s g a ?sta
      = Some (Returned, \<exists>c\<in>set (nodes st l). \<not> live st c, ?evs, ?sta)"
  proof (cases "nodes st l = []")
    case True
    with ch have "first (lists st l) = None" by simp
    then show ?thesis using True
      by (simp add: invokeList_def invokeList_loop.simps evs)
  next
    case False
    from chain_hd[OF ch] False
    have f: "first (lists st l) = Some (hd (nodes st l))" by (cases "nodes st l") simp_all
    from ok False have la: "last' (lists st l) = Some (last (nodes st l))"
      by (simp add: list_ok_def last_of_def)
    have cha: "chain (conns ?sta) (first (lists st l)) ([] @ nodes st l @ [])" using ch by simp
    have q: "\<And>c. c \<in> set (nodes st l) \<Longrightarrow> subscriber ?sta g c \<Longrightarrow>
        call (fst (key_of ?sta c)) (snd (key_of ?sta c)) s a ?sta = Some (Returned, [], ?sta)"
      using quiet by (simp add: subscribers_alt Some)
    from invokeList_loop_quiet[of "nodes st l" ?sta g call s a "first (lists st l)" "[]" "[]" False "[]",
        OF q cha False]
    show ?thesis by (simp add: invokeList_def f la evs)
  qed
  show ?thesis
    by (auto simp: emit_def Some il unbump_bump)
qed

text \<open>An emission on a sender whose list holds dead connections only.\<close>

lemma emit_all_dead:
  assumes wf: "wf_state st" and l: "senderMap st s = Some l" and z: "refs (lists st l) = 0"
    and ne: "nodes st l \<noteq> []" and dead: "\<forall>c\<in>set (nodes st l). \<not> live st c"
  shows "\<exists>st'. emit call s g a st = Some (Returned, [], st') \<and> cleanList l st = Some st'
           \<and> senderMap st' s = Some l \<and> nodes st' l = []
           \<and> first (lists st' l) = None \<and> last' (lists st' l) = None \<and> wf_state st'"
proof -
  have ln: "l < nextList st" using wf l by (rule wf_senderMap)
  have sb: "subscribers st s g = []" using dead by (simp add: subscribers_def l)
  from ne dead have d: "\<exists>c\<in>set (nodes st l). \<not> live st c" by (cases "nodes st l") auto
  from cleanList_effect[OF wf ln] obtain std where
    cl: "cleanList l st = Some std" and rl: "relinked l (set (nodes st l)) st std"
    and nd: "nodes std l = filter (live st) (nodes st l)" and okd: "list_ok std l"
    by blast
  have e: "emit call s g a st = Some (Returned, [], std)"
    using emit_quiet_exact[OF wf l, of g call a] sb d z cl by (simp add: subscriptions_def)
  have n: "nodes std l = []" unfolding nd using dead by simp
  have sub: "set (nodes std l) \<subseteq> set (nodes st l)" unfolding nd by auto
  have wfd: "wf_state std" by (rule relinked_wf(1)[OF wf ln rl sub okd])
  have "first (lists std l) = None" "last' (lists std l) = None"
    using okd n by (simp_all add: list_ok_def last_of_def)
  with e cl n wfd relinkedD(1)[OF rl] l show ?thesis by simp
qed

lemma connect_empty_list:
  assumes wf: "wf_state st" and l: "senderMap st s = Some l" and n: "nodes st l = []"
  shows "\<exists>st'. connect s g cb t st = Some (True, st') \<and> senderMap st' s = Some l
            \<and> nodes st' l = [nextConn st]"
proof -
  have "connection st s g cb t = Some None"
    using connection_not_found_iff[OF wf l, of g cb t] n by simp
  then have c: "connect s g cb t st = Some (True, make_connection s g cb t st)" by (rule connect_new)
  from connect_appended[OF wf c] obtain l' where a: "appended st s g cb (coerce t) l' (make_connection s g cb t st)"
    by blast
  from appendedD(4)[OF a l] have "l' = l" "nodes (make_connection s g cb t st) l' = nodes st l' @ [nextConn st]"
    by blast+
  then have "nodes (make_connection s g cb t st) l = [nextConn st]" using n by simp
  moreover have "senderMap (make_connection s g cb t st) s = Some l"
    using appendedD(2)[OF a] \<open>l' = l\<close> by simp
  ultimately show ?thesis using c by simp
qed

lemma disconnectSender_senderMap:
  assumes wf: "wf_state st"
  shows "\<exists>st'. disconnectSender s st = Some st' \<and> senderMap st' = (senderMap st)(s := None)"
  using disconnectSender_effect[OF wf, of s] by auto

text \<open>
  C6, as amended.  The compaction after an emission never removes the entry of the sender:
  when the list of a sender holds dead connections only and no other emission is walking
  it, \<open>emit\<close> invokes nothing, compacts the list, and leaves the sender mapped to the same
  list, now empty (\<open>first\<close> and \<open>last\<close> are \<open>null\<close>); the next \<open>connect\<close> on the sender reuses
  that list.  The entry is removed by \<open>disconnectSender\<close>.
\<close>

theorem cleanList_keeps_sender_entry:
  assumes "wf_state st" "senderMap st s = Some l" "refs (lists st l) = 0"
    and "nodes st l \<noteq> []" "\<forall>c\<in>set (nodes st l). \<not> live st c"
  shows "\<exists>st'. emit (run_callback n p) s g a st = Some (Returned, [], st')
           \<and> cleanList l st = Some st'
           \<and> senderMap st' s = Some l \<and> nodes st' l = []
           \<and> first (lists st' l) = None \<and> last' (lists st' l) = None
           \<and> (\<exists>st2. connect s g' cb t st' = Some (True, st2) \<and> senderMap st2 s = Some l
                  \<and> nodes st2 l = [nextConn st'])
           \<and> (\<exists>st3. disconnectSender s st' = Some st3 \<and> senderMap st3 s = None)"
proof -
  from emit_all_dead[OF assms, of "run_callback n p" g a] obtain st' where
    e: "emit (run_callback n p) s g a st = Some (Returned, [], st')" "cleanList l st = Some st'"
      "senderMap st' s = Some l" "nodes st' l = []"
      "first (lists st' l) = None" "last' (lists st' l) = None" and wf': "wf_state st'"
    by blast
  from connect_empty_list[OF wf' e(3,4), of g' cb t] disconnectSender_senderMap[OF wf', of s] e
  show ?thesis by auto
qed

theorem cleanList_keeps_sender_entry_witness:
  "wf_state dead_connection \<and> senderMap dead_connection 7 = Some 0
   \<and> refs (lists dead_connection 0) = 0 \<and> nodes dead_connection 0 = [0]
   \<and> \<not> live dead_connection 0
   \<and> (case emit (run_callback 1 idle) 7 1 5 dead_connection of
         None \<Rightarrow> False
       | Some (out, evs, st') \<Rightarrow>
           out = Returned \<and> evs = [] \<and> senderMap st' 7 = Some 0 \<and> nodes st' 0 = []
           \<and> first (lists st' 0) = None \<and> last' (lists st' 0) = None)"
proof -
  have c0: "connect 7 1 3 Undefined init = Some (True, one_connection)"
    by (simp add: connect_connection connection_def one_connection_def init_def receiver_of_def coerce_def)
  have w1: "wf_state one_connection" using connect_wf[OF init_wf c0] by simp
  have f: "connection one_connection 7 1 3 Undefined = Some (Some 0)" by code_simp
  then have d: "disconnect 7 1 3 Undefined one_connection = Some (True, dead_connection)"
    by (simp add: disconnect_connection dead_connection_def)
  have h1: "wf_state dead_connection" using disconnect_wf[OF w1 d] by simp
  have h: "senderMap dead_connection 7 = Some 0" "refs (lists dead_connection 0) = 0"
    "nodes dead_connection 0 = [0]" "\<not> live dead_connection 0" by code_simp+
  have ne: "nodes dead_connection 0 \<noteq> []"
    and dd: "\<forall>c\<in>set (nodes dead_connection 0). \<not> live dead_connection c"
    using h(3,4) by simp_all
  from cleanList_keeps_sender_entry[OF h1 h(1,2) ne dd, of 1 idle 1 5]
  obtain st' where e: "emit (run_callback 1 idle) 7 1 5 dead_connection = Some (Returned, [], st')"
    and r: "senderMap st' 7 = Some 0" "nodes st' 0 = []"
    "first (lists st' 0) = None" "last' (lists st' 0) = None" by blast
  show ?thesis unfolding e using h1 h r by simp
qed

text \<open>
  C6, as stated, fails.  Sender 7 has one connection; it is disconnected, and the next
  emission on sender 7 finds no live connection in the list and compacts it: the list is
  empty (the run has returned: one connection was allocated), and sender 7 is still
  mapped to it.
\<close>

theorem sender_entry_not_removed:
  "nextConn compacted_state = 1 \<and> nodes compacted_state 0 = []
   \<and> first (lists compacted_state 0) = None \<and> senderMap compacted_state 7 = Some 0"
  by code_simp

section \<open>The subscriptions of a signal\<close>

lemma subscriber_subscribes:
  "subscriber st g c \<Longrightarrow> key_of st c = (cb, t) \<Longrightarrow> subscribes st c g cb t"
  by (simp add: subscriber_def subscribes_key)

lemma subscribes_subscriber:
  "subscribes st c g cb t \<Longrightarrow> subscriber st g c \<and> key_of st c = (cb, t)"
  using subscribes_keyD[of st c g cb t] by (simp add: subscriber_def)

text \<open>Two subscribers of a signal of a sender differ in callback or context.\<close>

lemma subscribers_key_inj:
  assumes wf: "wf_state st" and x: "x \<in> set (subscribers st s g)" and y: "y \<in> set (subscribers st s g)"
    and k: "key_of st x = key_of st y"
  shows "x = y"
proof (cases "senderMap st s")
  case None
  with x show ?thesis by (simp add: subscribers_def)
next
  case (Some l)
  have ok: "list_ok st l" using wf Some by (auto intro: wf_list_ok wf_senderMap)
  from x y Some have m: "x \<in> set (nodes st l)" "y \<in> set (nodes st l)"
    and sx: "subscriber st g x" and sy: "subscriber st g y"
    by (simp_all add: subscribers_alt)
  have "live st x" "same_key st x y"
    using sx sy k by (auto simp: subscriber_def same_key_def key_of_def live_def)
  with ok m show ?thesis unfolding list_ok_def by blast
qed

lemma subscribers_distinct:
  assumes wf: "wf_state st"
  shows "distinct (subscribers st s g)"
proof (cases "senderMap st s")
  case None
  then show ?thesis by (simp add: subscribers_def)
next
  case (Some l)
  have ok: "list_ok st l" using wf Some by (auto intro: wf_list_ok wf_senderMap)
  from chain_distinct[OF list_ok_chain[OF ok]] show ?thesis
    by (simp add: subscribers_alt Some)
qed

lemma subscriptions_distinct:
  assumes wf: "wf_state st"
  shows "distinct (subscriptions st s g)"
  unfolding subscriptions_def distinct_map
  using subscribers_distinct[OF wf] subscribers_key_inj[OF wf]
  by (auto simp: inj_on_def)

lemma subscriptions_mem:
  assumes wf: "wf_state st"
  shows "((cb, coerce t) \<in> set (subscriptions st s g)) = (\<exists>c. connection st s g cb t = Some (Some c))"
proof (cases "senderMap st s")
  case None
  then show ?thesis by (simp add: subscriptions_def subscribers_def connection_def)
next
  case (Some l)
  have "((cb, coerce t) \<in> set (subscriptions st s g))
      = (\<exists>c\<in>set (nodes st l). subscribes st c g cb (coerce t))"
  proof
    assume "(cb, coerce t) \<in> set (subscriptions st s g)"
    then obtain x where "x \<in> set (nodes st l)" "subscriber st g x" "key_of st x = (cb, coerce t)"
      unfolding subscriptions_def subscribers_alt Some by auto
    then show "\<exists>c\<in>set (nodes st l). subscribes st c g cb (coerce t)"
      using subscriber_subscribes by blast
  next
    assume "\<exists>c\<in>set (nodes st l). subscribes st c g cb (coerce t)"
    then obtain c where "c \<in> set (nodes st l)" "subscriber st g c" "key_of st c = (cb, coerce t)"
      using subscribes_subscriber by blast
    then have "c \<in> set (subscribers st s g)" by (simp add: subscribers_alt Some)
    with \<open>key_of st c = (cb, coerce t)\<close> show "(cb, coerce t) \<in> set (subscriptions st s g)"
      unfolding subscriptions_def by force
  qed
  then show ?thesis using connection_found_iff[OF wf Some, of g cb t] by blast
qed

lemma connection_cases:
  assumes wf: "wf_state st"
  shows "connection st s g cb t = (if (cb, coerce t) \<in> set (subscriptions st s g)
           then connection st s g cb t else Some None)"
    and "(cb, coerce t) \<in> set (subscriptions st s g) \<Longrightarrow> \<exists>c. connection st s g cb t = Some (Some c)"
proof -
  show "(cb, coerce t) \<in> set (subscriptions st s g) \<Longrightarrow> \<exists>c. connection st s g cb t = Some (Some c)"
    using subscriptions_mem[OF wf] by blast
  have "connection st s g cb t = Some None" if "(cb, coerce t) \<notin> set (subscriptions st s g)"
  proof -
    from connection_wf[OF wf, of s g cb t] obtain r where r: "connection st s g cb t = Some r" by blast
    with that subscriptions_mem[OF wf, of cb t s g] show ?thesis by (cases r) auto
  qed
  then show "connection st s g cb t = (if (cb, coerce t) \<in> set (subscriptions st s g)
           then connection st s g cb t else Some None)" by simp
qed

lemma map_filter_old:
  assumes "\<And>x. x \<in> set xs \<Longrightarrow> P' x = P x \<and> f' x = f x"
  shows "map f' (filter P' xs) = map f (filter P xs)"
proof -
  have "filter P' xs = filter P xs" using assms by (intro filter_cong) auto
  then show ?thesis using assms by (auto intro: map_cong)
qed

text \<open>A successful \<open>connect\<close> adds the subscription at the tail, and changes nothing else.\<close>

lemma connect_True_subscriptions:
  assumes wf: "wf_state st" and c: "connect s g cb t st = Some (True, st')"
  shows "subscriptions st' s' g' =
     (if s' = s \<and> g' = g then subscriptions st s g @ [(cb, coerce t)] else subscriptions st s' g')"
proof -
  from connect_appended[OF wf c] obtain l where a: "appended st s g cb (coerce t) l st'" by blast
  let ?c = "nextConn st"
  have old: "map (key_of st') (filter (subscriber st' g') (nodes st k))
      = map (key_of st) (filter (subscriber st g') (nodes st k))" if k: "k < nextList st" for k
  proof (rule map_filter_old)
    fix x assume "x \<in> set (nodes st k)"
    then have "x \<noteq> ?c" using wf_nodes_bound[OF wf k, of x] by auto
    from appended_old(1,2)[OF a this] appendedD(6)[OF a this]
    show "subscriber st' g' x = subscriber st g' x \<and> key_of st' x = key_of st x"
      by (simp add: subscriber_def)
  qed
  have new: "subscriber st' g' ?c = (g' = g)" "key_of st' ?c = (cb, coerce t)"
    using appended_new[OF a] by (auto simp: subscriber_def)
  show ?thesis
  proof (cases "s' = s")
    case True
    have l': "senderMap st' s = Some l" using appendedD(2)[OF a] by simp
    show ?thesis
    proof (cases "senderMap st s")
      case None
      from appendedD(3)[OF a None] have "nodes st' l = [?c]" by blast
      then show ?thesis using True None new
        by (simp add: subscriptions_def subscribers_alt l')
    next
      case (Some l0)
      from appendedD(4)[OF a Some] have e: "l = l0" and n: "nodes st' l = nodes st l @ [?c]"
        by blast+
      have k: "l < nextList st" using wf Some e by (auto intro: wf_senderMap)
      show ?thesis using True Some e n new old[OF k]
        by (simp add: subscriptions_def subscribers_alt l')
    qed
  next
    case False
    then have m: "senderMap st' s' = senderMap st s'" using appendedD(2)[OF a] by simp
    show ?thesis
    proof (cases "senderMap st s'")
      case None
      then show ?thesis using False m by (simp add: subscriptions_def subscribers_alt)
    next
      case (Some k)
      have kn: "k < nextList st" using wf Some by (rule wf_senderMap)
      have "k \<noteq> l"
      proof (cases "senderMap st s")
        case None
        from appendedD(3)[OF a None] kn show ?thesis by auto
      next
        case (Some l0)
        from appendedD(4)[OF a Some] have "l = l0" by blast
        with Some \<open>senderMap st s' = Some k\<close> False wf_senderMap_inj[OF wf, of s k s'] show ?thesis
          by auto
      qed
      from appendedD(5)[OF a kn this] have "nodes st' k = nodes st k" by simp
      then show ?thesis using False m Some old[OF kn]
        by (simp add: subscriptions_def subscribers_alt)
    qed
  qed
qed

text \<open>A successful \<open>disconnect\<close> removes the subscription, and changes nothing else.\<close>

lemma disconnect_True_subscriptions:
  assumes wf: "wf_state st" and d: "disconnect s g cb t st = Some (True, st1)"
  shows "subscriptions st1 s' g' =
     (if s' = s \<and> g' = g then removeAll (cb, coerce t) (subscriptions st s g)
      else subscriptions st s' g')"
proof -
  from disconnect_True_effect(1)[OF wf d] obtain c l where
    conn: "connection st s g cb t = Some (Some c)" and l: "senderMap st s = Some l"
    and k: "killed {c} st st1" and c: "c \<in> set (nodes st l)" by blast
  from connection_found_iff[OF wf l, of g cb t c] conn
  have sc: "subscribes st c g cb (coerce t)" by simp
  from subscribes_subscriber[OF sc] have sub: "subscriber st g c" and kc: "key_of st c = (cb, coerce t)"
    by simp_all
  have cs: "c \<in> set (subscribers st s g)" using c sub by (simp add: subscribers_alt l)
  have s1: "subscriber st1 g' x = (subscriber st g' x \<and> x \<noteq> c)" for x
    using killed_live[OF k, of x] killedD(5)[OF k, of x] by (auto simp: subscriber_def)
  have k1: "key_of st1 x = key_of st x" if "x \<noteq> c" for x
    using killedD(9,10)[OF k, of x] that by (simp add: key_of_def)
  have sbs: "subscribers st1 s' g' = filter (\<lambda>x. x \<noteq> c) (subscribers st s' g')"
  proof -
    have "subscriber st1 g' = (\<lambda>x. subscriber st g' x \<and> x \<noteq> c)" by (simp add: fun_eq_iff s1)
    then show ?thesis
      unfolding subscribers_alt killedD(2)[OF k] killed_nodes[OF k]
      by (cases "senderMap st s'") (simp_all add: conj_commute)
  qed
  have sps: "subscriptions st1 s' g' = map (key_of st) (filter (\<lambda>x. x \<noteq> c) (subscribers st s' g'))"
    unfolding subscriptions_def sbs by (rule map_cong) (simp_all add: k1)
  show ?thesis
  proof (cases "s' = s \<and> g' = g")
    case True
    have "map (key_of st) (filter (\<lambda>x. x \<noteq> c) (subscribers st s g))
        = filter (\<lambda>k. k \<noteq> key_of st c) (map (key_of st) (subscribers st s g))"
      unfolding filter_map comp_def
      using subscribers_key_inj[OF wf _ cs, of _] by (auto intro!: arg_cong[of _ _ "map (key_of st)"] filter_cong)
    then show ?thesis using True sps kc
      by (simp add: subscriptions_def removeAll_filter_not_eq) (metis (mono_tags, lifting) filter_cong)
  next
    case False
    have "c \<notin> set (subscribers st s' g')"
    proof
      assume m: "c \<in> set (subscribers st s' g')"
      then obtain l' where l': "senderMap st s' = Some l'" and cl: "c \<in> set (nodes st l')"
        and sg: "subscriber st g' c"
        by (cases "senderMap st s'") (auto simp: subscribers_alt)
      from sg sub have "g' = g" by (simp add: subscriber_def)
      moreover have "l' = l"
        using wf_disjoint[OF wf wf_senderMap[OF wf l'] wf_senderMap[OF wf l] _ cl] c by blast
      then have "s' = s" using wf_senderMap_inj[OF wf l, of s'] l' by simp
      ultimately show False using False by simp
    qed
    then have "filter (\<lambda>x. x \<noteq> c) (subscribers st s' g') = subscribers st s' g'"
      by (auto intro: filter_True)
    with sps have "subscriptions st1 s' g' = subscriptions st s' g'" by (simp add: subscriptions_def)
    with False show ?thesis by auto
  qed
qed

section \<open>A callback that throws\<close>

lemma run_callback_Nil: "p cb t s a = [] \<Longrightarrow> run_callback (Suc n) p cb t s a st = Some (Returned, [], st)"
  by simp

lemma run_callback_Throw:
  "p cb t s a = [Throw] \<Longrightarrow> run_callback (Suc n) p cb t s a st = Some (Thrown, [], st)"
  by simp

lemma map_eq_three:
  assumes "map f xs = [a, b, c]"
  shows "\<exists>x y z. xs = [x, y, z] \<and> f x = a \<and> f y = b \<and> f z = c"
  using assms by (auto simp: map_eq_Cons_conv)

lemma map_eq_two:
  assumes "map f xs = [a, b]"
  shows "\<exists>x y. xs = [x, y] \<and> f x = a \<and> f y = b"
  using assms by (auto simp: map_eq_Cons_conv)

lemma emit_second_throws:
  assumes wf: "wf_state st" and sb: "subscriptions st s g = [(cb1, t1), (cb2, t2), (cb3, t3)]"
    and p1: "p cb1 t1 s a = []" and p2: "p cb2 t2 s a = [Throw]"
  shows "emit (run_callback (Suc n) p) s g a st
           = Some (Thrown, [Call cb1 t1 s a [], Call cb2 t2 s a []], st)"
proof -
  from sb obtain x y z where xs: "subscribers st s g = [] @ [x] @ y # [z]"
    and k: "key_of st x = (cb1, t1)" "key_of st y = (cb2, t2)"
    unfolding subscriptions_def by (auto dest: map_eq_three)
  have "emit (run_callback (Suc n) p) s g a st = Some (Thrown, map (call_of st s a) ([x] @ [y]), st)"
  proof (rule emit_thrower[OF wf])
    show "subscribers st s g = [x] @ y # [z]" using xs by simp
    show "run_callback (Suc n) p (fst (key_of st c)) (snd (key_of st c)) s a st' = Some (Returned, [], st')"
      if "c \<in> set [x]" for c st'
      using that k(1) p1 by simp
    show "run_callback (Suc n) p (fst (key_of st y)) (snd (key_of st y)) s a st' = Some (Thrown, [], st')"
      for st'
      using k(2) p2 by simp
  qed
  then show ?thesis using k by (simp add: call_of_def invocation_def)
qed

lemma emit_two_idle:
  assumes wf: "wf_state st" and sb: "subscriptions st s g = [(cb1, t1), (cb3, t3)]"
    and p1: "p cb1 t1 s a = []" and p3: "p cb3 t3 s a = []"
  shows "\<exists>st'. emit (run_callback (Suc n) p) s g a st
           = Some (Returned, [Call cb1 t1 s a [], Call cb3 t3 s a []], st')"
proof -
  from sb obtain x z where xs: "subscribers st s g = [x, z]"
    and k: "key_of st x = (cb1, t1)" "key_of st z = (cb3, t3)"
    unfolding subscriptions_def by (auto dest: map_eq_two)
  have "\<exists>st'. emit (run_callback (Suc n) p) s g a st
      = Some (Returned, map (invocation s a) (subscriptions st s g), st') \<and> wf_state st' \<and> compacted st st'"
  proof (rule emit_quiet[OF wf])
    show "run_callback (Suc n) p (fst (key_of st c)) (snd (key_of st c)) s a st' = Some (Returned, [], st')"
      if "c \<in> set (subscribers st s g)" for c st'
      using that xs k p1 p3 by auto
  qed
  then show ?thesis by (auto simp: sb invocation_def)
qed

text \<open>
  C3.  Three callbacks are connected, in this order, to a signal of a sender that had no
  subscription; the second throws when invoked, the first and the third return.  Then
  \<open>emit\<close> invokes the first and the second and no other, and the exception leaves \<open>emit\<close>;
  the registry after the call is the one before it, so the counter of nested emissions
  has been decremented.  Once the second callback is disconnected, \<open>emit\<close> returns
  normally, having invoked the first and the third.
\<close>

theorem second_callback_throws:
  assumes "wf_state st0" "subscriptions st0 s g = []"
    and "connect s g cb1 t1 st0 = Some (True, st1)"
    and "connect s g cb2 t2 st1 = Some (True, st2)"
    and "connect s g cb3 t3 st2 = Some (True, st)"
    and "\<forall>a. p cb1 (coerce t1) s a = []" "\<forall>a. p cb2 (coerce t2) s a = [Throw]"
      "\<forall>a. p cb3 (coerce t3) s a = []"
  shows "emit (run_callback (Suc n) p) s g a st
           = Some (Thrown, [Call cb1 (coerce t1) s a [], Call cb2 (coerce t2) s a []], st)
       \<and> (\<exists>st' st''. disconnect s g cb2 t2 st = Some (True, st')
             \<and> emit (run_callback (Suc n) p) s g b st'
                 = Some (Returned, [Call cb1 (coerce t1) s b [], Call cb3 (coerce t3) s b []], st''))"
proof -
  have wf1: "wf_state st1" using connect_wf[OF assms(1,3)] by simp
  have wf2: "wf_state st2" using connect_wf[OF wf1 assms(4)] by simp
  have wf: "wf_state st" using connect_wf[OF wf2 assms(5)] by simp
  have sb: "subscriptions st s g = [(cb1, coerce t1), (cb2, coerce t2), (cb3, coerce t3)]"
    using connect_True_subscriptions[OF assms(1,3), of s g]
      connect_True_subscriptions[OF wf1 assms(4), of s g]
      connect_True_subscriptions[OF wf2 assms(5), of s g] assms(2)
    by simp
  have e1: "emit (run_callback (Suc n) p) s g a st
           = Some (Thrown, [Call cb1 (coerce t1) s a [], Call cb2 (coerce t2) s a []], st)"
    by (rule emit_second_throws[OF wf sb]) (use assms(6,7) in simp_all)
  from connection_cases(2)[OF wf, of cb2 t2 s g] sb obtain c where
    "connection st s g cb2 t2 = Some (Some c)" by auto
  then have d: "disconnect s g cb2 t2 st = Some (True, clear_conn c (removeFromSendersList c st))"
    by (simp add: disconnect_connection)
  let ?st' = "clear_conn c (removeFromSendersList c st)"
  have wf': "wf_state ?st'" using disconnect_wf[OF wf d] by simp
  have dist: "distinct [(cb1, coerce t1), (cb2, coerce t2), (cb3, coerce t3)]"
    using subscriptions_distinct[OF wf, of s g] sb by simp
  have sb': "subscriptions ?st' s g = [(cb1, coerce t1), (cb3, coerce t3)]"
    using disconnect_True_subscriptions[OF wf d, of s g] sb dist by auto
  from emit_two_idle[OF wf' sb', of p b n] assms(6,8) obtain st'' where
    "emit (run_callback (Suc n) p) s g b ?st'
       = Some (Returned, [Call cb1 (coerce t1) s b [], Call cb3 (coerce t3) s b []], st'')"
    by auto
  with e1 d show ?thesis by blast
qed

theorem second_callback_throws_witness:
  "wf_state init \<and> subscriptions init 7 1 = []
   \<and> connect 7 1 13 (Obj 3) (make_connection 7 1 12 (Obj 2) (make_connection 7 1 11 (Obj 1) init))
       = Some (True, three_connections)
   \<and> thrower 11 (Obj 1) 7 5 = [] \<and> thrower 12 (Obj 2) 7 5 = [Throw] \<and> thrower 13 (Obj 3) 7 5 = []
   \<and> (case emit (run_callback 1 thrower) 7 1 5 three_connections of
         None \<Rightarrow> False
       | Some (out, evs, st') \<Rightarrow>
           out = Thrown \<and> evs = [Call 11 (Obj 1) 7 5 [], Call 12 (Obj 2) 7 5 []]
           \<and> refs (lists st' 0) = 0)
   \<and> (case disconnect 7 1 12 (Obj 2) three_connections of
         None \<Rightarrow> False
       | Some (r, st') \<Rightarrow>
           r \<and> (case emit (run_callback 1 thrower) 7 1 5 st' of
                 None \<Rightarrow> False
               | Some (out, evs, st'') \<Rightarrow>
                   out = Returned \<and> evs = [Call 11 (Obj 1) 7 5 [], Call 13 (Obj 3) 7 5 []]))"
proof -
  let ?st1 = "make_connection 7 1 11 (Obj 1) init"
  let ?st2 = "make_connection 7 1 12 (Obj 2) ?st1"
  have s0: "subscriptions init 7 1 = []" by code_simp
  have n1: "connection init 7 1 11 (Obj 1) = Some None" by code_simp
  have n2: "connection ?st1 7 1 12 (Obj 2) = Some None" by code_simp
  have n3: "connection ?st2 7 1 13 (Obj 3) = Some None" by code_simp
  have c1: "connect 7 1 11 (Obj 1) init = Some (True, ?st1)" using n1 by (rule connect_new)
  have c2: "connect 7 1 12 (Obj 2) ?st1 = Some (True, ?st2)" using n2 by (rule connect_new)
  have c3: "connect 7 1 13 (Obj 3) ?st2 = Some (True, three_connections)"
    unfolding three_connections_def using n3 by (rule connect_new)
  have p: "\<forall>a. thrower 11 (coerce (Obj 1)) 7 a = []" "\<forall>a. thrower 12 (coerce (Obj 2)) 7 a = [Throw]"
    "\<forall>a. thrower 13 (coerce (Obj 3)) 7 a = []"
    by (simp_all add: thrower_def)
  have r0: "refs (lists three_connections 0) = 0" by code_simp
  from second_callback_throws[where p = thrower and n = 0 and a = 5 and b = 5, OF init_wf s0 c1 c2 c3 p]
  obtain st' st'' where e: "emit (run_callback 1 thrower) 7 1 5 three_connections
           = Some (Thrown, [Call 11 (Obj 1) 7 5 [], Call 12 (Obj 2) 7 5 []], three_connections)"
    and d: "disconnect 7 1 12 (Obj 2) three_connections = Some (True, st')"
    and e': "emit (run_callback 1 thrower) 7 1 5 st'
                 = Some (Returned, [Call 11 (Obj 1) 7 5 [], Call 13 (Obj 3) 7 5 []], st'')"
    unfolding One_nat_def by (auto simp: coerce_def)
  show ?thesis
    unfolding e d using init_wf s0 c3 r0 e' by (simp add: thrower_def)
qed

section \<open>The order of invocation\<close>

lemma connect_refines:
  assumes wf: "wf_state st"
  shows "\<exists>b st'. connect s g cb t st = Some (b, st') \<and> wf_state st'
           \<and> subscriptions st' = spec_connect s g cb t (subscriptions st)"
proof -
  from connect_returns[OF wf, of s g cb t] obtain b st' where c: "connect s g cb t st = Some (b, st')"
    by (cases "connect s g cb t st") auto
  have wf': "wf_state st'" using connect_wf[OF wf c] by simp
  have "subscriptions st' = spec_connect s g cb t (subscriptions st)"
  proof (cases b)
    case True
    with c have c': "connect s g cb t st = Some (True, st')" by simp
    have "connection st s g cb t = Some None"
      using c' by (auto simp: connect_connection split: option.splits)
    then have "(cb, coerce t) \<notin> set (subscriptions st s g)"
      using subscriptions_mem[OF wf, of cb t s g] by simp
    then show ?thesis
      using connect_True_subscriptions[OF wf c'] by (simp add: spec_connect_def fun_eq_iff)
  next
    case False
    with c have c': "connect s g cb t st = Some (False, st')" by simp
    from connect_False[OF wf c'] have st': "st' = st"
      and "\<exists>c. connection st s g cb t = Some (Some c)" by (auto simp: connection_def)
    then have "(cb, coerce t) \<in> set (subscriptions st s g)"
      using subscriptions_mem[OF wf, of cb t s g] by simp
    then show ?thesis using st' by (simp add: spec_connect_def)
  qed
  with c wf' show ?thesis by blast
qed

lemma disconnect_refines:
  assumes wf: "wf_state st"
  shows "\<exists>b st'. disconnect s g cb t st = Some (b, st') \<and> wf_state st'
           \<and> subscriptions st' = spec_disconnect s g cb t (subscriptions st)"
proof -
  from disconnect_returns[OF wf, of s g cb t] obtain b st' where d: "disconnect s g cb t st = Some (b, st')"
    by (cases "disconnect s g cb t st") auto
  have wf': "wf_state st'" using disconnect_wf[OF wf d] by simp
  have "subscriptions st' = spec_disconnect s g cb t (subscriptions st)"
  proof (cases b)
    case True
    with d have d': "disconnect s g cb t st = Some (True, st')" by simp
    show ?thesis
      using disconnect_True_subscriptions[OF wf d'] by (simp add: spec_disconnect_def fun_eq_iff)
  next
    case False
    with d have "connection st s g cb t = Some None" and st': "st' = st"
      by (auto simp: disconnect_connection split: option.splits)
    then have "(cb, coerce t) \<notin> set (subscriptions st s g)"
      using subscriptions_mem[OF wf, of cb t s g] by simp
    then have "removeAll (cb, coerce t) (subscriptions st s g) = subscriptions st s g" by simp
    then show ?thesis using st' by (simp add: spec_disconnect_def fun_eq_iff)
  qed
  with d wf' show ?thesis by blast
qed

lemma emit_refines:
  assumes wf: "wf_state st"
  shows "\<exists>st'. emit (run_callback (Suc n) idle) s g a st = Some (Returned, spec_emit s g a (subscriptions st), st')
           \<and> wf_state st' \<and> subscriptions st' = subscriptions st"
proof -
  have "\<exists>st'. emit (run_callback (Suc n) idle) s g a st
      = Some (Returned, map (invocation s a) (subscriptions st s g), st') \<and> wf_state st' \<and> compacted st st'"
    by (rule emit_quiet[OF wf]) (simp add: idle_def)
  then obtain st' where e: "emit (run_callback (Suc n) idle) s g a st
      = Some (Returned, map (invocation s a) (subscriptions st s g), st')"
    and wf': "wf_state st'" and c: "compacted st st'" by blast
  have "subscriptions st' = subscriptions st"
    using compacted_subscriptions[OF c wf] by (simp add: fun_eq_iff)
  with e wf' show ?thesis by (simp add: spec_emit_def)
qed

lemma exec_refines:
  assumes wf: "wf_state st" and x: "plain x"
  shows "\<exists>st'. exec (run_callback (Suc n) idle) x st = Some (Returned, fst (spec_step x (subscriptions st)), st')
           \<and> wf_state st' \<and> subscriptions st' = snd (spec_step x (subscriptions st))"
proof (cases x)
  case (Connect s g cb t)
  from connect_refines[OF wf, of s g cb t] show ?thesis
    unfolding Connect by (auto simp: lift_bool_def)
next
  case (Disconnect s g cb t)
  from disconnect_refines[OF wf, of s g cb t] show ?thesis
    unfolding Disconnect by (auto simp: lift_bool_def)
next
  case (Emit s g a)
  from emit_refines[OF wf, of n s g a] show ?thesis
    unfolding Emit by auto
qed (use x in simp_all)

lemma exec_all_refines:
  assumes "wf_state st" "list_all plain xs"
  shows "\<exists>st'. exec_all (run_callback (Suc n) idle) xs st = Some (Returned, fst (spec_run xs (subscriptions st)), st')
           \<and> wf_state st' \<and> subscriptions st' = snd (spec_run xs (subscriptions st))"
  using assms
proof (induction xs arbitrary: st)
  case Nil
  then show ?case by simp
next
  case (Cons x xs)
  from Cons.prems(2) have px: "plain x" and pxs: "list_all plain xs" by simp_all
  from exec_refines[OF Cons.prems(1) px, of n] obtain st1 where
    e: "exec (run_callback (Suc n) idle) x st = Some (Returned, fst (spec_step x (subscriptions st)), st1)"
    and wf1: "wf_state st1" and s1: "subscriptions st1 = snd (spec_step x (subscriptions st))" by blast
  from Cons.IH[OF wf1 pxs] obtain st' where
    e': "exec_all (run_callback (Suc n) idle) xs st1 = Some (Returned, fst (spec_run xs (subscriptions st1)), st')"
    and wf': "wf_state st'" and s': "subscriptions st' = snd (spec_run xs (subscriptions st1))" by blast
  have "exec_all (run_callback (Suc n) idle) (x # xs) st
      = Some (Returned, fst (spec_run (x # xs) (subscriptions st)), st')"
    using e e' s1 by (simp add: split_beta del: run_callback.simps)
  moreover have "subscriptions st' = snd (spec_run (x # xs) (subscriptions st))"
    using s' s1 by (simp add: split_beta)
  ultimately show ?case using wf' by blast
qed

text \<open>Whatever the callbacks do, those that an emission invokes are subscribers, in list order.\<close>

lemma emit_in_order:
  assumes wf: "wf_state st" and run: "emit (run_callback n p) s g a st = Some (out, evs, st')"
  shows "\<exists>K. map callee evs = filter (\<lambda>k. k \<in> K) (subscriptions st s g)"
proof (cases "senderMap st s")
  case None
  with run show ?thesis by (simp add: emit_def subscriptions_def subscribers_def)
next
  case (Some l)
  from emit_inv[OF run_callback_preserves_wf wf run] Some obtain d' where
    pr: "pass_result st (nodes st l) g s a False out d' evs st'" by blast
  then obtain V where V: "V \<subseteq> set (nodes st l)" "\<forall>x\<in>V. live st x \<and> signal (conns st x) = Some g"
    "map callee evs = map (key_of st) (filter (\<lambda>x. x \<in> V) (nodes st l))"
    unfolding pass_result_def by blast
  have sb: "subscribers st s g = filter (subscriber st g) (nodes st l)" by (simp add: subscribers_alt Some)
  have f: "filter (\<lambda>x. x \<in> V) (nodes st l) = filter (\<lambda>x. x \<in> V) (subscribers st s g)"
    unfolding sb filter_filter using V(2) by (intro filter_cong) (auto simp: subscriber_def)
  have "map (key_of st) (filter (\<lambda>x. x \<in> V) (subscribers st s g))
      = filter (\<lambda>k. k \<in> key_of st ` (V \<inter> set (subscribers st s g))) (map (key_of st) (subscribers st s g))"
    unfolding filter_map comp_def
  proof (intro arg_cong[of _ _ "map (key_of st)"] filter_cong refl)
    fix x assume x: "x \<in> set (subscribers st s g)"
    show "(x \<in> V) = (key_of st x \<in> key_of st ` (V \<inter> set (subscribers st s g)))"
    proof
      assume "x \<in> V" with x show "key_of st x \<in> key_of st ` (V \<inter> set (subscribers st s g))" by blast
    next
      assume "key_of st x \<in> key_of st ` (V \<inter> set (subscribers st s g))"
      then obtain y where y: "y \<in> V" "y \<in> set (subscribers st s g)" "key_of st x = key_of st y" by blast
      from subscribers_key_inj[OF wf x y(2,3)] y(1) show "x \<in> V" by simp
    qed
  qed
  with V(3) f show ?thesis unfolding subscriptions_def by auto
qed

lemma subscriptions_init: "subscriptions init = (\<lambda>s g. [])"
  by (simp add: subscriptions_def subscribers_def init_def fun_eq_iff)

text \<open>
  C4.  The registry implements the ordered lists of the specification: a script of
  connects, disconnects and emissions (on any senders and signals, with callbacks that
  leave the registry alone) runs to its end, each \<open>emit\<close> invokes exactly the callbacks
  connected to the signal of the sender, from the one connected first to the one connected
  last, and a callback that is disconnected and connected again is invoked last.  Whatever
  the callbacks do, the callbacks that an \<open>emit\<close> call invokes are subscriptions of the
  signal of the sender at the call, in the order of their connection.
\<close>

theorem emit_order:
  assumes "wf_state st"
  shows "(list_all plain xs \<longrightarrow>
            (\<exists>st'. exec_all (run_callback (Suc n) idle) xs st
                      = Some (Returned, fst (spec_run xs (subscriptions st)), st')
                  \<and> subscriptions st' = snd (spec_run xs (subscriptions st))))
       \<and> (emit (run_callback m p) s g a st = Some (out, evs, st1) \<longrightarrow>
            (\<exists>K. map callee evs = filter (\<lambda>k. k \<in> K) (subscriptions st s g)))"
proof (intro conjI impI)
  assume "list_all plain xs"
  from exec_all_refines[OF assms this, of n]
  show "\<exists>st'. exec_all (run_callback (Suc n) idle) xs st
                      = Some (Returned, fst (spec_run xs (subscriptions st)), st')
                  \<and> subscriptions st' = snd (spec_run xs (subscriptions st))"
    by blast
next
  assume "emit (run_callback m p) s g a st = Some (out, evs, st1)"
  then show "\<exists>K. map callee evs = filter (\<lambda>k. k \<in> K) (subscriptions st s g)"
    by (rule emit_in_order[OF assms])
qed

theorem emit_order_witness:
  "wf_state init \<and> list_all plain reconnect_script
   \<and> (case exec_all (run_callback 1 idle) reconnect_script init of
         None \<Rightarrow> False
       | Some (out, evs, st') \<Rightarrow>
           out = Returned
           \<and> evs = [Call 12 (Obj 2) 7 5 [], Call 13 (Obj 3) 7 5 [], Call 11 (Obj 1) 7 5 []]
           \<and> subscriptions st' 7 1 = [(12, Obj 2), (13, Obj 3), (11, Obj 1)])
   \<and> (case emit (run_callback 1 idle) 7 1 5 one_connection of
         None \<Rightarrow> False
       | Some (out, evs, st1) \<Rightarrow> map callee evs = subscriptions one_connection 7 1)"
proof -
  have p: "list_all plain reconnect_script" by (simp add: reconnect_script_def)
  have r: "spec_run reconnect_script (subscriptions init)
     = ([Call 12 (Obj 2) 7 5 [], Call 13 (Obj 3) 7 5 [], Call 11 (Obj 1) 7 5 []],
        (\<lambda>s g. [])(7 := (\<lambda>g. [])(1 := [(12, Obj 2), (13, Obj 3), (11, Obj 1)])))"
    by (simp add: reconnect_script_def subscriptions_init spec_connect_def spec_disconnect_def
        spec_emit_def invocation_def coerce_def fun_eq_iff)
  have e: "case emit (run_callback 1 idle) 7 1 5 one_connection of
         None \<Rightarrow> False
       | Some (out, evs, st1) \<Rightarrow> map callee evs = subscriptions one_connection 7 1"
    by code_simp
  from emit_order[OF init_wf, of reconnect_script 0] p
  obtain st' where "exec_all (run_callback 1 idle) reconnect_script init
                      = Some (Returned, fst (spec_run reconnect_script (subscriptions init)), st')"
    "subscriptions st' = snd (spec_run reconnect_script (subscriptions init))"
    unfolding One_nat_def by blast
  then show ?thesis using init_wf p e unfolding r by simp
qed

section \<open>The receiver side\<close>

lemma rchain_None [simp]: "rchain h pv None xs = (xs = [])"
  by (cases xs) auto

lemma rchain_Some:
  "rchain h pv (Some c) xs
     = (\<exists>ys. xs = c # ys \<and> prevSender (h c) = pv \<and> rchain h (Some c) (nextSender (h c)) ys)"
  by (cases xs) auto

lemma rchain_unique: "rchain h pv p xs \<Longrightarrow> rchain h pv' p ys \<Longrightarrow> xs = ys"
  by (induction xs arbitrary: p pv pv' ys) (auto simp: rchain_Some)

lemma rchain_cong:
  "(\<And>c. c \<in> set xs \<Longrightarrow> nextSender (h' c) = nextSender (h c) \<and> prevSender (h' c) = prevSender (h c))
   \<Longrightarrow> rchain h' pv p xs = rchain h pv p xs"
  by (induction xs arbitrary: pv p) auto

lemma rchain_drop: "rchain h pv p (as @ c # bs) \<Longrightarrow> rchain h (Some c) (nextSender (h c)) bs"
  by (induction as arbitrary: pv p) auto

lemma rchain_suffix_notin:
  "rchain h pv (nextSender (h c)) xs \<Longrightarrow> c \<notin> set xs"
proof (induction xs arbitrary: c pv rule: length_induct)
  case (1 xs)
  show ?case
  proof
    assume "c \<in> set xs"
    then obtain as bs where xs: "xs = as @ c # bs" by (auto simp: in_set_conv_decomp)
    with 1(2) have *: "rchain h (Some c) (nextSender (h c)) bs" by (auto dest: rchain_drop)
    moreover have "length bs < length xs" using xs by simp
    ultimately have "c \<notin> set bs" using 1(1) by blast
    moreover have "bs = xs" using * 1(2) by (rule rchain_unique)
    ultimately show False using \<open>c \<in> set xs\<close> by simp
  qed
qed

lemma rchain_distinct: "rchain h pv p xs \<Longrightarrow> distinct xs"
  by (induction xs arbitrary: pv p) (auto dest: rchain_suffix_notin)

lemma rwalk_rchain: "rchain h pv p xs \<Longrightarrow> length xs \<le> n \<Longrightarrow> rwalk n h p = xs"
  by (induction n arbitrary: pv p xs) (auto simp: rchain_Some split: option.splits)

lemma rnodesI:
  "rchain (conns st) pv (receiverMap st r) xs \<Longrightarrow> \<forall>c\<in>set xs. c < nextConn st \<Longrightarrow> rnodes st r = xs"
  unfolding rnodes_def
  by (rule rwalk_rchain) (auto intro: distinct_bounded_length rchain_distinct)

text \<open>The links of a connection inside a chain.\<close>

lemma rchain_at:
  "rchain h pv p (xs @ c # zs)
   \<Longrightarrow> prevSender (h c) = (if xs = [] then pv else Some (last xs)) \<and> nextSender (h c) = head_of zs"
proof (induction xs arbitrary: pv p)
  case Nil
  then show ?case by (cases zs) auto
next
  case (Cons x xs)
  from Cons.prems have "rchain h (Some x) (nextSender (h x)) (xs @ c # zs)" by simp
  from Cons.IH[OF this] show ?case by simp
qed

text \<open>Taking a connection out of a chain.\<close>

lemma rchain_unlink:
  assumes "rchain h pv p (xs @ c # zs)" and "unlinked h c h'"
    and "\<And>x. pv = Some x \<Longrightarrow> x \<notin> set (xs @ c # zs)"
  shows "rchain h' pv (if xs = [] then nextSender (h c) else p) (xs @ zs)"
  using assms
proof (induction xs arbitrary: pv p)
  case Nil
  from Nil.prems(1) have pc: "prevSender (h c) = pv" and r: "rchain h (Some c) (nextSender (h c)) zs"
    by simp_all
  have cz: "c \<notin> set zs" using rchain_suffix_notin[OF r] .
  show ?case
  proof (cases zs)
    case Nil
    with r show ?thesis by simp
  next
    case (Cons z zs')
    from r Cons have nc: "nextSender (h c) = Some z" and pz: "prevSender (h z) = Some c"
      and r': "rchain h (Some z) (nextSender (h z)) zs'" by simp_all
    have zc: "z \<noteq> c" using cz Cons by auto
    have zz: "z \<notin> set zs'" using rchain_suffix_notin[OF r'] .
    have pvz: "pv \<noteq> Some z" using Nil.prems(3)[of z] Cons by auto
    from Nil.prems(2) zc nc pc pvz have z': "prevSender (h' z) = pv" "nextSender (h' z) = nextSender (h z)"
      by (simp_all add: unlinked_def)
    have "rchain h' (Some z) (nextSender (h z)) zs' = rchain h (Some z) (nextSender (h z)) zs'"
    proof (rule rchain_cong)
      fix y assume y: "y \<in> set zs'"
      then have "y \<noteq> c" "y \<noteq> z" using cz Cons zz by auto
      moreover have "pv \<noteq> Some y" using Nil.prems(3)[of y] y Cons by auto
      ultimately show "nextSender (h' y) = nextSender (h y) \<and> prevSender (h' y) = prevSender (h y)"
        using Nil.prems(2) nc pc by (simp add: unlinked_def)
    qed
    with r' z' nc Cons show ?thesis by simp
  qed
next
  case (Cons x xs)
  from Cons.prems(1) have p: "p = Some x" and px: "prevSender (h x) = pv"
    and r: "rchain h (Some x) (nextSender (h x)) (xs @ c # zs)" by simp_all
  have xn: "x \<notin> set (xs @ c # zs)" using rchain_suffix_notin[OF r] .
  then have xc: "x \<noteq> c" by simp
  from rchain_at[OF r] have pc: "prevSender (h c) = (if xs = [] then Some x else Some (last xs))"
    and nc: "nextSender (h c) = head_of zs" by simp_all
  have ncx: "nextSender (h c) \<noteq> Some x" using nc xn by (cases zs) auto
  have IH: "rchain h' (Some x) (if xs = [] then nextSender (h c) else nextSender (h x)) (xs @ zs)"
    by (rule Cons.IH[OF r Cons.prems(2)]) (use xn in simp)
  have x1: "prevSender (h' x) = pv" using Cons.prems(2) xc ncx px by (simp add: unlinked_def)
  have x2: "nextSender (h' x) = (if xs = [] then nextSender (h c) else nextSender (h x))"
  proof (cases "xs = []")
    case True
    with Cons.prems(2) xc pc show ?thesis by (simp add: unlinked_def)
  next
    case False
    then have "last xs \<in> set xs" by simp
    with xn have "last xs \<noteq> x" by auto
    with Cons.prems(2) xc pc False show ?thesis by (simp add: unlinked_def)
  qed
  show ?case using p x1 x2 IH by simp
qed

text \<open>Putting a new connection at the head of a chain.\<close>

lemma rchain_push:
  assumes "rchain h None q ys" and "c \<notin> set ys"
    and "prevSender (h' c) = None" "nextSender (h' c) = q"
    and "\<And>x. x \<noteq> c \<Longrightarrow> nextSender (h' x) = nextSender (h x)"
    and "\<And>x. x \<noteq> c \<Longrightarrow> prevSender (h' x) = (if q = Some x then Some c else prevSender (h x))"
  shows "rchain h' None (Some c) (c # ys)"
proof (cases ys)
  case Nil
  with assms(1,3,4) show ?thesis by simp
next
  case (Cons y ys')
  from assms(1) Cons have q: "q = Some y" and r: "rchain h (Some y) (nextSender (h y)) ys'" by simp_all
  have yc: "y \<noteq> c" using assms(2) Cons by auto
  have yy: "y \<notin> set ys'" using rchain_suffix_notin[OF r] .
  have "rchain h' (Some y) (nextSender (h y)) ys' = rchain h (Some y) (nextSender (h y)) ys'"
  proof (rule rchain_cong)
    fix x assume "x \<in> set ys'"
    then have "x \<noteq> c" "x \<noteq> y" using assms(2) Cons yy by auto
    then show "nextSender (h' x) = nextSender (h x) \<and> prevSender (h' x) = prevSender (h x)"
      using assms(5,6) q by simp
  qed
  with r assms(3,4) assms(5)[of y] assms(6)[of y] yc q Cons show ?thesis by simp
qed

lemma wf_receiversD:
  assumes "wf_receivers st"
  shows "rchain (conns st) None (receiverMap st r) (rnodes st r)"
    and "c \<in> set (rnodes st r) \<Longrightarrow> conn_receiver (conns st c) = Some r"
    and "conn_receiver (conns st c) = Some r \<Longrightarrow> c < nextConn st"
    and "conn_receiver (conns st c) = Some r \<Longrightarrow> c \<in> set (rnodes st r)"
    and "\<not> live st c \<Longrightarrow> conn_receiver (conns st c) = None"
  using assms unfolding wf_receivers_def by blast+

lemma wf_receiversI:
  assumes ch: "\<And>r. rchain (conns st) None (receiverMap st r) (ys r)"
    and mem: "\<And>r c. (c \<in> set (ys r)) = (conn_receiver (conns st c) = Some r)"
    and bound: "\<And>c r. conn_receiver (conns st c) = Some r \<Longrightarrow> c < nextConn st"
    and dead: "\<And>c. \<not> live st c \<Longrightarrow> conn_receiver (conns st c) = None"
  shows "wf_receivers st" and "rnodes st = ys"
proof -
  have n: "rnodes st r = ys r" for r
    by (rule rnodesI[OF ch]) (use mem bound in blast)
  then show "rnodes st = ys" by (simp add: fun_eq_iff)
  show "wf_receivers st"
    unfolding wf_receivers_def n using ch mem bound dead by blast
qed

lemma live_conn_receiver: "live st c \<Longrightarrow> \<exists>r. conn_receiver (conns st c) = Some r"
  by (auto simp: live_def conn_receiver_def split: jsval.splits)

lemma wf_receivers_live:
  "wf_receivers st \<Longrightarrow> live st c = (conn_receiver (conns st c) \<noteq> None)"
proof (cases "live st c")
  case True
  with live_conn_receiver[of st c] show ?thesis by auto
next
  case False
  assume "wf_receivers st"
  from wf_receiversD(5)[OF this False] False show ?thesis by simp
qed

lemma receiver_eq_refl [simp]: "receiver_eq st st"
  by (simp add: receiver_eq_def)

lemma receiver_eq_trans: "receiver_eq st st1 \<Longrightarrow> receiver_eq st1 st2 \<Longrightarrow> receiver_eq st st2"
  by (simp add: receiver_eq_def)

lemma rwalk_cong:
  "(\<And>c. nextSender (h' c) = nextSender (h c)) \<Longrightarrow> rwalk n h' p = rwalk n h p"
  by (induction n arbitrary: p) (auto split: option.splits)

lemma receiver_eq_rnodes: "receiver_eq st st' \<Longrightarrow> rnodes st' r = rnodes st r"
  unfolding rnodes_def receiver_eq_def by (auto intro: rwalk_cong)

lemma receiver_eq_wf:
  assumes e: "receiver_eq st st'" and wf: "wf_receivers st"
  shows "wf_receivers st'"
proof -
  have c: "conn_receiver (conns st' c) = conn_receiver (conns st c)" "live st' c = live st c" for c
    using e by (auto simp: receiver_eq_def conn_receiver_def live_def split: jsval.splits)
  have r: "rchain (conns st') None p xs = rchain (conns st) None p xs" for p xs
    by (rule rchain_cong) (use e in \<open>simp add: receiver_eq_def\<close>)
  have m: "receiverMap st' = receiverMap st" "nextConn st' = nextConn st"
    using e by (simp_all add: receiver_eq_def)
  show ?thesis
    using wf unfolding wf_receivers_def receiver_eq_rnodes[OF e] c r m .
qed

lemma upd_list_receiver_eq [simp]: "receiver_eq st (upd_list l f st)"
  by (simp add: receiver_eq_def)

lemma relinked_receiver_eq: "relinked l A st st' \<Longrightarrow> receiver_eq st st'"
  by (simp add: receiver_eq_def relinkedD)

lemma compacted_receiver_eq: "compacted st st' \<Longrightarrow> receiver_eq st st'"
  by (simp add: receiver_eq_def compactedD)

lemma senderMap_update_receiver_eq [simp]: "receiver_eq st (st\<lparr>senderMap := m\<rparr>)"
  by (simp add: receiver_eq_def)

lemma init_wf_receivers: "wf_receivers init"
  by (simp add: wf_receivers_def rnodes_def init_def conn_receiver_def new_Connection_def)

section \<open>removeFromSendersList and the receiver chains\<close>

lemma removeFromSendersList_dead:
  "conn_receiver (conns st c) = None \<Longrightarrow> removeFromSendersList c st = st"
  by (simp add: removeFromSendersList_def)

lemma removeFromSendersList_links:
  assumes r: "conn_receiver (conns st c) = Some r"
    and pc: "prevSender (conns st c) \<noteq> Some c" and nc: "nextSender (conns st c) \<noteq> Some c"
    and pn: "\<And>x. prevSender (conns st c) = Some x \<Longrightarrow> nextSender (conns st c) \<noteq> Some x"
  shows "unlinked (conns st) c (conns (removeFromSendersList c st))"
    and "prevSender (conns (removeFromSendersList c st) c) = None"
    and "nextSender (conns (removeFromSendersList c st) c) = None"
    and "receiverMap (removeFromSendersList c st)
           = (case prevSender (conns st c) of
                None \<Rightarrow> (receiverMap st)(r := nextSender (conns st c))
              | Some p \<Rightarrow> receiverMap st)"
    and "nextConn (removeFromSendersList c st) = nextConn st"
    and "callback (conns (removeFromSendersList c st) x) = callback (conns st x)"
    and "thisArg (conns (removeFromSendersList c st) x) = thisArg (conns st x)"
proof -
  show "unlinked (conns st) c (conns (removeFromSendersList c st))"
    using pc nc pn unfolding unlinked_def removeFromSendersList_def r
    by (cases "prevSender (conns st c)"; cases "nextSender (conns st c)") (auto simp: Let_def)
  show "prevSender (conns (removeFromSendersList c st) c) = None"
    "nextSender (conns (removeFromSendersList c st) c) = None"
    "nextConn (removeFromSendersList c st) = nextConn st"
    "callback (conns (removeFromSendersList c st) x) = callback (conns st x)"
    "thisArg (conns (removeFromSendersList c st) x) = thisArg (conns st x)"
    unfolding removeFromSendersList_def r
    by (cases "prevSender (conns st c)"; cases "nextSender (conns st c)"; simp add: Let_def)+
  show "receiverMap (removeFromSendersList c st)
           = (case prevSender (conns st c) of
                None \<Rightarrow> (receiverMap st)(r := nextSender (conns st c))
              | Some p \<Rightarrow> receiverMap st)"
    unfolding removeFromSendersList_def r
    by (cases "prevSender (conns st c)"; cases "nextSender (conns st c)"; simp add: Let_def)
qed

text \<open>
  What \<open>disconnect\<close> and \<open>disconnectSender\<close> do to a connection: it leaves the chain of its
  receiver, whose links are fixed, and the entry of the receiver goes to the next
  connection of the chain, or is deleted if there is none.
\<close>

lemma kill_receivers:
  assumes wf: "wf_receivers st"
  shows "wf_receivers (clear_conn c (removeFromSendersList c st))"
    and "rnodes (clear_conn c (removeFromSendersList c st)) r = removeAll c (rnodes st r)"
    and "conn_receiver (conns st c) = Some r \<Longrightarrow> rnodes st r = [c]
          \<Longrightarrow> receiverMap (clear_conn c (removeFromSendersList c st)) r = None"
proof -
  let ?st1 = "removeFromSendersList c st"
  let ?st2 = "clear_conn c ?st1"
  let ?ys = "\<lambda>r. removeAll c (rnodes st r)"
  have main: "wf_receivers ?st2 \<and> rnodes ?st2 = ?ys
      \<and> (\<forall>r. conn_receiver (conns st c) = Some r \<and> rnodes st r = [c] \<longrightarrow> receiverMap ?st2 r = None)"
  proof (cases "conn_receiver (conns st c)")
    case None
    have st1: "?st1 = st" using None by (rule removeFromSendersList_dead)
    have cr: "conn_receiver (conns ?st2 x) = conn_receiver (conns st x)" for x
      using None by (auto simp: st1 clear_conn_def conn_receiver_def split: jsval.splits)
    have lv: "live ?st2 x \<Longrightarrow> live st x" for x
      by (auto simp: st1 clear_conn_def live_def split: if_splits)
    have notin: "c \<notin> set (rnodes st r)" for r
      using wf_receiversD(2)[OF wf, of c r] None by auto
    have ys: "?ys = rnodes st" using notin by (simp add: fun_eq_iff)
    have chain': "rchain (conns ?st2) None (receiverMap ?st2 r) (rnodes st r)" for r
    proof -
      have "rchain (conns ?st2) None (receiverMap st r) (rnodes st r)
          = rchain (conns st) None (receiverMap st r) (rnodes st r)"
        by (rule rchain_cong) (simp add: st1 clear_conn_def)
      then show ?thesis using wf_receiversD(1)[OF wf, of r] by (simp add: st1 clear_conn_def)
    qed
    have mem: "(x \<in> set (rnodes st r)) = (conn_receiver (conns ?st2 x) = Some r)" for r x
      unfolding cr using wf_receiversD(2,4)[OF wf, of x r] by blast
    have bound: "x < nextConn ?st2" if "conn_receiver (conns ?st2 x) = Some r" for x r
    proof -
      from that have "conn_receiver (conns st x) = Some r" unfolding cr .
      from wf_receiversD(3)[OF wf this] show ?thesis by (simp add: st1 clear_conn_def)
    qed
    have dead: "conn_receiver (conns ?st2 x) = None" if "\<not> live ?st2 x" for x
    proof (cases "live st x")
      case True
      with that have "x = c" by (auto simp: st1 clear_conn_def live_def split: if_splits)
      then show ?thesis unfolding cr using None by simp
    next
      case False
      from wf_receiversD(5)[OF wf this] show ?thesis unfolding cr .
    qed
    have a: "wf_receivers ?st2" "rnodes ?st2 = rnodes st"
    proof -
      note I = wf_receiversI[where st = ?st2 and ys = "rnodes st", OF chain' mem]
      show "wf_receivers ?st2" by (rule I(1)) (erule bound, erule dead)
      show "rnodes ?st2 = rnodes st" by (rule I(2)) (erule bound, erule dead)
    qed
    with ys None show ?thesis by simp
  next
    case (Some r)
    from wf_receiversD(4)[OF wf Some] obtain xs zs where dec: "rnodes st r = xs @ c # zs"
      by (auto simp: in_set_conv_decomp)
    have ch: "rchain (conns st) None (receiverMap st r) (xs @ c # zs)"
      using wf_receiversD(1)[OF wf, of r] dec by simp
    have d: "distinct (xs @ c # zs)" using rchain_distinct[OF ch] .
    from rchain_at[OF ch] have pc: "prevSender (conns st c) = (if xs = [] then None else Some (last xs))"
      and nc: "nextSender (conns st c) = head_of zs" by simp_all
    have l1: "prevSender (conns st c) \<noteq> Some c" using pc d by (cases "xs = []") auto
    have l2: "nextSender (conns st c) \<noteq> Some c" using nc d by (cases zs) auto
    have l3: "nextSender (conns st c) \<noteq> Some x" if "prevSender (conns st c) = Some x" for x
    proof -
      from that pc have "xs \<noteq> []" "x = last xs" by (auto split: if_splits)
      then have "x \<in> set xs" by simp
      with d nc show ?thesis by (cases zs) auto
    qed
    note links = removeFromSendersList_links[OF Some l1 l2 l3]
    have un: "unlinked (conns st) c (conns ?st2)"
      using links(1) by (simp add: unlinked_def clear_conn_def)
    have rm: "receiverMap ?st2 = (if xs = [] then (receiverMap st)(r := nextSender (conns st c)) else receiverMap st)"
      using links(4) pc by (simp add: clear_conn_def)
    have hd: "receiverMap st r = (if xs = [] then Some c else Some (hd xs))"
      using ch by (cases xs) simp_all
    have cr: "conn_receiver (conns ?st2 x) = (if x = c then None else conn_receiver (conns st x))" for x
      using links(6,7)[of x] by (auto simp: clear_conn_def conn_receiver_def split: jsval.splits)
    have lv: "live ?st2 x = (live st x \<and> x \<noteq> c)" for x
      using links(6)[of x] by (auto simp: clear_conn_def live_def)
    have ys: "?ys r' = (if r' = r then xs @ zs else rnodes st r')" for r'
    proof (cases "r' = r")
      case True
      then show ?thesis using dec d by simp
    next
      case False
      have "c \<notin> set (rnodes st r')" using wf_receiversD(2)[OF wf, of c r'] Some False by auto
      with False show ?thesis by simp
    qed
    have chain': "rchain (conns ?st2) None (receiverMap ?st2 r') (?ys r')" for r'
    proof (cases "r' = r")
      case True
      from rchain_unlink[OF ch un] have "rchain (conns ?st2) None
          (if xs = [] then nextSender (conns st c) else receiverMap st r) (xs @ zs)" by simp
      then show ?thesis unfolding ys True rm by (cases "xs = []") simp_all
    next
      case False
      have m: "receiverMap ?st2 r' = receiverMap st r'" using False rm by simp
      have "rchain (conns ?st2) None (receiverMap st r') (rnodes st r')
          = rchain (conns st) None (receiverMap st r') (rnodes st r')"
      proof (rule rchain_cong)
        fix y assume y: "y \<in> set (rnodes st r')"
        from wf_receiversD(2)[OF wf y] have yr: "conn_receiver (conns st y) = Some r'" .
        have yn: "y \<notin> set (xs @ c # zs)"
        proof
          assume "y \<in> set (xs @ c # zs)"
          then have "y \<in> set (rnodes st r)" using dec by simp
          from wf_receiversD(2)[OF wf this] yr False show False by simp
        qed
        then have "y \<noteq> c" "nextSender (conns st c) \<noteq> Some y" "prevSender (conns st c) \<noteq> Some y"
          using nc pc by (cases zs; cases "xs = []"; auto)+
        with un show "nextSender (conns ?st2 y) = nextSender (conns st y)
            \<and> prevSender (conns ?st2 y) = prevSender (conns st y)"
          by (simp add: unlinked_def)
      qed
      then show ?thesis unfolding ys m using False wf_receiversD(1)[OF wf, of r'] by simp
    qed
    have mem: "(x \<in> set (?ys r')) = (conn_receiver (conns ?st2 x) = Some r')" for r' x
      unfolding cr using wf_receiversD(2,4)[OF wf, of x r'] by auto
    have bound: "x < nextConn ?st2" if "conn_receiver (conns ?st2 x) = Some r'" for x r'
    proof -
      from that have "conn_receiver (conns st x) = Some r'" unfolding cr by (simp split: if_splits)
      from wf_receiversD(3)[OF wf this] links(5) show ?thesis by (simp add: clear_conn_def)
    qed
    have dead: "conn_receiver (conns ?st2 x) = None" if "\<not> live ?st2 x" for x
    proof (cases "x = c")
      case True
      then show ?thesis unfolding cr by simp
    next
      case False
      with that have "\<not> live st x" unfolding lv by simp
      from wf_receiversD(5)[OF wf this] False show ?thesis unfolding cr by simp
    qed
    have a: "wf_receivers ?st2" "rnodes ?st2 = ?ys"
    proof -
      note I = wf_receiversI[where st = ?st2 and ys = ?ys, OF chain' mem]
      show "wf_receivers ?st2" by (rule I(1)) (erule bound, erule dead)
      show "rnodes ?st2 = ?ys" by (rule I(2)) (erule bound, erule dead)
    qed
    have "receiverMap ?st2 r = None" if "rnodes st r = [c]"
    proof -
      from that dec have "xs = []" "zs = []" by (auto simp: append_eq_Cons_conv)
      with rm nc show ?thesis by simp
    qed
    with a Some show ?thesis by simp
  qed
  from main show "wf_receivers ?st2" by simp
  from main show "rnodes ?st2 r = removeAll c (rnodes st r)" by simp
  from main show "conn_receiver (conns st c) = Some r \<Longrightarrow> rnodes st r = [c] \<Longrightarrow> receiverMap ?st2 r = None"
    by blast
qed

section \<open>connect and the receiver chains\<close>

lemma create_connection_conns:
  "conns (create_connection g cb t st) x =
     (if x = nextConn st then new_Connection\<lparr>signal := Some g, callback := Some cb, thisArg := t\<rparr>
      else conns st x)"
  "receiverMap (create_connection g cb t st) = receiverMap st"
  "nextConn (create_connection g cb t st) = Suc (nextConn st)"
  by (simp_all add: create_connection_def)

lemma add_to_receivers_list_receiver_eq: "receiver_eq st (add_to_receivers_list s l c st)"
  by (simp add: receiver_eq_def add_to_receivers_list_def Let_def split: option.splits)

lemma receiver_of_conn_receiver:
  "callback r = Some cb \<Longrightarrow> thisArg r = coerce t \<Longrightarrow> conn_receiver r = Some (receiver_of (coerce t) cb)"
  by (cases t) (simp_all add: conn_receiver_def receiver_of_def coerce_def)

text \<open>A new connection goes to the head of the chain of its receiver.\<close>

lemma make_connection_receivers:
  assumes wf: "wf_receivers st"
  shows "wf_receivers (make_connection s g cb t st)"
    and "rnodes (make_connection s g cb t st) r
           = (if r = receiver_of (coerce t) cb then nextConn st # rnodes st r else rnodes st r)"
proof -
  let ?c = "nextConn st" and ?r = "receiver_of (coerce t) cb"
  let ?st1 = "create_connection g cb (coerce t) st"
  let ?st2 = "add_to_receivers_list s (senderMap st s) ?c ?st1"
  let ?st' = "make_connection s g cb t st"
  let ?ys = "\<lambda>r. if r = ?r then ?c # rnodes st r else rnodes st r"
  have e: "receiver_eq ?st1 ?st2" by (rule add_to_receivers_list_receiver_eq)
  have st': "?st' = add_to_senders_list ?r ?c ?st2" by (simp add: make_connection_def)
  have m2: "receiverMap ?st2 = receiverMap st" "nextConn ?st2 = Suc ?c"
    using e by (simp_all add: receiver_eq_def create_connection_conns)
  have f2: "callback (conns ?st2 x) = (if x = ?c then Some cb else callback (conns st x))"
    "thisArg (conns ?st2 x) = (if x = ?c then coerce t else thisArg (conns st x))"
    "prevSender (conns ?st2 x) = (if x = ?c then None else prevSender (conns st x))"
    "nextSender (conns ?st2 x) = (if x = ?c then None else nextSender (conns st x))" for x
    using e by (simp_all add: receiver_eq_def create_connection_conns new_Connection_def)
  have fresh: "?c \<notin> set (rnodes st r)" for r
    using wf_receiversD(2,3)[OF wf, of ?c r] by auto
  have hd: "h \<noteq> ?c" if "receiverMap st ?r = Some h" for h
  proof -
    from wf_receiversD(1)[OF wf, of ?r] that have "h \<in> set (rnodes st ?r)"
      by (cases "rnodes st ?r") auto
    with fresh show ?thesis by auto
  qed
  have m': "receiverMap ?st' = (receiverMap st)(?r \<mapsto> ?c)" "nextConn ?st' = Suc ?c"
    unfolding st' using m2 by (simp_all add: add_to_senders_list_def Let_def split: option.splits)
  have f': "callback (conns ?st' x) = (if x = ?c then Some cb else callback (conns st x))"
    "thisArg (conns ?st' x) = (if x = ?c then coerce t else thisArg (conns st x))"
    "nextSender (conns ?st' x) = (if x = ?c then receiverMap st ?r else nextSender (conns st x))"
    "prevSender (conns ?st' x)
       = (if x = ?c then None else if receiverMap st ?r = Some x then Some ?c else prevSender (conns st x))"
    for x
    unfolding st' using hd
    by (auto simp: add_to_senders_list_def Let_def m2 f2 split: option.splits)
  have cr: "conn_receiver (conns ?st' x) = (if x = ?c then Some ?r else conn_receiver (conns st x))" for x
  proof (cases "x = ?c")
    case True
    then show ?thesis using receiver_of_conn_receiver[of "conns ?st' ?c" cb t] f'(1,2)[of ?c] by simp
  next
    case False
    then show ?thesis using f'(1,2)[of x] by (auto simp: conn_receiver_def split: jsval.splits)
  qed
  have lv: "live ?st' x = (x = ?c \<or> live st x)" for x
    using f'(1)[of x] by (auto simp: live_def)
  have chain': "rchain (conns ?st') None (receiverMap ?st' r) (?ys r)" for r
  proof (cases "r = ?r")
    case True
    have "rchain (conns ?st') None (Some ?c) (?c # rnodes st ?r)"
    proof (rule rchain_push[OF wf_receiversD(1)[OF wf, of ?r] fresh])
      show "prevSender (conns ?st' ?c) = None" "nextSender (conns ?st' ?c) = receiverMap st ?r"
        using f'(3,4)[of ?c] by simp_all
      show "\<And>x. x \<noteq> ?c \<Longrightarrow> nextSender (conns ?st' x) = nextSender (conns st x)"
        using f'(3) by simp
      show "\<And>x. x \<noteq> ?c \<Longrightarrow> prevSender (conns ?st' x)
          = (if receiverMap st ?r = Some x then Some ?c else prevSender (conns st x))"
        using f'(4) by simp
    qed
    then show ?thesis using True m' by simp
  next
    case False
    have "rchain (conns ?st') None (receiverMap st r) (rnodes st r)
        = rchain (conns st) None (receiverMap st r) (rnodes st r)"
    proof (rule rchain_cong)
      fix y assume y: "y \<in> set (rnodes st r)"
      then have yc: "y \<noteq> ?c" using fresh[of r] by auto
      have "receiverMap st ?r \<noteq> Some y"
      proof
        assume h: "receiverMap st ?r = Some y"
        from wf_receiversD(1)[OF wf, of ?r] h have "y \<in> set (rnodes st ?r)"
          by (cases "rnodes st ?r") auto
        from wf_receiversD(2)[OF wf this] wf_receiversD(2)[OF wf y] False show False by simp
      qed
      with yc show "nextSender (conns ?st' y) = nextSender (conns st y)
          \<and> prevSender (conns ?st' y) = prevSender (conns st y)"
        using f'(3,4)[of y] by simp
    qed
    then show ?thesis using False m' wf_receiversD(1)[OF wf, of r] by simp
  qed
  have mem: "(x \<in> set (?ys r)) = (conn_receiver (conns ?st' x) = Some r)" for r x
  proof (cases "x = ?c")
    case True
    then show ?thesis using fresh[of r] by (auto simp: cr)
  next
    case False
    then show ?thesis using wf_receiversD(2,4)[OF wf, of x r] by (auto simp: cr)
  qed
  have bound: "x < nextConn ?st'" if "conn_receiver (conns ?st' x) = Some r" for x r
  proof (cases "x = ?c")
    case True
    then show ?thesis using m' by simp
  next
    case False
    with that have "conn_receiver (conns st x) = Some r" by (simp add: cr)
    from wf_receiversD(3)[OF wf this] m' show ?thesis by simp
  qed
  have dead: "conn_receiver (conns ?st' x) = None" if "\<not> live ?st' x" for x
  proof -
    from that have "x \<noteq> ?c" "\<not> live st x" by (simp_all add: lv)
    with wf_receiversD(5)[OF wf, of x] show ?thesis by (simp add: cr)
  qed
  note I = wf_receiversI[where st = ?st' and ys = ?ys, OF chain' mem]
  show "wf_receivers ?st'" by (rule I(1)) (erule bound, erule dead)
  have "rnodes ?st' = ?ys" by (rule I(2)) (erule bound, erule dead)
  then show "rnodes ?st' r = (if r = ?r then ?c # rnodes st r else rnodes st r)" by simp
qed

lemma connect_receivers:
  assumes wf: "wf_state st" and wr: "wf_receivers st" and c: "connect s g cb t st = Some (b, st')"
  shows "wf_receivers st'"
proof (cases b)
  case True
  with c have "st' = make_connection s g cb t st"
    by (auto simp: connect_connection make_connection_def split: option.splits)
  then show ?thesis using make_connection_receivers(1)[OF wr] by simp
next
  case False
  with connect_False(1)[OF wf, of s g cb t st'] c wr show ?thesis by simp
qed

lemma disconnect_receivers:
  assumes wr: "wf_receivers st" and d: "disconnect s g cb t st = Some (b, st')"
  shows "wf_receivers st'"
proof (cases b)
  case True
  with d obtain c where "st' = clear_conn c (removeFromSendersList c st)"
    by (auto simp: disconnect_connection split: option.splits)
  then show ?thesis using kill_receivers(1)[OF wr] by simp
next
  case False
  with d have "st' = st" by (auto simp: disconnect_connection split: option.splits)
  with wr show ?thesis by simp
qed

section \<open>Teardown and the receiver chains\<close>

lemma disconnectSender_loop_receivers:
  assumes "disconnectSender_loop p st = Some st'" and "wf_receivers st"
  shows "wf_receivers st'"
  using assms
proof (induct rule: disconnectSender_loop.raw_induct[rotated 1, consumes 1, case_names step])
  case (step loop p st st')
  show ?case
  proof (cases p)
    case None
    with step(2,3) show ?thesis by simp
  next
    case (Some c)
    let ?st1 = "clear_conn c (removeFromSendersList c st)"
    from step(2) Some have "loop (nextReceiver (conns ?st1 c)) ?st1 = Some st'"
      by (simp add: Let_def)
    from step(1)[OF this kill_receivers(1)[OF step(3)]] show ?thesis .
  qed
qed

lemma disconnectSender_receivers:
  assumes wr: "wf_receivers st" and d: "disconnectSender s st = Some st'"
  shows "wf_receivers st'"
proof (cases "senderMap st s")
  case None
  with d wr show ?thesis by (simp add: disconnectSender_def)
next
  case (Some l)
  with d obtain st1 where l: "disconnectSender_loop (first (lists st l)) st = Some st1"
    and st': "st' = st1\<lparr>senderMap := (senderMap st1)(s := None)\<rparr>"
    by (auto simp: disconnectSender_def split: option.splits)
  from disconnectSender_loop_receivers[OF l wr] show ?thesis
    unfolding st' by (rule receiver_eq_wf[OF senderMap_update_receiver_eq])
qed

lemma detachedD:
  assumes "detached K st st'"
  shows "killed K st st'" "receiverMap st' = receiverMap st"
    "c \<in> K \<Longrightarrow> prevSender (conns st' c) = None" "c \<in> K \<Longrightarrow> nextSender (conns st' c) = None"
    "c \<notin> K \<Longrightarrow> prevSender (conns st' c) = prevSender (conns st c)"
    "c \<notin> K \<Longrightarrow> nextSender (conns st' c) = nextSender (conns st c)"
  using assms by (simp_all add: detached_def)

lemma detached_empty: "detached {} st st"
  by (simp add: detached_def killed_def)

lemma detached_one:
  "detached {c} st (upd_conn c (\<lambda>r. r\<lparr>prevSender := None, nextSender := None\<rparr>) (clear_conn c st))"
  by (simp add: detached_def killed_def clear_conn_def)

lemma detached_trans:
  assumes a: "detached A st st1" and b: "detached B st1 st2"
  shows "detached (A \<union> B) st st2"
proof -
  have k: "killed (A \<union> B) st st2" using killed_trans[OF detachedD(1)[OF a] detachedD(1)[OF b]] .
  show ?thesis
    unfolding detached_def
  proof (intro conjI allI impI)
    show "killed (A \<union> B) st st2" by (rule k)
    show "receiverMap st2 = receiverMap st" using detachedD(2)[OF a] detachedD(2)[OF b] by simp
  next
    fix c assume c: "c \<in> A \<union> B"
    show "prevSender (conns st2 c) = None"
      using c detachedD(3)[OF b, of c] detachedD(5)[OF b, of c] detachedD(3)[OF a, of c]
      by (cases "c \<in> B") auto
    show "nextSender (conns st2 c) = None"
      using c detachedD(4)[OF b, of c] detachedD(6)[OF b, of c] detachedD(4)[OF a, of c]
      by (cases "c \<in> B") auto
  next
    fix c assume c: "c \<notin> A \<union> B"
    show "prevSender (conns st2 c) = prevSender (conns st c)"
      using c detachedD(5)[OF b, of c] detachedD(5)[OF a, of c] by simp
    show "nextSender (conns st2 c) = nextSender (conns st c)"
      using c detachedD(6)[OF b, of c] detachedD(6)[OF a, of c] by simp
  qed
qed

text \<open>The loop of \<open>disconnectReceiver\<close> ends: it walks the chain of the receiver.\<close>

lemma disconnectReceiver_loop_chain:
  "rchain (conns st) pv p xs \<Longrightarrow> \<exists>st'. disconnectReceiver_loop p st = Some st' \<and> detached (set xs) st st'"
proof (induction xs arbitrary: st pv p)
  case Nil
  then show ?case by (simp add: disconnectReceiver_loop.simps detached_empty)
next
  case (Cons x xs)
  let ?st1 = "upd_conn x (\<lambda>r. r\<lparr>prevSender := None, nextSender := None\<rparr>) (clear_conn x st)"
  have d1: "detached {x} st ?st1" by (rule detached_one)
  from Cons.prems have p: "p = Some x" and ch: "rchain (conns st) (Some x) (nextSender (conns st x)) xs"
    by simp_all
  have xn: "x \<notin> set xs" using rchain_suffix_notin[OF ch] .
  have "rchain (conns ?st1) (Some x) (nextSender (conns st x)) xs
      = rchain (conns st) (Some x) (nextSender (conns st x)) xs"
    by (rule rchain_cong) (use xn in \<open>auto simp: clear_conn_def\<close>)
  with ch have "rchain (conns ?st1) (Some x) (nextSender (conns st x)) xs" by simp
  from Cons.IH[OF this] obtain st' where
    l: "disconnectReceiver_loop (nextSender (conns st x)) ?st1 = Some st'"
    and d2: "detached (set xs) ?st1 st'" by blast
  have "disconnectReceiver_loop p st = Some st'"
    unfolding p by (subst disconnectReceiver_loop.simps) (use l in \<open>simp add: Let_def\<close>)
  moreover have "detached (set (x # xs)) st st'"
    using detached_trans[OF d1 d2] by simp
  ultimately show ?case by blast
qed

lemma disconnectReceiver_effect:
  assumes wr: "wf_receivers st"
  shows "\<exists>st1. disconnectReceiver r st = Some (st1\<lparr>receiverMap := (receiverMap st)(r := None)\<rparr>)
           \<and> detached (set (rnodes st r)) st st1"
proof (cases "receiverMap st r")
  case None
  then have "(receiverMap st)(r := None) = receiverMap st" by auto
  then have e: "st\<lparr>receiverMap := (receiverMap st)(r := None)\<rparr> = st" by simp
  from wf_receiversD(1)[OF wr, of r] None have "rnodes st r = []" by simp
  then show ?thesis using None e detached_empty[of st]
    by (auto simp: disconnectReceiver_def intro!: exI[of _ st])
next
  case (Some c)
  from disconnectReceiver_loop_chain[OF wf_receiversD(1)[OF wr, of r]] obtain st1 where
    "disconnectReceiver_loop (receiverMap st r) st = Some st1" "detached (set (rnodes st r)) st st1"
    by blast
  then show ?thesis using Some
    by (auto simp: disconnectReceiver_def detachedD(2) intro!: exI[of _ st1])
qed

lemma detached_receivers:
  assumes wr: "wf_receivers st" and d: "detached (set (rnodes st r)) st st1"
  shows "wf_receivers (st1\<lparr>receiverMap := (receiverMap st)(r := None)\<rparr>)"
    and "rnodes (st1\<lparr>receiverMap := (receiverMap st)(r := None)\<rparr>) r'
           = (if r' = r then [] else rnodes st r')"
proof -
  let ?K = "set (rnodes st r)"
  let ?st' = "st1\<lparr>receiverMap := (receiverMap st)(r := None)\<rparr>"
  let ?ys = "\<lambda>r'. if r' = r then [] else rnodes st r'"
  note k = detachedD(1)[OF d]
  have K: "(x \<in> ?K) = (conn_receiver (conns st x) = Some r)" for x
    using wf_receiversD(2,4)[OF wr, of x r] by blast
  have cr: "conn_receiver (conns ?st' x) = (if x \<in> ?K then None else conn_receiver (conns st x))" for x
    using killedD(7,8,9,10)[OF k, of x] by (auto simp: conn_receiver_def split: jsval.splits)
  have lv: "live ?st' x = (live st x \<and> x \<notin> ?K)" for x
    using killed_live[OF k, of x] by (simp add: live_def)
  have chain': "rchain (conns ?st') None (receiverMap ?st' r') (?ys r')" for r'
  proof (cases "r' = r")
    case True
    then show ?thesis by simp
  next
    case False
    have "rchain (conns ?st') None (receiverMap st r') (rnodes st r')
        = rchain (conns st) None (receiverMap st r') (rnodes st r')"
    proof (rule rchain_cong)
      fix y assume "y \<in> set (rnodes st r')"
      from wf_receiversD(2)[OF wr this] False have "y \<notin> ?K" by (simp add: K)
      then show "nextSender (conns ?st' y) = nextSender (conns st y)
          \<and> prevSender (conns ?st' y) = prevSender (conns st y)"
        using detachedD(5,6)[OF d, of y] by simp
    qed
    then show ?thesis using False wf_receiversD(1)[OF wr, of r'] by simp
  qed
  have mem: "(x \<in> set (?ys r')) = (conn_receiver (conns ?st' x) = Some r')" for r' x
    unfolding cr using wf_receiversD(2,4)[OF wr, of x r'] K[of x] by auto
  have bound: "x < nextConn ?st'" if "conn_receiver (conns ?st' x) = Some r'" for x r'
  proof -
    from that have "conn_receiver (conns st x) = Some r'" unfolding cr by (simp split: if_splits)
    from wf_receiversD(3)[OF wr this] killedD(3)[OF k] show ?thesis by simp
  qed
  have dead: "conn_receiver (conns ?st' x) = None" if "\<not> live ?st' x" for x
  proof (cases "x \<in> ?K")
    case True
    then show ?thesis unfolding cr by simp
  next
    case False
    with that have "\<not> live st x" unfolding lv by simp
    from wf_receiversD(5)[OF wr this] False show ?thesis unfolding cr by simp
  qed
  note I = wf_receiversI[where st = ?st' and ys = ?ys, OF chain' mem]
  show "wf_receivers ?st'" by (rule I(1)) (erule bound, erule dead)
  have "rnodes ?st' = ?ys" by (rule I(2)) (erule bound, erule dead)
  then show "rnodes ?st' r' = (if r' = r then [] else rnodes st r')" by simp
qed

lemma disconnectReceiver_receivers:
  assumes wr: "wf_receivers st" and d: "disconnectReceiver r st = Some st'"
  shows "wf_receivers st'"
proof -
  from disconnectReceiver_effect[OF wr, of r] d obtain st1 where
    "st' = st1\<lparr>receiverMap := (receiverMap st)(r := None)\<rparr>" "detached (set (rnodes st r)) st st1"
    by auto
  then show ?thesis using detached_receivers(1)[OF wr] by simp
qed

lemma clearSignalData_receivers:
  assumes wr: "wf_receivers st" and d: "clearSignalData x st = Some st'"
  shows "wf_receivers st'"
proof -
  from d obtain st1 where a: "disconnectSender x st = Some st1"
    and b: "disconnectReceiver x st1 = Some st'"
    by (auto simp: clearSignalData_def split: option.splits)
  from disconnectReceiver_receivers[OF disconnectSender_receivers[OF wr a] b] show ?thesis .
qed

section \<open>Emissions and the receiver chains\<close>

lemma invokeList_loop_receivers_aux:
  assumes run: "invokeList_loop call lst s g a d evs conn st = Some res"
    and pw: "preserves_wf call" and pr: "preserves_receivers call"
    and wf: "wf_state st" and wr: "wf_receivers st"
  shows "wf_state (snd (snd (snd res))) \<and> wf_receivers (snd (snd (snd res)))"
  using run pw pr wf wr
proof (induct rule: invokeList_loop.raw_induct[rotated 1, consumes 1, case_names step])
  case (step loop call lst s g a d evs conn st res)
  note pw = step(3) and pr = step(4) and wf = step(5) and wr = step(6)
  show ?case
  proof (cases conn)
    case None
    with step(2) wf wr show ?thesis by auto
  next
    case (Some c)
    from step(2) Some obtain out1 d1 ev1 st1 where
      ic: "invoke_conn call s g a c d st = Some (out1, d1, ev1, st1)"
      by (auto split: option.splits)
    have inv1: "wf_state st1 \<and> wf_receivers st1"
    proof (cases "callback (conns st c)")
      case None
      with ic wf wr show ?thesis by (simp add: invoke_conn_def)
    next
      case (Some cb)
      show ?thesis
      proof (cases "signal (conns st c) = Some g")
        case False
        with ic Some wf wr show ?thesis by (simp add: invoke_conn_def)
      next
        case True
        with ic Some obtain sub where
          "call cb (thisArg (conns st c)) s a st = Some (out1, sub, st1)"
          by (auto simp: invoke_conn_def split: option.splits)
        with pw pr wf wr show ?thesis
          unfolding preserves_wf_def preserves_receivers_def by blast
      qed
    qed
    show ?thesis
    proof (cases out1)
      case Thrown
      with step(2) Some ic have "res = (Thrown, d1, evs @ ev1, st1)" by auto
      with inv1 show ?thesis by simp
    next
      case Returned
      show ?thesis
      proof (cases "conn = lst")
        case True
        with step(2) Some ic Returned have "res = (Returned, d1, evs @ ev1, st1)" by auto
        with inv1 show ?thesis by simp
      next
        case False
        with step(2) Some ic Returned have
          "loop call lst s g a d1 (evs @ ev1) (nextReceiver (conns st1 c)) st1 = Some res"
          by simp
        from step(1)[OF this pw pr] inv1 show ?thesis by simp
      qed
    qed
  qed
qed

lemma invokeList_loop_receivers:
  assumes "preserves_wf call" "preserves_receivers call"
    and "invokeList_loop call lst s g a d evs conn st = Some (out, d', evs', st')"
    and "wf_state st" "wf_receivers st"
  shows "wf_state st' \<and> wf_receivers st'"
  using invokeList_loop_receivers_aux[OF assms(3,1,2,4,5)] by simp

lemma cleanList_loop_receiver_eq_aux:
  assumes "cleanList_loop l prev conn st = Some res"
  shows "receiver_eq st (snd res)"
  using assms
proof (induct rule: cleanList_loop.raw_induct[rotated 1, consumes 1, case_names step])
  case (step loop l prev conn st res)
  show ?case
  proof (cases conn)
    case None
    with step(2) show ?thesis by auto
  next
    case (Some c)
    show ?thesis
    proof (cases "callback (conns st c) = None")
      case True
      with step(2) Some have
        "loop l prev (nextReceiver (conns st c)) (upd_conn c (\<lambda>r. r\<lparr>nextReceiver := None\<rparr>) st) = Some res"
        by (simp add: Let_def)
      from step(1)[OF this] show ?thesis by (simp add: receiver_eq_def)
    next
      case False
      show ?thesis
      proof (cases prev)
        case None
        with step(2) Some False have
          "loop l (Some c) (nextReceiver (conns st c)) (upd_list l (\<lambda>r. r\<lparr>first := Some c\<rparr>) st) = Some res"
          by (simp add: Let_def)
        from step(1)[OF this] show ?thesis by (simp add: receiver_eq_def)
      next
        case (Some q)
        with step(2) \<open>conn = Some c\<close> False have
          "loop l (Some c) (nextReceiver (conns st c)) (upd_conn q (\<lambda>r. r\<lparr>nextReceiver := Some c\<rparr>) st) = Some res"
          by (simp add: Let_def)
        from step(1)[OF this] show ?thesis by (simp add: receiver_eq_def)
      qed
    qed
  qed
qed

lemma cleanList_loop_receiver_eq:
  "cleanList_loop l prev conn st = Some (p, st') \<Longrightarrow> receiver_eq st st'"
  using cleanList_loop_receiver_eq_aux[of l prev conn st "(p, st')"] by simp

lemma cleanList_receiver_eq:
  assumes "cleanList l st = Some st'"
  shows "receiver_eq st st'"
proof -
  from assms obtain p st1 where l: "cleanList_loop l None (first (lists st l)) st = Some (p, st1)"
    by (auto simp: cleanList_def split: option.splits)
  from cleanList_loop_receiver_eq[OF l] assms l show ?thesis
    by (cases p) (auto simp: cleanList_def receiver_eq_def)
qed

lemma emit_receivers:
  assumes pw: "preserves_wf call" and pr: "preserves_receivers call"
    and wf: "wf_state st" and wr: "wf_receivers st"
    and run: "emit call s g a st = Some (out, evs, st')"
  shows "wf_receivers st'"
proof (cases "senderMap st s")
  case None
  with run wr show ?thesis by (simp add: emit_def)
next
  case (Some l)
  let ?sta = "upd_list l (\<lambda>r. r\<lparr>refs := refs r + 1\<rparr>) st"
  have l: "l < nextList st" using wf Some by (rule wf_senderMap)
  have r0: "0 \<le> refs (lists st l)" using wf_list_ok[OF wf l] by (simp add: list_ok_def)
  have wfa: "wf_state ?sta" using wf r0 by (intro upd_refs_wf) simp_all
  have wra: "wf_receivers ?sta" using wr by (rule receiver_eq_wf[OF upd_list_receiver_eq])
  from run Some obtain d' stb where
    il: "invokeList call l s g a ?sta = Some (out, d', evs, stb)"
    by (auto simp: emit_def Let_def split: option.splits outcome.splits if_splits)
  from invokeList_loop_receivers[OF pw pr il[unfolded invokeList_def] wfa wra]
  have wrb: "wf_receivers stb" by simp
  let ?stc = "upd_list l (\<lambda>r. r\<lparr>refs := refs r - 1\<rparr>) stb"
  have wrc: "wf_receivers ?stc" using wrb by (rule receiver_eq_wf[OF upd_list_receiver_eq])
  from run Some il have "st' = ?stc \<or> cleanList l ?stc = Some st'"
    by (cases out) (auto simp: emit_def Let_def split: if_splits option.splits)
  then show ?thesis
    using wrc receiver_eq_wf[OF cleanList_receiver_eq] by blast
qed

lemma exec_receivers:
  assumes pw: "preserves_wf call" and pr: "preserves_receivers call"
    and wf: "wf_state st" and wr: "wf_receivers st"
    and run: "exec call x st = Some (out, ev, st')"
  shows "wf_receivers st'"
proof (cases x)
  case (Connect s g cb t)
  with run obtain b where "connect s g cb t st = Some (b, st')"
    by (auto simp: lift_bool_def split: option.splits)
  then show ?thesis by (rule connect_receivers[OF wf wr])
next
  case (Disconnect s g cb t)
  with run obtain b where "disconnect s g cb t st = Some (b, st')"
    by (auto simp: lift_bool_def split: option.splits)
  then show ?thesis by (rule disconnect_receivers[OF wr])
next
  case (Emit s g a)
  with run emit_receivers[OF pw pr wf wr, of s g a out ev st'] show ?thesis by simp
next
  case (DisconnectSender s)
  with run have "disconnectSender s st = Some st'"
    by (auto simp: lift_unit_def split: option.splits)
  then show ?thesis by (rule disconnectSender_receivers[OF wr])
next
  case (DisconnectReceiver r)
  with run have "disconnectReceiver r st = Some st'"
    by (auto simp: lift_unit_def split: option.splits)
  then show ?thesis by (rule disconnectReceiver_receivers[OF wr])
next
  case (ClearSignalData y)
  with run have "clearSignalData y st = Some st'"
    by (auto simp: lift_unit_def split: option.splits)
  then show ?thesis by (rule clearSignalData_receivers[OF wr])
next
  case Throw
  with run wr show ?thesis by simp
qed

lemma exec_all_receivers:
  assumes pw: "preserves_wf call" and pr: "preserves_receivers call"
  shows "wf_state st \<Longrightarrow> wf_receivers st \<Longrightarrow> exec_all call xs st = Some (out, ev, st')
     \<Longrightarrow> wf_receivers st'"
proof (induction xs arbitrary: st out ev st')
  case Nil
  then show ?case by simp
next
  case (Cons x xs)
  from Cons.prems(3) obtain out1 ev1 st1 where x: "exec call x st = Some (out1, ev1, st1)"
    by (auto split: option.splits)
  from exec_inv[OF pw Cons.prems(1) x] have wf1: "wf_state st1" by simp
  from exec_receivers[OF pw pr Cons.prems(1,2) x] have wr1: "wf_receivers st1" .
  show ?case
  proof (cases out1)
    case Thrown
    with Cons.prems(3) x have "st' = st1" by simp
    with wr1 show ?thesis by simp
  next
    case Returned
    with Cons.prems(3) x obtain ev2 where "exec_all call xs st1 = Some (out, ev2, st')"
      by (auto split: option.splits)
    from Cons.IH[OF wf1 wr1 this] show ?thesis .
  qed
qed

lemma run_callback_preserves_receivers: "preserves_receivers (run_callback n p)"
proof (induction n)
  case 0
  show ?case by (simp add: preserves_receivers_def)
next
  case (Suc n)
  show ?case
    unfolding preserves_receivers_def
    using exec_all_receivers[OF run_callback_preserves_wf Suc] by auto
qed

text \<open>Every registry that a script reaches from the empty one is well formed.\<close>

lemma reachable_wf:
  assumes "exec_all (run_callback n p) xs init = Some (out, evs, st)"
  shows "wf_state st" and "wf_receivers st"
proof -
  show "wf_state st"
    using exec_all_inv[OF run_callback_preserves_wf init_wf assms] by simp
  show "wf_receivers st"
    by (rule exec_all_receivers[OF run_callback_preserves_wf run_callback_preserves_receivers
          init_wf init_wf_receivers assms])
qed

section \<open>What teardown leaves\<close>

lemma killed_subscribers:
  assumes k: "killed K st st'"
  shows "subscribers st' s g = filter (\<lambda>x. x \<notin> K) (subscribers st s g)"
proof -
  have "subscriber st' g = (\<lambda>x. subscriber st g x \<and> x \<notin> K)"
    using killed_live[OF k] killedD(5)[OF k] by (auto simp: subscriber_def fun_eq_iff)
  then show ?thesis
    unfolding subscribers_alt killedD(2)[OF k] killed_nodes[OF k]
    by (cases "senderMap st s") (simp_all add: conj_commute)
qed

lemma killed_key_of: "killed K st st' \<Longrightarrow> x \<notin> K \<Longrightarrow> key_of st' x = key_of st x"
  using killedD(9,10)[of K st st' x] by (simp add: key_of_def)

lemma killed_subscriptions:
  assumes k: "killed K st st'"
  shows "subscriptions st' s g = map (key_of st) (filter (\<lambda>x. x \<notin> K) (subscribers st s g))"
  unfolding subscriptions_def killed_subscribers[OF k]
  by (rule map_cong) (simp_all add: killed_key_of[OF k])

lemma subscriptions_cong:
  assumes m: "senderMap st' s = senderMap st s"
    and n: "\<And>l. senderMap st s = Some l \<Longrightarrow> nodes st' l = nodes st l"
    and c: "\<And>x. signal (conns st' x) = signal (conns st x) \<and> callback (conns st' x) = callback (conns st x)
               \<and> thisArg (conns st' x) = thisArg (conns st x)"
  shows "subscriptions st' s g = subscriptions st s g"
proof -
  have k: "key_of st' = key_of st" and sb: "subscriber st' g = subscriber st g"
    using c by (simp_all add: key_of_def subscriber_def live_def fun_eq_iff)
  show ?thesis
  proof (cases "senderMap st s")
    case None
    with m show ?thesis by (simp add: subscriptions_def subscribers_alt)
  next
    case (Some l)
    with m n[OF Some] show ?thesis by (simp add: subscriptions_def subscribers_alt k sb)
  qed
qed

lemma subscriptions_senderMap_None: "senderMap st s = None \<Longrightarrow> subscriptions st s g = []"
  by (simp add: subscriptions_def subscribers_def)

lemma receiverMap_update_nodes [simp]: "nodes (st\<lparr>receiverMap := m\<rparr>) l = nodes st l"
  by (simp add: nodes_def)

lemma subscriptions_receiverMap_update:
  "subscriptions (st\<lparr>receiverMap := m\<rparr>) s g = subscriptions st s g"
  by (rule subscriptions_cong) simp_all

text \<open>\<open>disconnectSender\<close> leaves the sender without subscriptions, and the other senders as they were.\<close>

lemma disconnectSender_subscriptions:
  assumes wf: "wf_state st"
  shows "\<exists>st'. disconnectSender s st = Some st' \<and> wf_state st' \<and> senderMap st' s = None
           \<and> (\<forall>s' g. subscriptions st' s' g = (if s' = s then [] else subscriptions st s' g))"
proof -
  from disconnectSender_effect[OF wf, of s] obtain st1 K where
    d: "disconnectSender s st = Some (st1\<lparr>senderMap := (senderMap st)(s := None)\<rparr>)"
    and k: "killed K st st1"
    and K: "K = (case senderMap st s of None \<Rightarrow> {} | Some l \<Rightarrow> set (nodes st l))" by blast
  let ?st' = "st1\<lparr>senderMap := (senderMap st)(s := None)\<rparr>"
  have wf': "wf_state ?st'" using disconnectSender_wf[OF wf d] by simp
  have "subscriptions ?st' s' g = (if s' = s then [] else subscriptions st s' g)" for s' g
  proof (cases "s' = s")
    case True
    then show ?thesis by (simp add: subscriptions_senderMap_None)
  next
    case False
    have "subscriptions ?st' s' g = subscriptions st1 s' g"
      by (rule subscriptions_cong) (use False killedD(2)[OF k] in simp_all)
    also have "\<dots> = map (key_of st) (filter (\<lambda>x. x \<notin> K) (subscribers st s' g))"
      by (rule killed_subscriptions[OF k])
    also have "filter (\<lambda>x. x \<notin> K) (subscribers st s' g) = subscribers st s' g"
    proof (rule filter_True, intro ballI)
      fix x assume x: "x \<in> set (subscribers st s' g)"
      then obtain l' where l': "senderMap st s' = Some l'" and xl: "x \<in> set (nodes st l')"
        by (cases "senderMap st s'") (auto simp: subscribers_alt)
      show "x \<notin> K"
      proof (cases "senderMap st s")
        case None
        with K show ?thesis by simp
      next
        case (Some l)
        have "l' \<noteq> l" using wf_senderMap_inj[OF wf Some, of s'] l' False by auto
        from wf_disjoint[OF wf wf_senderMap[OF wf l'] wf_senderMap[OF wf Some] this xl]
        show ?thesis using K Some by simp
      qed
    qed
    finally have "subscriptions ?st' s' g = subscriptions st s' g" unfolding subscriptions_def .
    with False show ?thesis by simp
  qed
  with d wf' show ?thesis by auto
qed

lemma live_key_receiver:
  "live st x \<Longrightarrow> conn_receiver (conns st x) = Some (key_receiver (key_of st x))"
  by (auto simp: live_def conn_receiver_def key_receiver_def key_of_def receiver_of_def split: jsval.splits)

text \<open>
  \<open>disconnectReceiver\<close> ends, and leaves of each signal of each sender the subscriptions of
  the other receivers, in their order.
\<close>

lemma disconnectReceiver_subscriptions:
  assumes wf: "wf_state st" and wr: "wf_receivers st"
  shows "\<exists>st'. disconnectReceiver r st = Some st' \<and> wf_state st' \<and> wf_receivers st'
           \<and> receiverMap st' r = None
           \<and> (\<forall>s g. subscriptions st' s g = filter (\<lambda>k. key_receiver k \<noteq> r) (subscriptions st s g))"
proof -
  from disconnectReceiver_effect[OF wr, of r] obtain st1 where
    d: "disconnectReceiver r st = Some (st1\<lparr>receiverMap := (receiverMap st)(r := None)\<rparr>)"
    and dt: "detached (set (rnodes st r)) st st1" by blast
  let ?st' = "st1\<lparr>receiverMap := (receiverMap st)(r := None)\<rparr>"
  let ?K = "set (rnodes st r)"
  note k = detachedD(1)[OF dt]
  have wf': "wf_state ?st'" using disconnectReceiver_wf[OF wf d] by simp
  have wr': "wf_receivers ?st'" using detached_receivers(1)[OF wr dt] .
  have "subscriptions ?st' s g = filter (\<lambda>k. key_receiver k \<noteq> r) (subscriptions st s g)" for s g
  proof -
    have "subscriptions ?st' s g = map (key_of st) (filter (\<lambda>x. x \<notin> ?K) (subscribers st s g))"
      unfolding subscriptions_receiverMap_update by (rule killed_subscriptions[OF k])
    also have "filter (\<lambda>x. x \<notin> ?K) (subscribers st s g)
        = filter (\<lambda>x. key_receiver (key_of st x) \<noteq> r) (subscribers st s g)"
    proof (rule filter_cong[OF refl])
      fix x assume "x \<in> set (subscribers st s g)"
      then have lv: "live st x"
        by (cases "senderMap st s") (auto simp: subscribers_alt subscriber_def)
      from live_key_receiver[OF lv] wf_receiversD(2,4)[OF wr, of x r]
      show "(x \<notin> ?K) = (key_receiver (key_of st x) \<noteq> r)" by auto
    qed
    finally show ?thesis unfolding subscriptions_def filter_map comp_def .
  qed
  with d wf' wr' show ?thesis by auto
qed

lemma emit_idle:
  assumes wf: "wf_state st"
  shows "\<exists>st'. emit (run_callback (Suc n) idle) s g a st
           = Some (Returned, map (invocation s a) (subscriptions st s g), st')"
  using emit_refines[OF wf, of n s g a] by (auto simp: spec_emit_def)

lemma emit_callees:
  assumes wf: "wf_state st" and run: "emit (run_callback n p) s g a st = Some (out, evs, st')"
    and e: "e \<in> set evs"
  shows "callee e \<in> set (subscriptions st s g)"
proof -
  from emit_in_order[OF wf run] obtain K where
    "map callee evs = filter (\<lambda>k. k \<in> K) (subscriptions st s g)" by blast
  moreover have "callee e \<in> set (map callee evs)" using e by simp
  ultimately show ?thesis by auto
qed

text \<open>
  C7.  In every registry that a script reaches from the empty one: \<open>disconnectSender\<close> on
  a sender returns, and then an \<open>emit\<close> of any signal on that sender invokes nothing, while
  every other sender keeps its subscriptions, which its emissions invoke;
  \<open>disconnectReceiver\<close> on a receiver returns, and then every signal of every sender keeps
  the subscriptions of the other receivers, in their order, which its emissions invoke,
  and no \<open>emit\<close> call invokes a callback of that receiver, whatever the callbacks are.
\<close>

theorem bulk_teardown:
  assumes "exec_all (run_callback n0 p0) xs init = Some (out0, evs0, st)"
  shows "(\<exists>st'. disconnectSender s st = Some st'
            \<and> (\<forall>g a. emit (run_callback n p) s g a st' = Some (Returned, [], st'))
            \<and> (\<forall>s' g a. s' \<noteq> s \<longrightarrow>
                  subscriptions st' s' g = subscriptions st s' g
                  \<and> (\<exists>st''. emit (run_callback (Suc n) idle) s' g a st'
                        = Some (Returned, map (invocation s' a) (subscriptions st s' g), st''))))
       \<and> (\<exists>st'. disconnectReceiver r st = Some st'
            \<and> (\<forall>s g a.
                  subscriptions st' s g = filter (\<lambda>k. key_receiver k \<noteq> r) (subscriptions st s g)
                  \<and> (\<exists>st''. emit (run_callback (Suc n) idle) s g a st'
                        = Some (Returned,
                             map (invocation s a) (filter (\<lambda>k. key_receiver k \<noteq> r) (subscriptions st s g)),
                             st''))
                  \<and> (\<forall>out evs st''. emit (run_callback n p) s g a st' = Some (out, evs, st'')
                        \<longrightarrow> (\<forall>e\<in>set evs. key_receiver (callee e) \<noteq> r))))"
proof (rule conjI)
  note wf = reachable_wf(1)[OF assms] and wr = reachable_wf(2)[OF assms]
  from disconnectSender_subscriptions[OF wf, of s] obtain st' where
    d: "disconnectSender s st = Some st'" and wf': "wf_state st'" and m: "senderMap st' s = None"
    and sb: "\<And>s' g. subscriptions st' s' g = (if s' = s then [] else subscriptions st s' g)"
    by blast
  have a: "emit (run_callback n p) s g a st' = Some (Returned, [], st')" for g a
    using m by (rule emit_unconnected)
  have b: "subscriptions st' s' g = subscriptions st s' g
      \<and> (\<exists>st''. emit (run_callback (Suc n) idle) s' g a st'
             = Some (Returned, map (invocation s' a) (subscriptions st s' g), st''))"
    if "s' \<noteq> s" for s' g a
    using emit_idle[OF wf', of n s' g a] sb[of s' g] that by simp
  from d a b show "\<exists>st'. disconnectSender s st = Some st'
            \<and> (\<forall>g a. emit (run_callback n p) s g a st' = Some (Returned, [], st'))
            \<and> (\<forall>s' g a. s' \<noteq> s \<longrightarrow>
                  subscriptions st' s' g = subscriptions st s' g
                  \<and> (\<exists>st''. emit (run_callback (Suc n) idle) s' g a st'
                        = Some (Returned, map (invocation s' a) (subscriptions st s' g), st'')))"
    by blast
next
  note wf = reachable_wf(1)[OF assms] and wr = reachable_wf(2)[OF assms]
  let ?f = "\<lambda>s g. filter (\<lambda>k. key_receiver k \<noteq> r) (subscriptions st s g)"
  from disconnectReceiver_subscriptions[OF wf wr, of r] obtain st' where
    d: "disconnectReceiver r st = Some st'" and wf': "wf_state st'"
    and sb: "\<And>s g. subscriptions st' s g = ?f s g"
    by blast
  have b: "\<exists>st''. emit (run_callback (Suc n) idle) s g a st'
             = Some (Returned, map (invocation s a) (?f s g), st'')" for s g a
    using emit_idle[OF wf', of n s g a] sb[of s g] by simp
  have c: "\<forall>e\<in>set evs. key_receiver (callee e) \<noteq> r"
    if "emit (run_callback n p) s g a st' = Some (out, evs, st'')" for s g a out evs st''
    using emit_callees[OF wf' that] sb[of s g] by auto
  from d sb b c show "\<exists>st'. disconnectReceiver r st = Some st'
            \<and> (\<forall>s g a.
                  subscriptions st' s g = ?f s g
                  \<and> (\<exists>st''. emit (run_callback (Suc n) idle) s g a st'
                        = Some (Returned, map (invocation s a) (?f s g), st''))
                  \<and> (\<forall>out evs st''. emit (run_callback n p) s g a st' = Some (out, evs, st'')
                        \<longrightarrow> (\<forall>e\<in>set evs. key_receiver (callee e) \<noteq> r)))"
    by blast
qed

theorem bulk_teardown_witness:
  "(case exec_all (run_callback 0 idle) teardown_script init of None \<Rightarrow> False | Some r \<Rightarrow> True)
   \<and> subscriptions two_senders 7 1 = [(11, Obj 1), (12, Obj 2)]
   \<and> subscriptions two_senders 8 1 = [(11, Obj 1), (13, Undefined)]
   \<and> (case disconnectSender 7 two_senders of
         None \<Rightarrow> False
       | Some st' \<Rightarrow>
           emit (run_callback 1 idle) 7 1 5 st' = Some (Returned, [], st')
           \<and> subscriptions st' 8 1 = [(11, Obj 1), (13, Undefined)]
           \<and> (case emit (run_callback 1 idle) 8 1 5 st' of
                 None \<Rightarrow> False
               | Some (out, evs, st'') \<Rightarrow>
                   out = Returned \<and> evs = [Call 11 (Obj 1) 8 5 [], Call 13 Undefined 8 5 []]))
   \<and> (case disconnectReceiver 1 two_senders of
         None \<Rightarrow> False
       | Some st' \<Rightarrow>
           subscriptions st' 7 1 = [(12, Obj 2)] \<and> subscriptions st' 8 1 = [(13, Undefined)]
           \<and> (case emit (run_callback 1 idle) 7 1 5 st' of
                 None \<Rightarrow> False
               | Some (out, evs, st'') \<Rightarrow> out = Returned \<and> evs = [Call 12 (Obj 2) 7 5 []]))"
proof -
  have h: "case exec_all (run_callback 0 idle) teardown_script init of None \<Rightarrow> False | Some r \<Rightarrow> True"
    by code_simp
  then obtain out evs st where r: "exec_all (run_callback 0 idle) teardown_script init = Some (out, evs, st)"
    by (auto split: option.splits)
  have ts: "two_senders = st" unfolding two_senders_def r by simp
  have s7: "subscriptions two_senders 7 1 = [(11, Obj 1), (12, Obj 2)]"
    and s8: "subscriptions two_senders 8 1 = [(11, Obj 1), (13, Undefined)]"
    by code_simp+
  from bulk_teardown[OF r, of 7 0 idle 1] obtain sa sb where
    a: "disconnectSender 7 st = Some sa"
      "\<And>g a. emit (run_callback 0 idle) 7 g a sa = Some (Returned, [], sa)"
      "\<And>s' g a. s' \<noteq> 7 \<Longrightarrow> subscriptions sa s' g = subscriptions st s' g
          \<and> (\<exists>st''. emit (run_callback (Suc 0) idle) s' g a sa
                 = Some (Returned, map (invocation s' a) (subscriptions st s' g), st''))"
    and b: "disconnectReceiver 1 st = Some sb"
      "\<And>s g a. subscriptions sb s g = filter (\<lambda>k. key_receiver k \<noteq> 1) (subscriptions st s g)
          \<and> (\<exists>st''. emit (run_callback (Suc 0) idle) s g a sb
                 = Some (Returned,
                      map (invocation s a) (filter (\<lambda>k. key_receiver k \<noteq> 1) (subscriptions st s g)), st''))"
    by blast
  have a1: "emit (run_callback 1 idle) 7 1 5 sa = Some (Returned, [], sa)"
    using a(1) disconnectSender_subscriptions[OF reachable_wf(1)[OF r], of 7]
    by (auto intro: emit_unconnected)
  from a(3)[of 8 1 5] obtain sa' where a2: "subscriptions sa 8 1 = subscriptions st 8 1"
    "emit (run_callback 1 idle) 8 1 5 sa = Some (Returned, map (invocation 8 5) (subscriptions st 8 1), sa')"
    by auto
  from b(2)[of 7 1 5] obtain sb' where b1:
    "subscriptions sb 7 1 = filter (\<lambda>k. key_receiver k \<noteq> 1) (subscriptions st 7 1)"
    "emit (run_callback 1 idle) 7 1 5 sb
       = Some (Returned, map (invocation 7 5) (filter (\<lambda>k. key_receiver k \<noteq> 1) (subscriptions st 7 1)), sb')"
    by auto
  from b(2)[of 8 1 5] have b2:
    "subscriptions sb 8 1 = filter (\<lambda>k. key_receiver k \<noteq> 1) (subscriptions st 8 1)" by simp
  show ?thesis
    using h s7 s8 a(1) a1 a2 b(1) b1 b2 unfolding ts
    by (simp add: invocation_def key_receiver_def receiver_of_def)
qed

section \<open>Where a connection is linked\<close>

lemma nodes_one_list:
  assumes wf: "wf_state st" and l: "l < nextList st" "l' < nextList st"
    and c: "c \<in> set (nodes st l)" "c \<in> set (nodes st l')"
  shows "l = l'"
  using wf_disjoint[OF wf l(1) l(2) _ c(1)] c(2) by blast

lemma rnodes_one_chain:
  assumes wr: "wf_receivers st" and c: "c \<in> set (rnodes st r)" "c \<in> set (rnodes st r')"
  shows "r = r'"
  using wf_receiversD(2)[OF wr c(1)] wf_receiversD(2)[OF wr c(2)] by simp

text \<open>A dead connection stays in its list while connections are made and broken.\<close>

lemma connect_keeps_nodes:
  assumes wf: "wf_state st" and l: "l < nextList st" and d: "d \<in> set (nodes st l)"
    and c: "connect s g cb t st = Some (b, st')"
  shows "d \<in> set (nodes st' l)"
proof (cases b)
  case False
  with connect_False(1)[OF wf, of s g cb t st'] c d show ?thesis by simp
next
  case True
  with c have c': "connect s g cb t st = Some (True, st')" by simp
  from connect_appended[OF wf c'] obtain k where a: "appended st s g cb (coerce t) k st'" by blast
  show ?thesis
  proof (cases "k = l")
    case False
    from appendedD(5)[OF a l] False d show ?thesis by simp
  next
    case True
    show ?thesis
    proof (cases "senderMap st s")
      case None
      from appendedD(3)[OF a None] True l show ?thesis by simp
    next
      case (Some l0)
      from appendedD(4)[OF a Some] have "nodes st' k = nodes st k @ [nextConn st]" by blast
      with True d show ?thesis by simp
    qed
  qed
qed

lemma disconnect_keeps_nodes:
  assumes d: "disconnect s g cb t st = Some (b, st')"
  shows "nodes st' l = nodes st l"
proof (cases b)
  case False
  with d have "st' = st" by (auto simp: disconnect_connection split: option.splits)
  then show ?thesis by simp
next
  case True
  with d have "disconnect s g cb t st = Some (True, st')" by simp
  from disconnect_killed[OF this] obtain c where "killed {c} st st'" by blast
  then show ?thesis by (rule killed_nodes)
qed

text \<open>The compaction at the end of an emission takes the dead connections out of the list.\<close>

lemma emit_removes_dead:
  assumes wf: "wf_state st" and l: "senderMap st s = Some l" and z: "refs (lists st l) = 0"
    and d: "d \<in> set (nodes st l)" "\<not> live st d"
    and run: "emit (run_callback n p) s g a st = Some (Returned, evs, st')"
  shows "d \<notin> set (nodes st' l)"
proof
  assume m: "d \<in> set (nodes st' l)"
  from emit_inv[OF run_callback_preserves_wf wf run] l obtain d' where
    e: "evolves st st'" and pr: "pass_result st (nodes st l) g s a False Returned d' evs st'"
    and cl: "d' \<and> refs (lists st l) = 0 \<longrightarrow> (\<forall>c\<in>set (nodes st' l). live st' c)"
    by auto
  from pr d have "d'" unfolding pass_result_def by blast
  with cl z m have "live st' d" by blast
  moreover have "d < nextConn st" using wf_nodes_bound[OF wf wf_senderMap[OF wf l] d(1)] .
  ultimately show False using evolves_live(1)[OF e] d(2) by blast
qed

text \<open>After \<open>disconnectSender\<close> the connections of the sender are in no list of a sender.\<close>

lemma disconnectSender_removes:
  assumes wf: "wf_state st" and l: "senderMap st s = Some l" and d: "d \<in> set (nodes st l)"
    and t: "disconnectSender s st = Some st'" and l': "senderMap st' s' = Some l'"
  shows "d \<notin> set (nodes st' l')"
proof -
  from disconnectSender_effect[OF wf, of s] t obtain st1 K where
    st': "st' = st1\<lparr>senderMap := (senderMap st)(s := None)\<rparr>" and k: "killed K st st1" by auto
  have n: "nodes st' l' = nodes st l'" unfolding st' using killed_nodes[OF k] by simp
  from l' have s': "s' \<noteq> s" and m: "senderMap st s' = Some l'"
    unfolding st' by (auto split: if_splits)
  have "l' \<noteq> l" using wf_senderMap_inj[OF wf l, of s'] m s' by auto
  from wf_disjoint[OF wf wf_senderMap[OF wf l] wf_senderMap[OF wf m] this[symmetric] d]
  show ?thesis unfolding n .
qed

text \<open>What a successful \<open>disconnect\<close> does on the two sides.\<close>

lemma disconnect_True_sides:
  assumes wf: "wf_state st" and wr: "wf_receivers st"
    and d: "disconnect s g cb t st = Some (True, st')"
  shows "\<exists>c l. connection st s g cb t = Some (Some c)
           \<and> c \<in> set (rnodes st (receiver_of (coerce t) cb))
           \<and> (\<forall>r. rnodes st' r = removeAll c (rnodes st r))
           \<and> wf_state st' \<and> wf_receivers st'
           \<and> (rnodes st (receiver_of (coerce t) cb) = [c]
                 \<longrightarrow> receiverMap st' (receiver_of (coerce t) cb) = None)
           \<and> senderMap st s = Some l \<and> senderMap st' s = Some l \<and> nodes st' l = nodes st l
           \<and> c \<in> set (nodes st' l) \<and> \<not> live st' c"
proof -
  let ?r = "receiver_of (coerce t) cb"
  from disconnect_True_effect(1)[OF wf d] obtain c l where
    conn: "connection st s g cb t = Some (Some c)" and l: "senderMap st s = Some l"
    and k: "killed {c} st st'" and c: "c \<in> set (nodes st l)"
    and st': "st' = clear_conn c (removeFromSendersList c st)" by blast
  from connection_found_iff[OF wf l, of g cb t c] conn
  have sc: "subscribes st c g cb (coerce t)" by simp
  then have cr: "conn_receiver (conns st c) = Some ?r"
    by (intro receiver_of_conn_receiver) (simp_all add: subscribes_def)
  have a: "c \<in> set (rnodes st ?r)" using wf_receiversD(4)[OF wr cr] .
  have b: "rnodes st' r = removeAll c (rnodes st r)" for r
    unfolding st' by (rule kill_receivers(2)[OF wr])
  have e: "rnodes st ?r = [c] \<longrightarrow> receiverMap st' ?r = None"
    unfolding st' using kill_receivers(3)[OF wr cr] by blast
  have "wf_receivers st'" unfolding st' by (rule kill_receivers(1)[OF wr])
  moreover have "wf_state st'" using killed_wf[OF k wf] .
  moreover have "senderMap st' s = Some l" "nodes st' l = nodes st l" "\<not> live st' c"
    using l killedD(2)[OF k] killed_nodes[OF k] killed_live[OF k, of c] by simp_all
  ultimately show ?thesis using conn a b e l c by auto
qed

text \<open>
  C8.  In every registry that a script reaches from the empty one, a connection is in the
  list of at most one sender and in the chain of at most one receiver.  A \<open>disconnect\<close>
  that returns \<open>true\<close> takes the connection \<open>d\<close> it found out of the chain of its receiver
  at once: every chain is what it was without \<open>d\<close> and is again a doubly linked chain from
  the entry of its receiver, and the entry of the receiver is deleted if \<open>d\<close> was alone in
  the chain.  The connection, now dead, is still in the list of the sender; it stays
  there through any \<open>connect\<close> and \<open>disconnect\<close>; an emission on the sender that returns, with
  no other emission walking the list, removes it from the list; and after
  \<open>disconnectSender\<close> it is in no list of a sender.
\<close>

theorem connection_membership:
  assumes "exec_all (run_callback n0 p0) xs init = Some (out0, evs0, st)"
  shows "(senderMap st s1 = Some l1 \<and> senderMap st s2 = Some l2
            \<and> c \<in> set (nodes st l1) \<and> c \<in> set (nodes st l2) \<longrightarrow> s1 = s2 \<and> l1 = l2)
       \<and> (c \<in> set (rnodes st r1) \<and> c \<in> set (rnodes st r2) \<longrightarrow> r1 = r2)
       \<and> (disconnect s g cb t st = Some (True, st') \<longrightarrow>
            (\<exists>d l. connection st s g cb t = Some (Some d)
               \<and> d \<in> set (rnodes st (receiver_of (coerce t) cb))
               \<and> (\<forall>r. rnodes st' r = removeAll d (rnodes st r))
               \<and> (\<forall>r. rchain (conns st') None (receiverMap st' r) (rnodes st' r))
               \<and> (rnodes st (receiver_of (coerce t) cb) = [d]
                     \<longrightarrow> receiverMap st' (receiver_of (coerce t) cb) = None)
               \<and> senderMap st' s = Some l \<and> nodes st' l = nodes st l
               \<and> d \<in> set (nodes st' l) \<and> \<not> live st' d
               \<and> (\<forall>s2 g2 cb2 t2 b st2.
                     connect s2 g2 cb2 t2 st' = Some (b, st2) \<or> disconnect s2 g2 cb2 t2 st' = Some (b, st2)
                     \<longrightarrow> d \<in> set (nodes st2 l))
               \<and> (\<forall>n p g2 a evs st2.
                     refs (lists st' l) = 0 \<and> emit (run_callback n p) s g2 a st' = Some (Returned, evs, st2)
                     \<longrightarrow> d \<notin> set (nodes st2 l))
               \<and> (\<forall>st3 s3 l3.
                     disconnectSender s st' = Some st3 \<and> senderMap st3 s3 = Some l3
                     \<longrightarrow> d \<notin> set (nodes st3 l3))))"
proof (intro conjI impI)
  note wf = reachable_wf(1)[OF assms] and wr = reachable_wf(2)[OF assms]
  {
    assume a: "senderMap st s1 = Some l1 \<and> senderMap st s2 = Some l2
            \<and> c \<in> set (nodes st l1) \<and> c \<in> set (nodes st l2)"
    then have "l1 = l2"
      using nodes_one_list[OF wf wf_senderMap[OF wf, of s1 l1] wf_senderMap[OF wf, of s2 l2], of c]
      by blast
    with a wf_senderMap_inj[OF wf, of s1 l1 s2] show "s1 = s2" "l1 = l2" by auto
  }
  {
    assume "c \<in> set (rnodes st r1) \<and> c \<in> set (rnodes st r2)"
    then show "r1 = r2" using rnodes_one_chain[OF wr] by blast
  }
  assume d: "disconnect s g cb t st = Some (True, st')"
  from disconnect_True_sides[OF wf wr d] obtain c l where
    f: "connection st s g cb t = Some (Some c)"
      "c \<in> set (rnodes st (receiver_of (coerce t) cb))"
      "\<forall>r. rnodes st' r = removeAll c (rnodes st r)"
      "rnodes st (receiver_of (coerce t) cb) = [c] \<longrightarrow> receiverMap st' (receiver_of (coerce t) cb) = None"
      "senderMap st' s = Some l" "nodes st' l = nodes st l" "c \<in> set (nodes st' l)" "\<not> live st' c"
    and wf': "wf_state st'" and wr': "wf_receivers st'"
    by blast
  have l: "l < nextList st'" using wf_senderMap[OF wf' f(5)] .
  have ch: "\<forall>r. rchain (conns st') None (receiverMap st' r) (rnodes st' r)"
    using wf_receiversD(1)[OF wr'] by blast
  have keep: "\<forall>s2 g2 cb2 t2 b st2.
      connect s2 g2 cb2 t2 st' = Some (b, st2) \<or> disconnect s2 g2 cb2 t2 st' = Some (b, st2)
      \<longrightarrow> c \<in> set (nodes st2 l)"
    using connect_keeps_nodes[OF wf' l f(7)] disconnect_keeps_nodes[of _ _ _ _ st' _ _ l] f(7)
    by metis
  have compact: "\<forall>n p g2 a evs st2.
      refs (lists st' l) = 0 \<and> emit (run_callback n p) s g2 a st' = Some (Returned, evs, st2)
      \<longrightarrow> c \<notin> set (nodes st2 l)"
    using emit_removes_dead[OF wf' f(5) _ f(7,8)] by blast
  have tear: "\<forall>st3 s3 l3. disconnectSender s st' = Some st3 \<and> senderMap st3 s3 = Some l3
      \<longrightarrow> c \<notin> set (nodes st3 l3)"
    using disconnectSender_removes[OF wf' f(5,7)] by blast
  from f ch keep compact tear
  show "\<exists>d l. connection st s g cb t = Some (Some d)
               \<and> d \<in> set (rnodes st (receiver_of (coerce t) cb))
               \<and> (\<forall>r. rnodes st' r = removeAll d (rnodes st r))
               \<and> (\<forall>r. rchain (conns st') None (receiverMap st' r) (rnodes st' r))
               \<and> (rnodes st (receiver_of (coerce t) cb) = [d]
                     \<longrightarrow> receiverMap st' (receiver_of (coerce t) cb) = None)
               \<and> senderMap st' s = Some l \<and> nodes st' l = nodes st l
               \<and> d \<in> set (nodes st' l) \<and> \<not> live st' d
               \<and> (\<forall>s2 g2 cb2 t2 b st2.
                     connect s2 g2 cb2 t2 st' = Some (b, st2) \<or> disconnect s2 g2 cb2 t2 st' = Some (b, st2)
                     \<longrightarrow> d \<in> set (nodes st2 l))
               \<and> (\<forall>n p g2 a evs st2.
                     refs (lists st' l) = 0 \<and> emit (run_callback n p) s g2 a st' = Some (Returned, evs, st2)
                     \<longrightarrow> d \<notin> set (nodes st2 l))
               \<and> (\<forall>st3 s3 l3.
                     disconnectSender s st' = Some st3 \<and> senderMap st3 s3 = Some l3
                     \<longrightarrow> d \<notin> set (nodes st3 l3))"
    by blast
qed

theorem connection_membership_witness:
  "(case exec_all (run_callback 0 idle) teardown_script init of None \<Rightarrow> False | Some r \<Rightarrow> True)
   \<and> senderMap two_senders 7 = Some 0 \<and> nodes two_senders 0 = [0, 1]
   \<and> rnodes two_senders 2 = [1] \<and> rnodes two_senders 1 = [2, 0]
   \<and> disconnect 7 1 12 (Obj 2) two_senders = Some (True, one_disconnected)
   \<and> connection two_senders 7 1 12 (Obj 2) = Some (Some 1)
   \<and> rnodes one_disconnected 2 = [] \<and> receiverMap one_disconnected 2 = None
   \<and> rnodes one_disconnected 1 = [2, 0]
   \<and> senderMap one_disconnected 7 = Some 0 \<and> nodes one_disconnected 0 = [0, 1]
   \<and> \<not> live one_disconnected 1 \<and> refs (lists one_disconnected 0) = 0
   \<and> (case connect 7 1 14 Undefined one_disconnected of
         None \<Rightarrow> False
       | Some (b, st2) \<Rightarrow> 1 \<in> set (nodes st2 0))
   \<and> (case emit (run_callback 1 idle) 7 1 5 one_disconnected of
         None \<Rightarrow> False
       | Some (out, evs, st2) \<Rightarrow> out = Returned \<and> 1 \<notin> set (nodes st2 0))
   \<and> (case disconnectSender 7 one_disconnected of
         None \<Rightarrow> False
       | Some st3 \<Rightarrow> senderMap st3 8 = Some 1 \<and> 1 \<notin> set (nodes st3 1))"
proof -
  have h: "case exec_all (run_callback 0 idle) teardown_script init of None \<Rightarrow> False | Some r \<Rightarrow> True"
    by code_simp
  then obtain out evs st where r: "exec_all (run_callback 0 idle) teardown_script init = Some (out, evs, st)"
    by (auto split: option.splits)
  have ts: "two_senders = st" unfolding two_senders_def r by simp
  have f: "connection two_senders 7 1 12 (Obj 2) = Some (Some 1)" by code_simp
  then have d: "disconnect 7 1 12 (Obj 2) st = Some (True, one_disconnected)"
    unfolding ts[symmetric] by (simp add: disconnect_connection one_disconnected_def)
  have v: "senderMap two_senders 7 = Some 0" "nodes two_senders 0 = [0, 1]"
    "rnodes two_senders 2 = [1]" "rnodes two_senders 1 = [2, 0]"
    "senderMap one_disconnected 7 = Some 0" "refs (lists one_disconnected 0) = 0"
    by code_simp+
  have c: "case connect 7 1 14 Undefined one_disconnected of None \<Rightarrow> False | Some r \<Rightarrow> True"
    and e: "case emit (run_callback 1 idle) 7 1 5 one_disconnected of
              None \<Rightarrow> False | Some (out, evs, st2) \<Rightarrow> out = Returned"
    and t: "case disconnectSender 7 one_disconnected of
              None \<Rightarrow> False | Some st3 \<Rightarrow> senderMap st3 8 = Some 1"
    by code_simp+
  from c obtain b sc where c': "connect 7 1 14 Undefined one_disconnected = Some (b, sc)"
    by (auto split: option.splits)
  from e obtain evs' se where e': "emit (run_callback 1 idle) 7 1 5 one_disconnected = Some (Returned, evs', se)"
    by (auto split: option.splits)
  from t obtain st3 where t': "disconnectSender 7 one_disconnected = Some st3" "senderMap st3 8 = Some 1"
    by (auto split: option.splits)
  from connection_membership[OF r, where s = 7 and g = 1 and cb = 12 and t = "Obj 2"
      and st' = one_disconnected and c = 0 and ?s1.0 = 7 and ?s2.0 = 7 and ?l1.0 = 0 and ?l2.0 = 0
      and ?r1.0 = 1 and ?r2.0 = 1, THEN conjunct2, THEN conjunct2, THEN mp, OF d]
  obtain x l where w: "connection st 7 1 12 (Obj 2) = Some (Some x)"
    "\<forall>r. rnodes one_disconnected r = removeAll x (rnodes st r)"
    "rnodes st (receiver_of (coerce (Obj 2)) 12) = [x]
       \<longrightarrow> receiverMap one_disconnected (receiver_of (coerce (Obj 2)) 12) = None"
    "senderMap one_disconnected 7 = Some l" "nodes one_disconnected l = nodes st l"
    "\<not> live one_disconnected x"
    "\<forall>s2 g2 cb2 t2 b st2.
       connect s2 g2 cb2 t2 one_disconnected = Some (b, st2)
       \<or> disconnect s2 g2 cb2 t2 one_disconnected = Some (b, st2) \<longrightarrow> x \<in> set (nodes st2 l)"
    "\<forall>n p g2 a evs st2.
       refs (lists one_disconnected l) = 0
       \<and> emit (run_callback n p) 7 g2 a one_disconnected = Some (Returned, evs, st2)
       \<longrightarrow> x \<notin> set (nodes st2 l)"
    "\<forall>st3 s3 l3. disconnectSender 7 one_disconnected = Some st3 \<and> senderMap st3 s3 = Some l3
       \<longrightarrow> x \<notin> set (nodes st3 l3)"
    by blast
  have x: "x = 1" using w(1) f unfolding ts by simp
  have l: "l = 0" using w(4) v(5) by simp
  have r2: "receiver_of (coerce (Obj 2)) 12 = 2" by (simp add: receiver_of_def coerce_def)
  have a1: "rnodes one_disconnected 2 = []" "rnodes one_disconnected 1 = [2, 0]"
    using w(2) v(3,4) unfolding x ts by simp_all
  have a2: "receiverMap one_disconnected 2 = None" using w(3) v(3) unfolding x r2 ts by simp
  have a3: "nodes one_disconnected 0 = [0, 1]" using w(5) v(2) unfolding l ts by simp
  have a4: "\<not> live one_disconnected 1" using w(6) unfolding x .
  have a5: "1 \<in> set (nodes sc 0)" using w(7) c' unfolding x l by blast
  have a6: "1 \<notin> set (nodes se 0)" using w(8) e' v(6) unfolding x l by blast
  have a7: "1 \<notin> set (nodes st3 1)" using w(9) t' unfolding x by blast
  show ?thesis
    unfolding c' e' t'(1) using h v d[unfolded ts[symmetric]] f a1 a2 a3 a4 a5 a6 a7 t'(2) by simp
qed


end
